(* ===== verification/Ferros_Prelude.thy ===== *)
theory Ferros_Prelude
  imports Main "HOL-Library.Word"
begin

text \<open>
  Shared vocabulary of the development: the machine integer types of the Rust sources, the
  result type of fallible code (\<open>error + 'a\<close>, \<open>Inl\<close> for the error), the state passing form of
  code that both mutates and fails, byte encodings (\<open>to_le_bytes\<close>, \<open>from_be_bytes\<close> and their
  kin), and slices of byte buffers, with the generic lemmas every component uses.
\<close>

unbundle bit_operations_syntax

section \<open>Types\<close>

type_synonym u8 = "8 word"
type_synonym u16 = "16 word"
type_synonym u32 = "32 word"
type_synonym u64 = "64 word"

text \<open>\<open>i64\<close> and \<open>i32\<close> values are \<open>int\<close>; where a source operation can leave the range the
  check is written out. \<open>usize\<close> counts and indices into vectors are \<open>nat\<close>.\<close>

type_synonym i64 = int
type_synonym i32 = int

text \<open>Code that mutates a state and may fail: the state is returned also when it fails.\<close>

type_synonym ('s, 'e, 'a) eff = "'s \<Rightarrow> ('e + 'a) \<times> 's"

section \<open>Collections of rewrite rules\<close>

named_theorems res_simps "rewrite rules for results and effects"
named_theorems slice_simps "rewrite rules for slices of buffers"

section \<open>Results: the \<open>?\<close> operator\<close>

fun rbind :: "'e + 'a \<Rightarrow> ('a \<Rightarrow> 'e + 'b) \<Rightarrow> 'e + 'b" where
  "rbind (Inl e) f = Inl e"
| "rbind (Inr x) f = f x"

text \<open>\<open>Option::ok_or\<close>.\<close>

fun ok_or :: "'a option \<Rightarrow> 'e \<Rightarrow> 'e + 'a" where
  "ok_or None e = Inl e"
| "ok_or (Some x) e = Inr x"

section \<open>Effects: sequencing of fallible code over a state\<close>

definition ret :: "'a \<Rightarrow> ('s, 'e, 'a) eff" where
  "ret x s = (Inr x, s)"

definition fail :: "'e \<Rightarrow> ('s, 'e, 'a) eff" where
  "fail e s = (Inl e, s)"

definition ebind :: "('s, 'e, 'a) eff \<Rightarrow> ('a \<Rightarrow> ('s, 'e, 'b) eff) \<Rightarrow> ('s, 'e, 'b) eff" where
  "ebind m f s = (case m s of (Inl e, s') \<Rightarrow> (Inl e, s') | (Inr x, s') \<Rightarrow> f x s')"

text \<open>A computation that only reads the state.\<close>

definition reads :: "('s \<Rightarrow> 'e + 'a) \<Rightarrow> ('s, 'e, 'a) eff" where
  "reads f s = (f s, s)"

text \<open>\<open>if let Err(e) = m { let _ = undo(); return Err(e) }\<close>: the undo step runs for its effect
  only and its own result is dropped.\<close>

definition on_error :: "('s, 'e, 'a) eff \<Rightarrow> ('s, 'e, 'b) eff \<Rightarrow> ('s, 'e, 'a) eff" where
  "on_error m undo s = (case m s of
     (Inl e, s') \<Rightarrow> (Inl e, snd (undo s'))
   | (Inr x, s') \<Rightarrow> (Inr x, s'))"

text \<open>\<open>let _ = m;\<close>: the result is dropped.\<close>

definition ignoring :: "('s, 'e, 'a) eff \<Rightarrow> ('s, 'f, unit) eff" where
  "ignoring m s = (Inr (), snd (m s))"

section \<open>Byte order\<close>

definition le_bytes :: "nat \<Rightarrow> 'a::len word \<Rightarrow> u8 list" where
  "le_bytes n w = map (\<lambda>i. ucast (drop_bit (8 * i) w)) [0..<n]"

definition from_le :: "u8 list \<Rightarrow> 'a::len word" where
  "from_le bs = foldr (\<lambda>b acc. ucast b OR push_bit 8 acc) bs 0"

definition be_bytes :: "nat \<Rightarrow> 'a::len word \<Rightarrow> u8 list" where
  "be_bytes n w = rev (le_bytes n w)"

definition from_be :: "u8 list \<Rightarrow> 'a::len word" where
  "from_be bs = from_le (rev bs)"

section \<open>Slices\<close>

text \<open>\<open>&xs[off..off + n]\<close>; in range it has exactly \<open>n\<close> elements.\<close>

definition slice :: "nat \<Rightarrow> nat \<Rightarrow> 'a list \<Rightarrow> 'a list" where
  "slice off n xs = take n (drop off xs)"

text \<open>\<open>xs[off..off + ys.len()].copy_from_slice(&ys)\<close>, in range.\<close>

definition put_at :: "nat \<Rightarrow> 'a list \<Rightarrow> 'a list \<Rightarrow> 'a list" where
  "put_at off ys xs = take off xs @ ys @ drop (off + length ys) xs"

text \<open>\<open>xs.chunks_exact(n)\<close>, for positive \<open>n\<close>: a remainder shorter than \<open>n\<close> is not visited.\<close>

function chunks_exact :: "nat \<Rightarrow> 'a list \<Rightarrow> 'a list list" where
  "chunks_exact n xs =
     (if n = 0 \<or> length xs < n then [] else take n xs # chunks_exact n (drop n xs))"
  by pat_completeness auto
termination by (relation "measure (\<lambda>(n, xs). length xs)") auto

declare chunks_exact.simps [simp del]

section \<open>Lemmas on words\<close>

lemma unat_u8: "unat (x :: u8) < 256"
  using unsigned_less [of x, where 'a = nat] by (simp del: unsigned_less)

lemma unat_u16: "unat (x :: u16) < 65536"
  using unsigned_less [of x, where 'a = nat] by (simp del: unsigned_less)

lemma unat_u32: "unat (x :: u32) < 4294967296"
  using unsigned_less [of x, where 'a = nat] by (simp del: unsigned_less)

lemma unat_u64: "unat (x :: u64) < 18446744073709551616"
  using unsigned_less [of x, where 'a = nat] by (simp del: unsigned_less)

lemma unat_ucast_wide [simp]:
  "LENGTH('a) \<le> LENGTH('b) \<Longrightarrow> unat (ucast (x :: 'a::len word) :: 'b::len word) = unat x"
proof -
  assume "LENGTH('a) \<le> LENGTH('b)"
  then have "(2 :: nat) ^ LENGTH('a) \<le> 2 ^ LENGTH('b)" by simp
  with unsigned_less [of x, where 'a = nat] have "unat x < 2 ^ LENGTH('b)"
    by (rule less_le_trans)
  then show ?thesis by (simp add: unsigned_ucast_eq take_bit_nat_eq_self)
qed

lemma ucast_wide_eq [simp]:
  "LENGTH('a) \<le> LENGTH('b) \<Longrightarrow>
   (ucast (x :: 'a::len word) :: 'b::len word) = ucast y \<longleftrightarrow> x = y"
  by (metis unat_ucast_wide word_unat_eq_iff)

lemma unat_inc:
  fixes c :: "'a::len word"
  assumes "c < l"
  shows "unat (c + 1) = Suc (unat c)"
proof -
  have "Suc (unat c) < 2 ^ LENGTH('a)"
    using assms unsigned_less [of l, where 'a = nat] by (simp add: word_less_nat_alt del: unsigned_less)
  then show ?thesis by (simp add: unat_word_ariths)
qed

lemma word_inc_less:
  fixes c :: "'a::len word"
  assumes "c < l"
  shows "c < c + 1" and "c + 1 \<le> l"
  using assms by (simp_all add: word_less_nat_alt word_le_nat_alt unat_inc)

section \<open>Lemmas on results and effects\<close>

declare rbind.simps [res_simps]

lemma rbind_Inr_iff [res_simps]: "rbind m f = Inr y \<longleftrightarrow> (\<exists>x. m = Inr x \<and> f x = Inr y)"
  by (cases m) auto

lemma rbind_Inl_iff [res_simps]:
  "rbind m f = Inl e \<longleftrightarrow> m = Inl e \<or> (\<exists>x. m = Inr x \<and> f x = Inl e)"
  by (cases m) auto

lemma ok_or_Inr [simp]: "ok_or m e = Inr x \<longleftrightarrow> m = Some x"
  by (cases m) auto

lemma ok_or_Inl [simp]: "ok_or m e = Inl e' \<longleftrightarrow> m = None \<and> e = e'"
  by (cases m) auto

lemma ebind_Inr [res_simps]:
  "ebind m f s = (Inr y, t) \<longleftrightarrow> (\<exists>x s'. m s = (Inr x, s') \<and> f x s' = (Inr y, t))"
  by (auto simp: ebind_def split: prod.splits sum.splits)

lemma ebind_Inl [res_simps]:
  "ebind m f s = (Inl e, t) \<longleftrightarrow>
     m s = (Inl e, t) \<or> (\<exists>x s'. m s = (Inr x, s') \<and> f x s' = (Inl e, t))"
  by (auto simp: ebind_def split: prod.splits sum.splits)

lemma ebind_step [simp]: "m s = (Inr x, s') \<Longrightarrow> ebind m f s = f x s'"
  by (simp add: ebind_def)

lemma ebind_stop [simp]: "m s = (Inl e, s') \<Longrightarrow> ebind m f s = (Inl e, s')"
  by (simp add: ebind_def)

declare ret_def [res_simps] fail_def [res_simps] reads_def [res_simps] ignoring_def [res_simps]

lemma on_error_Inr [res_simps]: "on_error m u s = (Inr x, t) \<longleftrightarrow> m s = (Inr x, t)"
  by (auto simp: on_error_def split: prod.splits sum.splits)

lemma on_error_Inl [res_simps]:
  "on_error m u s = (Inl e, t) \<longleftrightarrow> (\<exists>s'. m s = (Inl e, s') \<and> t = snd (u s'))"
  by (auto simp: on_error_def split: prod.splits sum.splits)

section \<open>Lemmas on byte order\<close>

lemma length_le_bytes [simp]: "length (le_bytes n w) = n"
  by (simp add: le_bytes_def)

lemma length_be_bytes [simp]: "length (be_bytes n w) = n"
  by (simp add: be_bytes_def)

lemma nth_le_bytes [simp]: "i < n \<Longrightarrow> le_bytes n w ! i = ucast (drop_bit (8 * i) w)"
  by (simp add: le_bytes_def)

lemma from_le_Nil [simp]: "from_le [] = 0"
  by (simp add: from_le_def)

lemma from_le_Cons: "from_le (b # bs) = ucast b OR push_bit 8 (from_le bs)"
  by (simp add: from_le_def)

lemma bit_from_le:
  "bit (from_le bs :: 'a::len word) k \<longleftrightarrow>
     k < LENGTH('a) \<and> k div 8 < length bs \<and> bit (bs ! (k div 8)) (k mod 8)"
proof (induction bs arbitrary: k)
  case Nil
  then show ?case by simp
next
  case (Cons b bs)
  show ?case
  proof (cases "k < 8")
    case True
    then show ?thesis
      by (auto simp: from_le_Cons bit_simps)
  next
    case False
    then have "k div 8 = Suc ((k - 8) div 8)" and "(k - 8) mod 8 = k mod 8"
      by (simp_all add: le_div_geq mod_if [of k] )
    moreover have "\<not> bit b k"
      using False by (auto dest: bit_imp_le_length)
    ultimately show ?thesis
      using False Cons.IH [of "k - 8"] by (auto simp: from_le_Cons bit_simps)
  qed
qed

lemma from_le_le_bytes:
  assumes "LENGTH('a) \<le> 8 * n"
  shows "from_le (le_bytes n w) = (w :: 'a::len word)"
proof (rule bit_word_eqI)
  fix k assume k: "k < LENGTH('a)"
  with assms have "k div 8 < n" by auto
  moreover have "8 * (k div 8) + k mod 8 = k" by simp
  ultimately show "bit (from_le (le_bytes n w) :: 'a word) k = bit w k"
    using k by (auto simp: bit_from_le bit_simps)
qed

lemma le_bytes_from_le:
  assumes "8 * length bs \<le> LENGTH('a)"
  shows "le_bytes (length bs) (from_le bs :: 'a::len word) = bs"
proof (rule nth_equalityI)
  fix i assume i: "i < length (le_bytes (length bs) (from_le bs :: 'a word))"
  show "le_bytes (length bs) (from_le bs :: 'a word) ! i = bs ! i"
  proof (rule bit_word_eqI)
    fix k assume k: "k < LENGTH(8)"
    with i assms have "8 * i + k < LENGTH('a)" by simp
    with i k show "bit (le_bytes (length bs) (from_le bs :: 'a word) ! i) k = bit (bs ! i) k"
      by (simp add: bit_simps bit_from_le)
  qed
qed simp

lemma from_be_be_bytes:
  "LENGTH('a) \<le> 8 * n \<Longrightarrow> from_be (be_bytes n w) = (w :: 'a::len word)"
  by (simp add: from_be_def be_bytes_def from_le_le_bytes)

lemma be_bytes_from_be:
  "8 * length bs \<le> LENGTH('a) \<Longrightarrow> be_bytes (length bs) (from_be bs :: 'a::len word) = bs"
  using le_bytes_from_le [of "rev bs", where 'a = 'a] by (simp add: from_be_def be_bytes_def)

section \<open>Lemmas on slices\<close>

lemma length_slice [simp, slice_simps]: "off + n \<le> length xs \<Longrightarrow> length (slice off n xs) = n"
  by (simp add: slice_def)

lemma nth_slice [simp]: "off + n \<le> length xs \<Longrightarrow> i < n \<Longrightarrow> slice off n xs ! i = xs ! (off + i)"
  by (simp add: slice_def)

lemma length_put_at [simp, slice_simps]:
  "off + length ys \<le> length xs \<Longrightarrow> length (put_at off ys xs) = length xs"
  by (simp add: put_at_def)

lemma nth_put_at:
  assumes "off + length ys \<le> length xs" and "i < length xs"
  shows "put_at off ys xs ! i =
    (if off \<le> i \<and> i < off + length ys then ys ! (i - off) else xs ! i)"
  using assms by (auto simp: put_at_def nth_append)

lemma slice_put_at_same [simp, slice_simps]:
  assumes "off + length ys \<le> length xs" and "n = length ys"
  shows "slice off n (put_at off ys xs) = ys"
  using assms by (intro nth_equalityI) (auto simp: nth_put_at)

lemma slice_put_at_other [slice_simps]:
  assumes "off + length ys \<le> length xs" and "off' + n \<le> length xs"
    and "off' + n \<le> off \<or> off + length ys \<le> off'"
  shows "slice off' n (put_at off ys xs) = slice off' n xs"
  using assms by (intro nth_equalityI) (auto simp: nth_put_at)

lemma put_at_slice_id [simp]: "off + n \<le> length xs \<Longrightarrow> put_at off (slice off n xs) xs = xs"
  by (intro nth_equalityI) (auto simp: nth_put_at)

lemma slice_slice: "o1 + n1 \<le> length xs \<Longrightarrow> o2 + n2 \<le> n1 \<Longrightarrow>
    slice o2 n2 (slice o1 n1 xs) = slice (o1 + o2) n2 xs"
  by (intro nth_equalityI) (auto simp: add.assoc)

lemma chunks_exact_step:
  "0 < n \<Longrightarrow> n \<le> length xs \<Longrightarrow> chunks_exact n xs = take n xs # chunks_exact n (drop n xs)"
  by (subst chunks_exact.simps) simp

lemma chunks_exact_short [simp]: "length xs < n \<Longrightarrow> chunks_exact n xs = []"
  by (subst chunks_exact.simps) simp

lemma chunks_exact_eq_map:
  assumes "0 < n" and "length xs = n * k"
  shows "chunks_exact n xs = map (\<lambda>i. slice (n * i) n xs) [0..<k]"
  using assms(2)
proof (induction k arbitrary: xs)
  case 0
  with assms(1) show ?case by simp
next
  case (Suc k)
  then have "length (drop n xs) = n * k" by simp
  from Suc.IH [OF this] Suc.prems assms(1) show ?case
    by (subst chunks_exact_step)
       (auto simp: upt_conv_Cons map_Suc_upt [symmetric] slice_def add.commute simp del: upt_Suc)
qed

lemma length_chunks_exact [simp]:
  "0 < n \<Longrightarrow> length xs = n * k \<Longrightarrow> length (chunks_exact n xs) = k"
  by (simp add: chunks_exact_eq_map)

end
