(* ===== verification/Disk.thy ===== *)
theory Disk
  imports Ferros_Prelude
begin

text \<open>
  The block device as the file system sees it (\<open>src/drivers/virtio_blk.rs\<close>): sectors of 512
  bytes addressed by a 64-bit number, read and written one at a time. The device itself is
  hardware: its medium and the status byte it answers a request with are part of the state, and
  a request it refuses leaves the medium as it was.
\<close>

definition SECTOR_SIZE :: nat where
  "SECTOR_SIZE = 512"

datatype BlkError = NotInitialized | OutOfRange | DeviceError u8

record disk =
  present :: bool
  capacity_sectors :: u64
  media :: "u64 \<Rightarrow> u8 list"
  rd_status :: "u64 \<Rightarrow> u8"
  wr_status :: "u64 \<Rightarrow> u8"

definition read_sector :: "u64 \<Rightarrow> disk \<Rightarrow> BlkError + u8 list" where
  "read_sector lba d =
     (if \<not> present d then Inl NotInitialized
      else if capacity_sectors d \<le> lba then Inl OutOfRange
      else if rd_status d lba \<noteq> 0 then Inl (DeviceError (rd_status d lba))
      else Inr (media d lba))"

definition write_sector :: "u64 \<Rightarrow> u8 list \<Rightarrow> (disk, BlkError, unit) eff" where
  "write_sector lba buf d =
     (if \<not> present d then (Inl NotInitialized, d)
      else if capacity_sectors d \<le> lba then (Inl OutOfRange, d)
      else if wr_status d lba \<noteq> 0 then (Inl (DeviceError (wr_status d lba)), d)
      else (Inr (), d\<lparr>media := (media d)(lba := buf)\<rparr>))"

section \<open>The contract of a keyed store\<close>

text \<open>
  What every layer above relies on: a write is seen by a later read of the same key and of no
  other key, and changes nothing else about the store. The disk's sectors are one instance; the
  file allocation table is another.
\<close>

locale keyed_store =
  fixes get :: "'s \<Rightarrow> 'k \<Rightarrow> 'v"
    and put :: "'k \<Rightarrow> 'v \<Rightarrow> 's \<Rightarrow> 's"
    and ok :: "'s \<Rightarrow> bool"
    and key :: "'k \<Rightarrow> bool"
    and val :: "'v \<Rightarrow> bool"
  assumes get_put_same: "ok s \<Longrightarrow> key k \<Longrightarrow> val x \<Longrightarrow> get (put k x s) k = x"
    and get_put_other: "ok s \<Longrightarrow> key k \<Longrightarrow> key k' \<Longrightarrow> k' \<noteq> k \<Longrightarrow> val x \<Longrightarrow> get (put k x s) k' = get s k'"
    and ok_put: "ok s \<Longrightarrow> key k \<Longrightarrow> val x \<Longrightarrow> ok (put k x s)"
begin

primrec put_all :: "('k \<times> 'v) list \<Rightarrow> 's \<Rightarrow> 's" where
  "put_all [] s = s"
| "put_all (kx # kxs) s = put_all kxs (put (fst kx) (snd kx) s)"

lemma ok_put_all:
  "ok s \<Longrightarrow> \<forall>(k, x) \<in> set kxs. key k \<and> val x \<Longrightarrow> ok (put_all kxs s)"
  by (induction kxs arbitrary: s) (auto simp: ok_put)

lemma get_put_all_other:
  "ok s \<Longrightarrow> \<forall>(k, x) \<in> set kxs. key k \<and> val x \<Longrightarrow> key k \<Longrightarrow> k \<notin> fst ` set kxs \<Longrightarrow>
   get (put_all kxs s) k = get s k"
  by (induction kxs arbitrary: s) (auto simp: ok_put get_put_other)

lemma get_put_all_same:
  "ok s \<Longrightarrow> \<forall>(k, x) \<in> set kxs. key k \<and> val x \<Longrightarrow> distinct (map fst kxs) \<Longrightarrow>
   (k, x) \<in> set kxs \<Longrightarrow> get (put_all kxs s) k = x"
proof (induction kxs arbitrary: s)
  case (Cons kx kxs)
  show ?case
  proof (cases "(k, x) = kx")
    case True
    then have "fst kx = k" "snd kx = x" by auto
    with Cons.prems have k: "key k" "val x" "k \<notin> fst ` set kxs" by (simp_all add: split_beta)
    with Cons.prems have "get (put_all kxs (put k x s)) k = get (put k x s) k"
      by (intro get_put_all_other) (auto simp: ok_put)
    with True k Cons.prems(1) show ?thesis by (auto simp: get_put_same)
  next
    case False
    with Cons.prems show ?thesis by (auto intro!: Cons.IH simp: ok_put)
  qed
qed simp

end

section \<open>The disk is a keyed store\<close>

text \<open>Every sector is 512 bytes long.\<close>

definition sectors_ok :: "disk \<Rightarrow> bool" where
  "sectors_ok d \<longleftrightarrow> (\<forall>lba. length (media d lba) = SECTOR_SIZE)"

definition set_sector :: "u64 \<Rightarrow> u8 list \<Rightarrow> disk \<Rightarrow> disk" where
  "set_sector lba buf d = d\<lparr>media := (media d)(lba := buf)\<rparr>"

interpretation dsk: keyed_store media set_sector sectors_ok "\<lambda>_. True" "\<lambda>b. length b = SECTOR_SIZE"
  by unfold_locales (auto simp: set_sector_def sectors_ok_def)

text \<open>A device that answers every request.\<close>

definition fault_free :: "disk \<Rightarrow> bool" where
  "fault_free d \<longleftrightarrow> present d \<and> (\<forall>lba. rd_status d lba = 0) \<and> (\<forall>lba. wr_status d lba = 0)"

text \<open>Two disks that differ in their medium only.\<close>

definition same_device :: "disk \<Rightarrow> disk \<Rightarrow> bool" where
  "same_device d d' \<longleftrightarrow> d' = d\<lparr>media := media d'\<rparr>"

lemma same_device_refl [simp]: "same_device d d"
  by (simp add: same_device_def)

lemma same_device_trans: "same_device a b \<Longrightarrow> same_device b c \<Longrightarrow> same_device a c"
  by (cases a; cases b; cases c) (auto simp: same_device_def)

lemma same_device_set [simp]: "same_device d (set_sector lba buf d)"
  by (simp add: same_device_def set_sector_def)

lemma set_sector_simps [simp]:
  "present (set_sector lba b d) = present d"
  "capacity_sectors (set_sector lba b d) = capacity_sectors d"
  "rd_status (set_sector lba b d) = rd_status d"
  "wr_status (set_sector lba b d) = wr_status d"
  "media (set_sector lba b d) = (media d)(lba := b)"
  by (simp_all add: set_sector_def)

lemma fault_free_set [simp]: "fault_free (set_sector lba b d) = fault_free d"
  by (simp add: fault_free_def)

lemma read_sector_ok:
  "fault_free d \<Longrightarrow> lba < capacity_sectors d \<Longrightarrow> read_sector lba d = Inr (media d lba)"
  by (simp add: read_sector_def fault_free_def)

lemma write_sector_ok:
  "fault_free d \<Longrightarrow> lba < capacity_sectors d \<Longrightarrow> write_sector lba b d = (Inr (), set_sector lba b d)"
  by (simp add: write_sector_def fault_free_def set_sector_def)

text \<open>Whatever the device answers, a read returns a sector of the medium and a write either
  changes exactly its sector or nothing.\<close>

lemma read_sector_Inr: "read_sector lba d = Inr b \<Longrightarrow> b = media d lba"
  by (auto simp: read_sector_def split: if_splits)

lemma write_sector_Inr: "write_sector lba b d = (Inr u, d') \<Longrightarrow> d' = set_sector lba b d"
  by (auto simp: write_sector_def set_sector_def split: if_splits)

lemma write_sector_Inl: "write_sector lba b d = (Inl e, d') \<Longrightarrow> d' = d"
  by (auto simp: write_sector_def split: if_splits)

end
