(* ===== verification/Rust_Str.thy ===== *)
theory Rust_Str
  imports Ferros_Prelude
begin

text \<open>
  Rust's \<open>str\<close> operations the kernel uses, on the bytes of the string: UTF-8 validation
  (\<open>core::str::from_utf8\<close>), splitting at a one-byte separator, trimming and ASCII case. A \<open>str\<close>
  is the list of its bytes; the separators are ASCII bytes, which never occur inside a multi-byte
  character, so splitting bytes is splitting characters.
\<close>

type_synonym bytes = "u8 list"

section \<open>Characters and literals\<close>

definition ch :: "char \<Rightarrow> u8" where
  "ch c = of_char c"

definition str :: "string \<Rightarrow> bytes" where
  "str s = map ch s"

section \<open>UTF-8 validation\<close>

text \<open>A continuation byte.\<close>

definition utf8_cont :: "u8 \<Rightarrow> bool" where
  "utf8_cont b \<longleftrightarrow> 0x80 \<le> b \<and> b \<le> 0xBF"

text \<open>The allowed second byte after a three-byte and a four-byte lead (no overlong forms, no
  surrogates, nothing above U+10FFFF).\<close>

definition utf8_second3 :: "u8 \<Rightarrow> u8 \<Rightarrow> bool" where
  "utf8_second3 a b \<longleftrightarrow>
     (if a = 0xE0 then 0xA0 \<le> b \<and> b \<le> 0xBF
      else if a = 0xED then 0x80 \<le> b \<and> b \<le> 0x9F
      else utf8_cont b)"

definition utf8_second4 :: "u8 \<Rightarrow> u8 \<Rightarrow> bool" where
  "utf8_second4 a b \<longleftrightarrow>
     (if a = 0xF0 then 0x90 \<le> b \<and> b \<le> 0xBF
      else if a = 0xF4 then 0x80 \<le> b \<and> b \<le> 0x8F
      else utf8_cont b)"

fun utf8_valid :: "bytes \<Rightarrow> bool" where
  "utf8_valid [] = True"
| "utf8_valid (a # bs) =
     (if a < 0x80 then utf8_valid bs
      else if 0xC2 \<le> a \<and> a \<le> 0xDF then
        (case bs of b # r \<Rightarrow> utf8_cont b \<and> utf8_valid r | _ \<Rightarrow> False)
      else if 0xE0 \<le> a \<and> a \<le> 0xEF then
        (case bs of b # c # r \<Rightarrow> utf8_second3 a b \<and> utf8_cont c \<and> utf8_valid r | _ \<Rightarrow> False)
      else if 0xF0 \<le> a \<and> a \<le> 0xF4 then
        (case bs of b # c # d # r \<Rightarrow>
           utf8_second4 a b \<and> utf8_cont c \<and> utf8_cont d \<and> utf8_valid r | _ \<Rightarrow> False)
      else False)"

text \<open>\<open>core::str::from_utf8(bs).unwrap_or("")\<close>.\<close>

definition from_utf8_or_empty :: "bytes \<Rightarrow> bytes" where
  "from_utf8_or_empty bs = (if utf8_valid bs then bs else [])"

section \<open>Trimming\<close>

text \<open>Drops leading characters with the White_Space property from a string given back to front,
  so each character's bytes appear last byte first.\<close>

fun strip_ws_rev :: "bytes \<Rightarrow> bytes" where
  "strip_ws_rev [] = []"
| "strip_ws_rev (a # bs) =
     (if (9 \<le> a \<and> a \<le> 13) \<or> a = 32 then strip_ws_rev bs
      else case bs of
        b # r \<Rightarrow>
          if b = 0xC2 \<and> (a = 0x85 \<or> a = 0xA0) then strip_ws_rev r
          else (case r of
            c # r' \<Rightarrow>
              if (c = 0xE1 \<and> b = 0x9A \<and> a = 0x80)
                 \<or> (c = 0xE2 \<and> b = 0x80 \<and> ((0x80 \<le> a \<and> a \<le> 0x8A) \<or> a = 0xA8 \<or> a = 0xA9 \<or> a = 0xAF))
                 \<or> (c = 0xE2 \<and> b = 0x81 \<and> a = 0x9F)
                 \<or> (c = 0xE3 \<and> b = 0x80 \<and> a = 0x80)
              then strip_ws_rev r' else a # bs
          | [] \<Rightarrow> a # bs)
      | [] \<Rightarrow> a # bs)"

definition trim_end :: "bytes \<Rightarrow> bytes" where
  "trim_end s = rev (strip_ws_rev (rev s))"

text \<open>\<open>s.trim_matches(c)\<close> for a one-byte character.\<close>

definition trim_matches :: "u8 \<Rightarrow> bytes \<Rightarrow> bytes" where
  "trim_matches c s = rev (dropWhile (\<lambda>x. x = c) (rev (dropWhile (\<lambda>x. x = c) s)))"

section \<open>Splitting\<close>

text \<open>\<open>s.split(c)\<close>: always at least one part, possibly empty ones.\<close>

fun split_on :: "u8 \<Rightarrow> bytes \<Rightarrow> bytes list" where
  "split_on c [] = [[]]"
| "split_on c (x # xs) =
     (if x = c then [] # split_on c xs
      else (case split_on c xs of p # ps \<Rightarrow> (x # p) # ps | [] \<Rightarrow> [[x]]))"

text \<open>\<open>s.splitn(2, c)\<close>: what is before the first separator and, if there is one, all that
  follows it.\<close>

definition splitn2 :: "u8 \<Rightarrow> bytes \<Rightarrow> bytes \<times> bytes option" where
  "splitn2 c s = (takeWhile (\<lambda>x. x \<noteq> c) s,
     (case dropWhile (\<lambda>x. x \<noteq> c) s of [] \<Rightarrow> None | _ # r \<Rightarrow> Some r))"

text \<open>\<open>parts.join("/")\<close>.\<close>

fun join_with :: "u8 \<Rightarrow> bytes list \<Rightarrow> bytes" where
  "join_with c [] = []"
| "join_with c [p] = p"
| "join_with c (p # ps) = p @ c # join_with c ps"

definition to_ascii_uppercase :: "u8 \<Rightarrow> u8" where
  "to_ascii_uppercase b = (if 97 \<le> b \<and> b \<le> 122 then b - 32 else b)"

section \<open>Lemmas\<close>

declare utf8_valid.simps(2) [simp del] strip_ws_rev.simps(2) [simp del]

lemma split_on_not_Nil [simp]: "split_on c xs \<noteq> []"
  by (induction xs) (auto split: list.splits)

lemma split_on_no_sep: "c \<notin> set xs \<Longrightarrow> split_on c xs = [xs]"
  by (induction xs) auto

lemma split_on_append: "c \<notin> set xs \<Longrightarrow> split_on c (xs @ c # ys) = xs # split_on c ys"
  by (induction xs) auto

lemma split_on_parts: "p \<in> set (split_on c xs) \<Longrightarrow> c \<notin> set p"
  by (induction xs arbitrary: p) (auto split: list.splits if_splits)

lemma join_with_Cons: "ps \<noteq> [] \<Longrightarrow> join_with c (p # ps) = p @ c # join_with c ps"
  by (cases ps) auto

lemma split_on_join:
  "ps \<noteq> [] \<Longrightarrow> \<forall>p \<in> set ps. c \<notin> set p \<Longrightarrow> split_on c (join_with c ps) = ps"
proof (induction ps)
  case (Cons p ps)
  then show ?case
    by (cases "ps = []") (auto simp: split_on_no_sep join_with_Cons split_on_append)
qed simp

lemma join_split_on: "join_with c (split_on c xs) = xs"
proof (induction xs)
  case (Cons x xs)
  show ?case
  proof (cases "split_on c xs")
    case Nil
    then show ?thesis by simp
  next
    case s: (Cons p ps)
    with Cons.IH show ?thesis by (cases ps) auto
  qed
qed simp

lemma splitn2_no_sep: "c \<notin> set s \<Longrightarrow> splitn2 c s = (s, None)"
proof -
  assume "c \<notin> set s"
  then have "dropWhile (\<lambda>x. x \<noteq> c) s = []" and "takeWhile (\<lambda>x. x \<noteq> c) s = s"
    by (auto simp: takeWhile_eq_all_conv)
  then show ?thesis by (simp only: splitn2_def list.case)
qed

lemma splitn2_sep: "c \<notin> set a \<Longrightarrow> splitn2 c (a @ c # b) = (a, Some b)"
  by (auto simp: splitn2_def takeWhile_append dropWhile_append dropWhile_eq_Nil_conv)

lemma strip_ws_rev_spaces: "strip_ws_rev (replicate n 32 @ bs) = strip_ws_rev bs"
  by (induction n) (auto simp: strip_ws_rev.simps(2))

lemma trim_end_pad: "trim_end (s @ replicate n 32) = trim_end s"
  by (simp add: trim_end_def strip_ws_rev_spaces)

text \<open>Bytes that never belong to a white space character.\<close>

definition graphic :: "u8 \<Rightarrow> bool" where
  "graphic b \<longleftrightarrow> 33 \<le> b \<and> b \<le> 126"

lemma graphic_not_ws:
  assumes "graphic a"
  shows "\<not> ((9 \<le> a \<and> a \<le> 13) \<or> a = 32)" and "a < 127"
proof -
  have "33 \<le> unat a" and "unat a \<le> 126"
    using assms by (simp_all add: graphic_def word_le_nat_alt)
  then show "\<not> ((9 \<le> a \<and> a \<le> 13) \<or> a = 32)" and "a < 127"
    by (auto simp: word_le_nat_alt word_less_nat_alt)
qed

lemma strip_ws_rev_graphic: "graphic a \<Longrightarrow> strip_ws_rev (a # bs) = a # bs"
proof -
  assume g: "graphic a"
  from graphic_not_ws(2) [OF g] have "\<not> 127 \<le> a" by simp
  then have n: "a \<noteq> 133" "a \<noteq> 160" "a \<noteq> 128" "a \<noteq> 168" "a \<noteq> 169" "a \<noteq> 175" "a \<noteq> 159" "\<not> 128 \<le> a"
    by auto (simp add: word_le_nat_alt)
  show ?thesis
    unfolding strip_ws_rev.simps(2) if_not_P [OF graphic_not_ws(1) [OF g]]
    using n by (simp split: list.split)
qed

lemma trim_end_graphic:
  assumes "s = [] \<or> graphic (last s)"
  shows "trim_end s = s"
proof (cases s rule: rev_cases)
  case (snoc t a)
  with assms have "graphic a" by simp
  with snoc show ?thesis
    by (simp add: trim_end_def strip_ws_rev_graphic)
qed (simp add: trim_end_def)

lemma utf8_valid_ascii: "\<forall>b \<in> set bs. b < 0x80 \<Longrightarrow> utf8_valid bs"
  by (induction bs) (auto simp: utf8_valid.simps(2))

end
