(* ===== verification/Fat.thy ===== *)
theory Fat
  imports Disk Rust_Str
begin

text \<open>
  The FAT32 file system, \<open>src/fs/fat.rs\<close>: every operation of \<open>Fat32\<close> over the sectors of
  \<open>Disk\<close>. Operations that only read take the disk; operations that write return the disk they
  leave behind, also when they fail half way. \<open>u32\<close> arithmetic wraps, as in a release build; the
  lemmas of the theories above state the geometry under which it does not.
\<close>

section \<open>Constants and data\<close>

definition FAT_ENTRIES_PER_SECTOR :: u32 where
  "FAT_ENTRIES_PER_SECTOR = 128"

definition FAT32_ENTRY_MASK :: u32 where
  "FAT32_ENTRY_MASK = 0x0FFFFFFF"

definition FAT32_EOC :: u32 where
  "FAT32_EOC = 0x0FFFFFFF"

definition FIRST_DATA_CLUSTER :: u32 where
  "FIRST_DATA_CLUSTER = 2"

definition DIR_ENTRY_SIZE :: nat where
  "DIR_ENTRY_SIZE = 32"

definition ATTR_LONG_NAME :: u8 where
  "ATTR_LONG_NAME = 0x0F"

definition ATTR_VOLUME_ID :: u8 where
  "ATTR_VOLUME_ID = 0x08"

definition ATTR_DIRECTORY :: u8 where
  "ATTR_DIRECTORY = 0x10"

definition ATTR_ARCHIVE :: u8 where
  "ATTR_ARCHIVE = 0x20"

datatype FatError =
    Block BlkError
  | UnsupportedSectorSize
  | NotFat32
  | NotFound
  | NoSpace
  | DirFull
  | NotADirectory
  | IsADirectory
  | AlreadyExists
  | NotEmpty

record Fat32 =
  sectors_per_cluster :: u32
  fat_start_sector :: u32
  data_start_sector :: u32
  root_cluster :: u32
  cluster_count :: u32
  num_fats :: u32
  fat_size :: u32

record DirEntry =
  de_first_cluster :: u32
  de_size :: u32
  de_is_dir :: bool

record DirItem =
  item_name :: bytes
  item_is_dir :: bool

record Metadata =
  meta_is_dir :: bool
  meta_size :: u32
  meta_first_cluster :: u32

datatype Node = FileNode bytes | DirNode "DirItem list"

text \<open>\<open>impl From<BlkError> for FatError\<close>, as the \<open>?\<close> operator applies it.\<close>

definition lift_blk :: "BlkError + 'a \<Rightarrow> FatError + 'a" where
  "lift_blk r = (case r of Inl e \<Rightarrow> Inl (Block e) | Inr x \<Rightarrow> Inr x)"

definition rd :: "u32 \<Rightarrow> disk \<Rightarrow> FatError + bytes" where
  "rd sector d = lift_blk (read_sector (ucast sector) d)"

definition wr :: "u32 \<Rightarrow> bytes \<Rightarrow> (disk, FatError, unit) eff" where
  "wr sector buf d = (case write_sector (ucast sector) buf d of (r, d') \<Rightarrow> (lift_blk r, d'))"

section \<open>Names and little-endian fields\<close>

definition name_83_to_string :: "bytes \<Rightarrow> bytes" where
  "name_83_to_string entry =
     (let base = trim_end (from_utf8_or_empty (take 8 entry));
          ext = trim_end (from_utf8_or_empty (drop 8 entry))
      in if ext = [] then base else base @ ch CHR ''.'' # ext)"

definition read_u16 :: "bytes \<Rightarrow> nat \<Rightarrow> u16" where
  "read_u16 buf off = from_le (slice off 2 buf)"

definition read_u32 :: "bytes \<Rightarrow> nat \<Rightarrow> u32" where
  "read_u32 buf off = from_le (slice off 4 buf)"

definition short_name_83 :: "bytes \<Rightarrow> bytes" where
  "short_name_83 name =
     (let out = replicate 11 (ch CHR '' '');
          base = fst (splitn2 (ch CHR ''.'') name);
          ext = (case snd (splitn2 (ch CHR ''.'') name) of None \<Rightarrow> [] | Some e \<Rightarrow> e);
          out = put_at 0 (map to_ascii_uppercase (take 8 base)) out
      in put_at 8 (map to_ascii_uppercase (take 3 ext)) out)"

section \<open>Mounting and geometry\<close>

definition Fat32_mount :: "disk \<Rightarrow> FatError + Fat32" where
  "Fat32_mount d =
     rbind (rd 0 d) (\<lambda>boot.
       let bytes_per_sector = read_u16 boot 11 in
       if unat bytes_per_sector \<noteq> SECTOR_SIZE then Inl UnsupportedSectorSize
       else
         let spc = ucast (boot ! 13) :: u32;
             reserved_sectors = ucast (read_u16 boot 14) :: u32;
             nfats = ucast (boot ! 16) :: u32;
             root_entry_count = read_u16 boot 17;
             fat_size_16 = read_u16 boot 22;
             total_sectors = read_u32 boot 32;
             fat_size_32 = read_u32 boot 36;
             root = read_u32 boot 44
         in if root_entry_count \<noteq> 0 \<or> fat_size_16 \<noteq> 0 \<or> fat_size_32 = 0 \<or> spc = 0 \<or> nfats = 0
            then Inl NotFat32
            else
              let dstart = reserved_sectors + nfats * fat_size_32;
                  ccount = (if dstart \<le> total_sectors then total_sectors - dstart else 0) div spc
              in Inr \<lparr>sectors_per_cluster = spc, fat_start_sector = reserved_sectors,
                      data_start_sector = dstart, root_cluster = root, cluster_count = ccount,
                      num_fats = nfats, fat_size = fat_size_32\<rparr>)"

definition valid_cluster :: "Fat32 \<Rightarrow> u32 \<Rightarrow> bool" where
  "valid_cluster v cluster \<longleftrightarrow>
     FIRST_DATA_CLUSTER \<le> cluster \<and> cluster < FIRST_DATA_CLUSTER + cluster_count v"

definition first_sector_of_cluster :: "Fat32 \<Rightarrow> u32 \<Rightarrow> u32" where
  "first_sector_of_cluster v cluster =
     data_start_sector v + (cluster - FIRST_DATA_CLUSTER) * sectors_per_cluster v"

text \<open>\<open>first + s\<close> for \<open>s in 0..self.sectors_per_cluster\<close>.\<close>

definition cluster_sectors :: "Fat32 \<Rightarrow> u32 \<Rightarrow> u32 list" where
  "cluster_sectors v cluster =
     map (\<lambda>s. first_sector_of_cluster v cluster + of_nat s) [0..<unat (sectors_per_cluster v)]"

definition next_cluster :: "Fat32 \<Rightarrow> disk \<Rightarrow> u32 \<Rightarrow> FatError + u32" where
  "next_cluster v d cluster =
     (let fat_offset = cluster * 4;
          sector = fat_start_sector v + fat_offset div of_nat SECTOR_SIZE;
          offset = unat (fat_offset mod of_nat SECTOR_SIZE)
      in rbind (rd sector d) (\<lambda>buf. Inr (read_u32 buf offset AND FAT32_ENTRY_MASK)))"

section \<open>Walking a directory\<close>

text \<open>
  The four directory walks of the source are the same three nested loops (clusters of the chain,
  bounded by \<open>steps_left\<close>; sectors of the cluster; 32-byte entries of the sector) around a
  different body. The body gets the accumulator, the sector, the offset of the entry and the
  entry, and says whether the walk goes on or returns.
\<close>

datatype ('a, 'r) flow = Continue 'a | Return 'r

type_synonym ('a, 'r) walk_body = "'a \<Rightarrow> u32 \<Rightarrow> nat \<Rightarrow> bytes \<Rightarrow> ('a, 'r) flow"

fun walk_entries :: "('a, 'r) walk_body \<Rightarrow> u32 \<Rightarrow> nat \<Rightarrow> bytes list \<Rightarrow> 'a \<Rightarrow> ('a, 'r) flow" where
  "walk_entries body sector offset [] acc = Continue acc"
| "walk_entries body sector offset (entry # es) acc =
     (case body acc sector offset entry of
        Return r \<Rightarrow> Return r
      | Continue acc' \<Rightarrow> walk_entries body sector (offset + DIR_ENTRY_SIZE) es acc')"

fun walk_sectors ::
  "('a, 'r) walk_body \<Rightarrow> disk \<Rightarrow> u32 list \<Rightarrow> 'a \<Rightarrow> FatError + ('a, 'r) flow" where
  "walk_sectors body d [] acc = Inr (Continue acc)"
| "walk_sectors body d (sector # ss) acc =
     rbind (rd sector d) (\<lambda>buf.
       case walk_entries body sector 0 (chunks_exact DIR_ENTRY_SIZE buf) acc of
         Return r \<Rightarrow> Inr (Return r)
       | Continue acc' \<Rightarrow> walk_sectors body d ss acc')"

fun walk_clusters ::
  "('a, 'r) walk_body \<Rightarrow> Fat32 \<Rightarrow> disk \<Rightarrow> nat \<Rightarrow> u32 \<Rightarrow> 'a \<Rightarrow> FatError + ('a, 'r) flow" where
  "walk_clusters body v d 0 cluster acc = Inr (Continue acc)"
| "walk_clusters body v d (Suc steps_left) cluster acc =
     (if valid_cluster v cluster then
        rbind (walk_sectors body d (cluster_sectors v cluster) acc) (\<lambda>r.
          case r of
            Return x \<Rightarrow> Inr (Return x)
          | Continue acc' \<Rightarrow>
              rbind (next_cluster v d cluster) (\<lambda>c. walk_clusters body v d steps_left c acc'))
      else Inr (Continue acc))"

definition skipped_attr :: "u8 \<Rightarrow> bool" where
  "skipped_attr attr \<longleftrightarrow>
     attr AND ATTR_LONG_NAME = ATTR_LONG_NAME \<or> attr AND ATTR_VOLUME_ID \<noteq> 0"

definition entry_cluster :: "bytes \<Rightarrow> u32" where
  "entry_cluster entry =
     (let hi = ucast (read_u16 entry 20); lo = ucast (read_u16 entry 26)
      in push_bit 16 hi OR lo)"

definition decode_entry :: "bytes \<Rightarrow> DirEntry" where
  "decode_entry entry =
     \<lparr>de_first_cluster = entry_cluster entry, de_size = read_u32 entry 28,
      de_is_dir = (entry ! 11 AND ATTR_DIRECTORY \<noteq> 0)\<rparr>"

definition find_body :: "bytes \<Rightarrow> (unit, DirEntry option) walk_body" where
  "find_body target acc sector offset entry =
     (if entry ! 0 = 0x00 then Return None
      else if entry ! 0 = 0xE5 then Continue acc
      else if skipped_attr (entry ! 11) then Continue acc
      else if take 11 entry = target then Return (Some (decode_entry entry))
      else Continue acc)"

definition find_in_dir :: "Fat32 \<Rightarrow> disk \<Rightarrow> u32 \<Rightarrow> bytes \<Rightarrow> FatError + DirEntry option" where
  "find_in_dir v d start_cluster name =
     rbind (walk_clusters (find_body (short_name_83 name)) v d (unat (cluster_count v)) start_cluster ())
       (\<lambda>r. Inr (case r of Return x \<Rightarrow> x | Continue _ \<Rightarrow> None))"

section \<open>Paths\<close>

definition path_components :: "bytes \<Rightarrow> bytes list" where
  "path_components path =
     filter (\<lambda>c. c \<noteq> []) (split_on (ch CHR ''/'') (trim_matches (ch CHR ''/'') path))"

fun resolve_loop :: "Fat32 \<Rightarrow> disk \<Rightarrow> u32 \<Rightarrow> bytes list \<Rightarrow> FatError + (u32 \<times> bytes)" where
  "resolve_loop v d cluster [] = Inr (cluster, [])"
| "resolve_loop v d cluster [cmp] = Inr (cluster, cmp)"
| "resolve_loop v d cluster (cmp # rest) =
     rbind (find_in_dir v d cluster cmp) (\<lambda>found.
     rbind (ok_or found NotFound) (\<lambda>entry.
       if \<not> de_is_dir entry then Inl NotADirectory
       else resolve_loop v d (de_first_cluster entry) rest))"

definition resolve_parent :: "Fat32 \<Rightarrow> disk \<Rightarrow> bytes \<Rightarrow> FatError + (u32 \<times> bytes)" where
  "resolve_parent v d path =
     rbind (resolve_loop v d (root_cluster v) (path_components path)) (\<lambda>(cluster, name).
       if name = [] then Inl NotFound else Inr (cluster, name))"

section \<open>Reading\<close>

text \<open>The sectors of one cluster: stops reading when nothing remains.\<close>

fun read_sectors :: "disk \<Rightarrow> u32 list \<Rightarrow> nat \<Rightarrow> bytes \<Rightarrow> FatError + (nat \<times> bytes)" where
  "read_sectors d [] remaining data = Inr (remaining, data)"
| "read_sectors d (sector # ss) remaining data =
     (if remaining = 0 then Inr (remaining, data)
      else rbind (rd sector d) (\<lambda>buf.
        let n = min remaining SECTOR_SIZE
        in read_sectors d ss (remaining - n) (data @ take n buf)))"

lemma read_sectors_progress:
  "read_sectors d ss remaining data = Inr (r, x) \<Longrightarrow> r \<le> remaining \<and> (0 < remaining \<longrightarrow> ss \<noteq> [] \<longrightarrow> r < remaining)"
proof (induction d ss remaining data rule: read_sectors.induct)
  case (2 d sector ss remaining data)
  then show ?case
    by (cases "remaining = 0") (fastforce simp: rbind_Inr_iff Let_def SECTOR_SIZE_def)+
qed simp

text \<open>
  \<open>while remaining > 0 && self.valid_cluster(cluster)\<close>. Each round reads at least one sector
  because a mounted volume has at least one sector per cluster (lemma \<open>mount_spc\<close>); the last
  conjunct of the guard says so, since the loop has no other bound.
\<close>

function read_loop :: "Fat32 \<Rightarrow> disk \<Rightarrow> u32 \<Rightarrow> nat \<Rightarrow> bytes \<Rightarrow> FatError + bytes" where
  "read_loop v d cluster remaining data =
     (if 0 < remaining \<and> valid_cluster v cluster \<and> sectors_per_cluster v \<noteq> 0 then
        (case read_sectors d (cluster_sectors v cluster) remaining data of
           Inl e \<Rightarrow> Inl e
         | Inr (remaining', data') \<Rightarrow>
             (case next_cluster v d cluster of
                Inl e \<Rightarrow> Inl e
              | Inr c \<Rightarrow> read_loop v d c remaining' data'))
      else Inr data)"
  by pat_completeness auto
termination
proof (relation "measure (\<lambda>(v, d, c, r, x). r)")
  show "wf (measure (\<lambda>(v, d, c, r, x). r))" by simp
next
  fix v :: Fat32 and d cluster remaining data p c and remaining' :: nat and data' :: bytes
  assume "0 < remaining \<and> valid_cluster v cluster \<and> sectors_per_cluster v \<noteq> 0"
    and "read_sectors d (cluster_sectors v cluster) remaining data = Inr p"
    and "(remaining', data') = p"
  then show "((v, d, c, remaining', data'), v, d, cluster, remaining, data)
      \<in> measure (\<lambda>(v, d, c, r, x). r)"
    using read_sectors_progress [of d "cluster_sectors v cluster" remaining data remaining' data']
    by (auto simp: cluster_sectors_def unat_eq_zero)
qed

declare read_loop.simps [simp del]

definition read_entry :: "Fat32 \<Rightarrow> disk \<Rightarrow> DirEntry \<Rightarrow> FatError + bytes" where
  "read_entry v d entry = read_loop v d (de_first_cluster entry) (unat (de_size entry)) []"

definition Fat32_read_file :: "Fat32 \<Rightarrow> disk \<Rightarrow> bytes \<Rightarrow> FatError + bytes" where
  "Fat32_read_file v d path =
     rbind (resolve_parent v d path) (\<lambda>(dir_cluster, name).
     rbind (find_in_dir v d dir_cluster name) (\<lambda>found.
     rbind (ok_or found NotFound) (\<lambda>entry.
       if de_is_dir entry then Inl IsADirectory else read_entry v d entry)))"

definition list_body :: "(DirItem list, DirItem list) walk_body" where
  "list_body items sector offset entry =
     (if entry ! 0 = 0x00 then Return items
      else if entry ! 0 = 0xE5 then Continue items
      else if skipped_attr (entry ! 11) then Continue items
      else Continue (items @ [\<lparr>item_name = name_83_to_string (take 11 entry),
                               item_is_dir = (entry ! 11 AND ATTR_DIRECTORY \<noteq> 0)\<rparr>]))"

definition list_dir :: "Fat32 \<Rightarrow> disk \<Rightarrow> u32 \<Rightarrow> FatError + DirItem list" where
  "list_dir v d dir_cluster =
     rbind (walk_clusters list_body v d (unat (cluster_count v)) dir_cluster [])
       (\<lambda>r. Inr (case r of Return items \<Rightarrow> items | Continue items \<Rightarrow> items))"

definition Fat32_lookup :: "Fat32 \<Rightarrow> disk \<Rightarrow> bytes \<Rightarrow> FatError + Node" where
  "Fat32_lookup v d path =
     (if trim_matches (ch CHR ''/'') path = [] then
        rbind (list_dir v d (root_cluster v)) (\<lambda>items. Inr (DirNode items))
      else
        rbind (resolve_parent v d path) (\<lambda>(dir_cluster, name).
        rbind (find_in_dir v d dir_cluster name) (\<lambda>found.
        rbind (ok_or found NotFound) (\<lambda>entry.
          if de_is_dir entry
          then rbind (list_dir v d (de_first_cluster entry)) (\<lambda>items. Inr (DirNode items))
          else rbind (read_entry v d entry) (\<lambda>data. Inr (FileNode data))))))"

definition Fat32_stat :: "Fat32 \<Rightarrow> disk \<Rightarrow> bytes \<Rightarrow> FatError + Metadata" where
  "Fat32_stat v d path =
     (if trim_matches (ch CHR ''/'') path = [] then
        Inr \<lparr>meta_is_dir = True, meta_size = 0, meta_first_cluster = root_cluster v\<rparr>
      else
        rbind (resolve_parent v d path) (\<lambda>(dir_cluster, name).
        rbind (find_in_dir v d dir_cluster name) (\<lambda>found.
        rbind (ok_or found NotFound) (\<lambda>entry.
          Inr \<lparr>meta_is_dir = de_is_dir entry, meta_size = de_size entry,
               meta_first_cluster = de_first_cluster entry\<rparr>))))"

section \<open>The file allocation table\<close>

fun write_fat_copies :: "Fat32 \<Rightarrow> u32 \<Rightarrow> u32 \<Rightarrow> u32 list \<Rightarrow> (disk, FatError, unit) eff" where
  "write_fat_copies v cluster value [] = ret ()"
| "write_fat_copies v cluster value (fat # fats) =
     (let fat_offset = cluster * 4;
          within = fat_offset div of_nat SECTOR_SIZE;
          offset = unat (fat_offset mod of_nat SECTOR_SIZE);
          sector = fat_start_sector v + fat * fat_size v + within
      in ebind (reads (rd sector)) (\<lambda>buf.
           let old = read_u32 buf offset;
               new = (old AND NOT FAT32_ENTRY_MASK) OR (value AND FAT32_ENTRY_MASK);
               buf' = put_at offset (le_bytes 4 new) buf
           in ebind (wr sector buf') (\<lambda>_. write_fat_copies v cluster value fats)))"

definition write_fat_entry :: "Fat32 \<Rightarrow> u32 \<Rightarrow> u32 \<Rightarrow> (disk, FatError, unit) eff" where
  "write_fat_entry v cluster value =
     write_fat_copies v cluster value (map of_nat [0..<unat (num_fats v)])"

text \<open>The inner loop of \<open>alloc_cluster\<close>: entries of one sector of the table, read once.\<close>

function alloc_scan :: "Fat32 \<Rightarrow> bytes \<Rightarrow> u32 \<Rightarrow> u32 \<Rightarrow> u32 \<Rightarrow> (u32, u32) flow" where
  "alloc_scan v buf sector end_cl cluster =
     (if cluster < end_cl \<and> cluster div FAT_ENTRIES_PER_SECTOR = sector - fat_start_sector v then
        (let off = unat (cluster mod FAT_ENTRIES_PER_SECTOR) * 4
         in if read_u32 buf off AND FAT32_ENTRY_MASK = 0 then Return cluster
            else alloc_scan v buf sector end_cl (cluster + 1))
      else Continue cluster)"
  by pat_completeness auto
termination
  by (relation "measure (\<lambda>(v, buf, sector, end_cl, cluster). unat end_cl - unat cluster)")
     (auto simp: word_less_nat_alt unat_inc)

declare alloc_scan.simps [simp del]

lemma alloc_scan_le:
  "alloc_scan v buf sector end_cl cluster = Continue c \<Longrightarrow> cluster \<le> end_cl \<Longrightarrow> cluster \<le> c \<and> c \<le> end_cl"
proof (induction v buf sector end_cl cluster rule: alloc_scan.induct)
  case (1 v buf sector end_cl cluster)
  show ?case
  proof (cases "cluster < end_cl \<and> cluster div FAT_ENTRIES_PER_SECTOR = sector - fat_start_sector v")
    case True
    then have "cluster + 1 \<le> end_cl" and "cluster \<le> cluster + 1"
      using word_inc_less [of cluster end_cl] by auto
    with True 1 show ?thesis
      by (subst (asm) (2) alloc_scan.simps) (auto simp: Let_def split: if_splits)
  next
    case False
    with 1 show ?thesis by (subst (asm) (2) alloc_scan.simps) auto
  qed
qed

lemma alloc_scan_progress:
  assumes "alloc_scan v buf (fat_start_sector v + cluster div FAT_ENTRIES_PER_SECTOR) end_cl cluster = Continue c"
    and "cluster < end_cl"
  shows "cluster < c \<and> c \<le> end_cl"
proof -
  have s: "cluster + 1 \<le> end_cl" and lt: "cluster < cluster + 1"
    using word_inc_less [OF assms(2)] by auto
  have "alloc_scan v buf (fat_start_sector v + cluster div FAT_ENTRIES_PER_SECTOR) end_cl (cluster + 1) = Continue c"
    using assms by (subst (asm) alloc_scan.simps) (auto simp: Let_def split: if_splits)
  from alloc_scan_le [OF this s] lt show ?thesis by auto
qed

function alloc_loop :: "Fat32 \<Rightarrow> u32 \<Rightarrow> u32 \<Rightarrow> (disk, FatError, u32) eff" where
  "alloc_loop v end_cl cluster d =
     (if cluster < end_cl then
        (let sector = fat_start_sector v + cluster div FAT_ENTRIES_PER_SECTOR
         in case rd sector d of
              Inl e \<Rightarrow> (Inl e, d)
            | Inr buf \<Rightarrow>
                (case alloc_scan v buf sector end_cl cluster of
                   Return c \<Rightarrow> ebind (write_fat_entry v c FAT32_EOC) (\<lambda>_. ret c) d
                 | Continue c \<Rightarrow> alloc_loop v end_cl c d))
      else (Inl NoSpace, d))"
  by pat_completeness auto
termination
  by (relation "measure (\<lambda>(v, end_cl, cluster, d). unat end_cl - unat cluster)")
     (auto simp: word_less_nat_alt dest!: alloc_scan_progress)

declare alloc_loop.simps [simp del]

definition alloc_cluster :: "Fat32 \<Rightarrow> (disk, FatError, u32) eff" where
  "alloc_cluster v = alloc_loop v (FIRST_DATA_CLUSTER + cluster_count v) FIRST_DATA_CLUSTER"

fun free_loop :: "Fat32 \<Rightarrow> nat \<Rightarrow> u32 \<Rightarrow> (disk, FatError, unit) eff" where
  "free_loop v 0 cluster = ret ()"
| "free_loop v (Suc steps_left) cluster =
     (if valid_cluster v cluster then
        ebind (reads (\<lambda>d. next_cluster v d cluster)) (\<lambda>nxt.
        ebind (write_fat_entry v cluster 0) (\<lambda>_.
          free_loop v steps_left nxt))
      else ret ())"

definition free_chain :: "Fat32 \<Rightarrow> u32 \<Rightarrow> (disk, FatError, unit) eff" where
  "free_chain v first = free_loop v (unat (cluster_count v)) first"

fun alloc_chain_loop :: "Fat32 \<Rightarrow> nat \<Rightarrow> u32 \<Rightarrow> u32 \<Rightarrow> (disk, FatError, u32) eff" where
  "alloc_chain_loop v 0 first prev = ret first"
| "alloc_chain_loop v (Suc n) first prev =
     ebind (on_error (alloc_cluster v) (if first \<noteq> 0 then free_chain v first else ret ())) (\<lambda>c.
       if first = 0 then alloc_chain_loop v n c c
       else ebind (write_fat_entry v prev c) (\<lambda>_. alloc_chain_loop v n first c))"

definition alloc_chain :: "Fat32 \<Rightarrow> u32 \<Rightarrow> (disk, FatError, u32) eff" where
  "alloc_chain v n = alloc_chain_loop v (unat n) 0 0"

section \<open>Writing\<close>

fun write_sectors :: "u32 list \<Rightarrow> bytes \<Rightarrow> nat \<Rightarrow> (disk, FatError, nat) eff" where
  "write_sectors [] data written = ret written"
| "write_sectors (sector # ss) data written =
     (if length data \<le> written then ret written
      else
        let n = min (length data - written) SECTOR_SIZE;
            buf = put_at 0 (slice written n data) (replicate SECTOR_SIZE 0)
        in ebind (wr sector buf) (\<lambda>_. write_sectors ss data (written + n)))"

fun write_loop :: "Fat32 \<Rightarrow> bytes \<Rightarrow> nat \<Rightarrow> u32 \<Rightarrow> nat \<Rightarrow> (disk, FatError, unit) eff" where
  "write_loop v data 0 cluster written = ret ()"
| "write_loop v data (Suc steps_left) cluster written =
     (if written < length data \<and> valid_cluster v cluster then
        ebind (write_sectors (cluster_sectors v cluster) data written) (\<lambda>written'.
        ebind (reads (\<lambda>d. next_cluster v d cluster)) (\<lambda>c.
          write_loop v data steps_left c written'))
      else ret ())"

definition write_chain :: "Fat32 \<Rightarrow> u32 \<Rightarrow> bytes \<Rightarrow> (disk, FatError, unit) eff" where
  "write_chain v first data = write_loop v data (unat (cluster_count v)) first 0"

text \<open>Slot search: the accumulator is \<open>first_free\<close>.\<close>

definition slot_body ::
  "bytes \<Rightarrow> ((u32 \<times> nat) option, u32 \<times> nat \<times> u32 option) walk_body" where
  "slot_body target first_free sector offset entry =
     (if entry ! 0 = 0x00 then
        (case first_free of
           Some (sec, off) \<Rightarrow> Return (sec, off, None)
         | None \<Rightarrow> Return (sector, offset, None))
      else if entry ! 0 = 0xE5 then
        Continue (if first_free = None then Some (sector, offset) else first_free)
      else if skipped_attr (entry ! 11) then Continue first_free
      else if take 11 entry = target then Return (sector, offset, Some (entry_cluster entry))
      else Continue first_free)"

definition locate_or_free_slot ::
  "Fat32 \<Rightarrow> disk \<Rightarrow> u32 \<Rightarrow> bytes \<Rightarrow> FatError + (u32 \<times> nat \<times> u32 option)" where
  "locate_or_free_slot v d dir_cluster target =
     rbind (walk_clusters (slot_body target) v d (unat (cluster_count v)) dir_cluster None) (\<lambda>r.
       case r of
         Return x \<Rightarrow> Inr x
       | Continue first_free \<Rightarrow>
           (case first_free of
              Some (sector, offset) \<Rightarrow> Inr (sector, offset, None)
            | None \<Rightarrow> Inl DirFull))"

definition fill_dir_entry :: "bytes \<Rightarrow> bytes \<Rightarrow> u8 \<Rightarrow> u32 \<Rightarrow> u32 \<Rightarrow> bytes" where
  "fill_dir_entry entry name attr first_cluster sz =
     (let e = put_at 0 name entry;
          e = e[11 := attr];
          e = put_at 12 (replicate 8 0) e;
          e = put_at 20 (le_bytes 2 (ucast (drop_bit 16 first_cluster) :: u16)) e;
          e = put_at 22 (replicate 4 0) e;
          e = put_at 26 (le_bytes 2 (ucast (first_cluster AND 0xFFFF) :: u16)) e
      in put_at 28 (le_bytes 4 sz) e)"

definition write_dir_entry ::
  "u32 \<Rightarrow> nat \<Rightarrow> bytes \<Rightarrow> u8 \<Rightarrow> u32 \<Rightarrow> u32 \<Rightarrow> (disk, FatError, unit) eff" where
  "write_dir_entry sector offset name attr first_cluster sz =
     ebind (reads (rd sector)) (\<lambda>buf.
       wr sector (put_at offset
         (fill_dir_entry (slice offset DIR_ENTRY_SIZE buf) name attr first_cluster sz) buf))"

definition div_ceil :: "nat \<Rightarrow> nat \<Rightarrow> nat" where
  "div_ceil a b = a div b + (if a mod b = 0 then 0 else 1)"

definition Fat32_write_file :: "Fat32 \<Rightarrow> bytes \<Rightarrow> bytes \<Rightarrow> (disk, FatError, unit) eff" where
  "Fat32_write_file v path data =
     ebind (reads (\<lambda>d. resolve_parent v d path)) (\<lambda>(dir_cluster, name).
       let target = short_name_83 name in
       ebind (reads (\<lambda>d. locate_or_free_slot v d dir_cluster target))
        (\<lambda>(slot_sector, slot_offset, old_first).
         let cluster_bytes = unat (sectors_per_cluster v) * SECTOR_SIZE in
         ebind (if data = [] then ret 0
                else ebind (alloc_chain v (of_nat (div_ceil (length data) cluster_bytes)))
                  (\<lambda>first. ebind (on_error (write_chain v first data) (free_chain v first))
                    (\<lambda>_. ret first)))
          (\<lambda>new_first.
         ebind (on_error
                 (write_dir_entry slot_sector slot_offset target ATTR_ARCHIVE new_first
                    (of_nat (length data)))
                 (if new_first \<noteq> 0 then free_chain v new_first else ret ())) (\<lambda>_.
         (case old_first of
            Some first \<Rightarrow>
              if valid_cluster v first then ignoring (free_chain v first) else ret ()
          | None \<Rightarrow> ret ())))))"

section \<open>Directories\<close>

fun zero_sectors :: "u32 list \<Rightarrow> (disk, FatError, unit) eff" where
  "zero_sectors [] = ret ()"
| "zero_sectors (sector # ss) =
     ebind (wr sector (replicate SECTOR_SIZE 0)) (\<lambda>_. zero_sectors ss)"

definition init_dir_cluster :: "Fat32 \<Rightarrow> u32 \<Rightarrow> u32 \<Rightarrow> (disk, FatError, unit) eff" where
  "init_dir_cluster v cluster parent =
     (let first_sec = first_sector_of_cluster v cluster;
          buf = replicate SECTOR_SIZE 0;
          buf = put_at 0 (fill_dir_entry (slice 0 DIR_ENTRY_SIZE buf) (str ''.          '')
                  ATTR_DIRECTORY cluster 0) buf;
          dotdot = (if parent = root_cluster v then 0 else parent);
          buf = put_at DIR_ENTRY_SIZE (fill_dir_entry (slice DIR_ENTRY_SIZE DIR_ENTRY_SIZE buf)
                  (str ''..         '') ATTR_DIRECTORY dotdot 0) buf
      in ebind (wr first_sec buf) (\<lambda>_. zero_sectors (tl (cluster_sectors v cluster))))"

definition Fat32_mkdir :: "Fat32 \<Rightarrow> bytes \<Rightarrow> (disk, FatError, unit) eff" where
  "Fat32_mkdir v path =
     ebind (reads (\<lambda>d. resolve_parent v d path)) (\<lambda>(parent_cluster, name).
       let target = short_name_83 name in
       ebind (reads (\<lambda>d. locate_or_free_slot v d parent_cluster target))
        (\<lambda>(slot_sector, slot_offset, existing).
         if existing \<noteq> None then fail AlreadyExists
         else
           ebind (alloc_cluster v) (\<lambda>new_cluster.
           ebind (on_error (init_dir_cluster v new_cluster parent_cluster)
                   (free_chain v new_cluster)) (\<lambda>_.
             on_error (write_dir_entry slot_sector slot_offset target ATTR_DIRECTORY new_cluster 0)
               (free_chain v new_cluster)))))"

definition locate_body :: "bytes \<Rightarrow> (unit, (u32 \<times> nat \<times> DirEntry) option) walk_body" where
  "locate_body target acc sector offset entry =
     (if entry ! 0 = 0x00 then Return None
      else if entry ! 0 = 0xE5 then Continue acc
      else if skipped_attr (entry ! 11) then Continue acc
      else if take 11 entry = target then Return (Some (sector, offset, decode_entry entry))
      else Continue acc)"

definition locate_entry ::
  "Fat32 \<Rightarrow> disk \<Rightarrow> u32 \<Rightarrow> bytes \<Rightarrow> FatError + (u32 \<times> nat \<times> DirEntry) option" where
  "locate_entry v d dir_cluster name =
     rbind (walk_clusters (locate_body (short_name_83 name)) v d (unat (cluster_count v)) dir_cluster ())
       (\<lambda>r. Inr (case r of Return x \<Rightarrow> x | Continue _ \<Rightarrow> None))"

definition clear_dir_entry :: "u32 \<Rightarrow> nat \<Rightarrow> (disk, FatError, unit) eff" where
  "clear_dir_entry sector offset =
     ebind (reads (rd sector)) (\<lambda>buf. wr sector (buf[offset := 0xE5]))"

definition dir_is_empty :: "Fat32 \<Rightarrow> disk \<Rightarrow> u32 \<Rightarrow> FatError + bool" where
  "dir_is_empty v d dir_cluster =
     rbind (list_dir v d dir_cluster) (\<lambda>items.
       Inr (list_all (\<lambda>it. item_name it = str ''.'' \<or> item_name it = str ''..'') items))"

definition Fat32_unlink :: "Fat32 \<Rightarrow> bytes \<Rightarrow> (disk, FatError, unit) eff" where
  "Fat32_unlink v path =
     ebind (reads (\<lambda>d. resolve_parent v d path)) (\<lambda>(dir_cluster, name).
     ebind (reads (\<lambda>d. rbind (locate_entry v d dir_cluster name) (\<lambda>r. ok_or r NotFound)))
      (\<lambda>(sector, offset, de).
       if de_is_dir de then fail IsADirectory
       else ebind (clear_dir_entry sector offset) (\<lambda>_.
         if de_first_cluster de \<noteq> 0 then free_chain v (de_first_cluster de) else ret ())))"

definition Fat32_rmdir :: "Fat32 \<Rightarrow> bytes \<Rightarrow> (disk, FatError, unit) eff" where
  "Fat32_rmdir v path =
     ebind (reads (\<lambda>d. resolve_parent v d path)) (\<lambda>(dir_cluster, name).
     ebind (reads (\<lambda>d. rbind (locate_entry v d dir_cluster name) (\<lambda>r. ok_or r NotFound)))
      (\<lambda>(sector, offset, de).
       if \<not> de_is_dir de then fail NotADirectory
       else ebind (reads (\<lambda>d. dir_is_empty v d (de_first_cluster de))) (\<lambda>is_empty.
         if \<not> is_empty then fail NotEmpty
         else ebind (clear_dir_entry sector offset) (\<lambda>_. free_chain v (de_first_cluster de)))))"

section \<open>The facade \<open>src/fs/mod.rs\<close>: mount, then the operation\<close>

definition fs_open :: "disk \<Rightarrow> bytes \<Rightarrow> FatError + bytes" where
  "fs_open d path = rbind (Fat32_mount d) (\<lambda>volume. Fat32_read_file volume d path)"

definition fs_lookup :: "disk \<Rightarrow> bytes \<Rightarrow> FatError + Node" where
  "fs_lookup d path = rbind (Fat32_mount d) (\<lambda>volume. Fat32_lookup volume d path)"

definition fs_write_file :: "bytes \<Rightarrow> bytes \<Rightarrow> (disk, FatError, unit) eff" where
  "fs_write_file path data =
     ebind (reads Fat32_mount) (\<lambda>volume. Fat32_write_file volume path data)"

definition fs_mkdir :: "bytes \<Rightarrow> (disk, FatError, unit) eff" where
  "fs_mkdir path = ebind (reads Fat32_mount) (\<lambda>volume. Fat32_mkdir volume path)"

definition fs_unlink :: "bytes \<Rightarrow> (disk, FatError, unit) eff" where
  "fs_unlink path = ebind (reads Fat32_mount) (\<lambda>volume. Fat32_unlink volume path)"

definition fs_rmdir :: "bytes \<Rightarrow> (disk, FatError, unit) eff" where
  "fs_rmdir path = ebind (reads Fat32_mount) (\<lambda>volume. Fat32_rmdir volume path)"

definition fs_stat :: "disk \<Rightarrow> bytes \<Rightarrow> FatError + Metadata" where
  "fs_stat d path = rbind (Fat32_mount d) (\<lambda>volume. Fat32_stat volume d path)"

end
