(* ===== verification/Fat_Table.thy ===== *)
theory Fat_Table
  imports Fat
begin

text \<open>
  The file allocation table as a table of links: under the geometry a formatted volume has
  (\<open>vol_ok\<close>), \<open>write_fat_entry\<close> and \<open>next_cluster\<close> implement a keyed store from clusters to
  28-bit values, mirrored in every copy of the table, and no data sector is a sector of the
  table. On top of it: chains, the allocator, freeing.
\<close>

section \<open>Geometry\<close>

lemma mount_spc: "Fat32_mount d = Inr v \<Longrightarrow> sectors_per_cluster v \<noteq> 0"
  by (auto simp: Fat32_mount_def Let_def res_simps split: if_splits)

definition vol_ok :: "Fat32 \<Rightarrow> disk \<Rightarrow> bool" where
  "vol_ok v d \<longleftrightarrow>
     sectors_per_cluster v \<noteq> 0 \<and> num_fats v \<noteq> 0 \<and>
     unat (data_start_sector v) =
       unat (fat_start_sector v) + unat (num_fats v) * unat (fat_size v) \<and>
     unat (data_start_sector v) + unat (cluster_count v) * unat (sectors_per_cluster v) < 2 ^ 32 \<and>
     unat (data_start_sector v) + unat (cluster_count v) * unat (sectors_per_cluster v)
       \<le> unat (capacity_sectors d) \<and>
     4 * (unat (cluster_count v) + 2) \<le> 512 * unat (fat_size v) \<and>
     unat (cluster_count v) + 2 \<le> 0x0FFFFFF8"

definition fs_ok :: "Fat32 \<Rightarrow> disk \<Rightarrow> bool" where
  "fs_ok v d \<longleftrightarrow> vol_ok v d \<and> sectors_ok d \<and> fault_free d"

text \<open>Sector and offset of a cluster's entry in copy \<open>fat\<close> of the table.\<close>

definition fat_sec :: "Fat32 \<Rightarrow> u32 \<Rightarrow> u32 \<Rightarrow> u32" where
  "fat_sec v fat c = fat_start_sector v + fat * fat_size v + c * 4 div of_nat SECTOR_SIZE"

definition fat_off :: "u32 \<Rightarrow> nat" where
  "fat_off c = unat (c * 4 mod of_nat SECTOR_SIZE)"

definition fat_get :: "Fat32 \<Rightarrow> disk \<Rightarrow> u32 \<Rightarrow> u32" where
  "fat_get v d c = read_u32 (media d (ucast (fat_sec v 0 c))) (fat_off c) AND FAT32_ENTRY_MASK"

definition fat_put :: "Fat32 \<Rightarrow> u32 \<Rightarrow> u32 \<Rightarrow> disk \<Rightarrow> disk" where
  "fat_put v c x d = snd (write_fat_entry v c x d)"

lemma valid_cluster_unat:
  "vol_ok v d \<Longrightarrow> valid_cluster v c \<longleftrightarrow> 2 \<le> unat c \<and> unat c < unat (cluster_count v) + 2"
  unfolding vol_ok_def valid_cluster_def FIRST_DATA_CLUSTER_def
  by (auto simp: word_le_nat_alt word_less_nat_alt unat_word_ariths)

lemma unat_times4: "unat c < 2 ^ 30 \<Longrightarrow> unat ((c::u32) * 4) = 4 * unat c"
  by (simp add: unat_word_ariths)

lemma valid_small: "vol_ok v d \<Longrightarrow> valid_cluster v c \<Longrightarrow> unat c < 0x0FFFFFF8"
  by (auto simp: valid_cluster_unat vol_ok_def)

lemma fat_off_unat:
  assumes "vol_ok v d" "valid_cluster v c"
  shows "fat_off c = 4 * (unat c mod 128)"
proof -
  have "unat c < 2 ^ 30" using valid_small [OF assms] by simp
  then have "unat (c * 4) = 4 * unat c" by (rule unat_times4)
  then show ?thesis
    by (simp add: fat_off_def SECTOR_SIZE_def unat_mod_distrib mult_mod_right)
qed

lemma fat_off_bound: "vol_ok v d \<Longrightarrow> valid_cluster v c \<Longrightarrow> fat_off c + 4 \<le> SECTOR_SIZE"
proof -
  assume "vol_ok v d" "valid_cluster v c"
  moreover have "unat c mod 128 < 128" by simp
  ultimately show ?thesis by (simp add: fat_off_unat SECTOR_SIZE_def)
qed

lemma fat_sec_unat:
  assumes v: "vol_ok v d" and c: "valid_cluster v c" and f: "unat f < unat (num_fats v)"
  shows "unat (fat_sec v f c) = unat (fat_start_sector v) + unat f * unat (fat_size v) + unat c div 128"
    and "unat (fat_sec v f c) < unat (data_start_sector v)"
proof -
  have c30: "unat c < 2 ^ 30" using valid_small [OF v c] by simp
  have w: "unat (c * 4 div of_nat SECTOR_SIZE) = unat c div 128"
    using unat_times4 [OF c30] by (simp add: SECTOR_SIZE_def unat_div_distrib)
  have "4 * unat c < 512 * unat (fat_size v)"
    using v c by (auto simp: valid_cluster_unat vol_ok_def)
  then have q: "unat c div 128 < unat (fat_size v)" by simp
  have "Suc (unat f) * unat (fat_size v) \<le> unat (num_fats v) * unat (fat_size v)"
    using f by (intro mult_right_mono) auto
  then have b: "unat (fat_start_sector v) + unat f * unat (fat_size v) + unat c div 128
      < unat (data_start_sector v)"
    using v q by (simp add: vol_ok_def)
  have "unat (data_start_sector v) < 2 ^ 32" using unat_u32 by simp
  with b have "unat (fat_start_sector v) + unat f * unat (fat_size v) + unat c div 128 < 2 ^ 32"
    by (rule less_trans)
  then show eq: "unat (fat_sec v f c) = unat (fat_start_sector v) + unat f * unat (fat_size v) + unat c div 128"
    by (simp add: fat_sec_def unat_word_ariths(1,2) w)
  show "unat (fat_sec v f c) < unat (data_start_sector v)" using b eq by simp
qed

lemma sec_in_range:
  "vol_ok v d \<Longrightarrow> unat s < unat (data_start_sector v) + unat (cluster_count v) * unat (sectors_per_cluster v)
   \<Longrightarrow> (ucast (s :: u32) :: u64) < capacity_sectors d"
  by (auto simp: word_less_nat_alt vol_ok_def)

section \<open>Data sectors\<close>

lemma data_sec_unat:
  assumes v: "vol_ok v d" and c: "valid_cluster v c" and s: "s < unat (sectors_per_cluster v)"
  shows "unat (first_sector_of_cluster v c + of_nat s) =
      unat (data_start_sector v) + (unat c - 2) * unat (sectors_per_cluster v) + s" (is "?a = ?n")
    and "unat (first_sector_of_cluster v c + of_nat s) <
      unat (data_start_sector v) + unat (cluster_count v) * unat (sectors_per_cluster v)"
proof -
  let ?S = "unat (sectors_per_cluster v)"
  have c2: "2 \<le> unat c" "unat c < unat (cluster_count v) + 2"
    using v c by (auto simp: valid_cluster_unat)
  have m: "unat (c - 2) = unat c - 2"
    using c2 by (simp add: unat_sub_if')
  have "Suc (unat c - 2) * ?S \<le> unat (cluster_count v) * ?S"
    using c2 by (intro mult_right_mono) auto
  then have lt: "?n < unat (data_start_sector v) + unat (cluster_count v) * ?S"
    using s by simp
  also have "\<dots> < 2 ^ 32" using v by (simp add: vol_ok_def)
  finally have n32: "?n < 2 ^ 32" .
  then have p: "(unat c - 2) * ?S < 2 ^ 32" "s < 2 ^ 32" by auto
  have "unat ((c - 2) * sectors_per_cluster v) = (unat c - 2) * ?S"
    using p m by (simp add: unat_word_ariths)
  moreover have "unat (of_nat s :: u32) = s"
    using p by (simp add: unat_of_nat)
  ultimately show eq: "?a = ?n"
    using n32 by (simp add: first_sector_of_cluster_def FIRST_DATA_CLUSTER_def unat_word_ariths mod_add_left_eq)
  show "?a < unat (data_start_sector v) + unat (cluster_count v) * ?S" using lt eq by simp
qed

lemma in_cluster_sectors:
  "x \<in> set (cluster_sectors v c) \<longleftrightarrow>
     (\<exists>s < unat (sectors_per_cluster v). x = first_sector_of_cluster v c + of_nat s)"
  by (auto simp: cluster_sectors_def)

lemma length_cluster_sectors [simp]: "length (cluster_sectors v c) = unat (sectors_per_cluster v)"
  by (simp add: cluster_sectors_def)

lemma cluster_sectors_bounds:
  assumes "vol_ok v d" "valid_cluster v c" "x \<in> set (cluster_sectors v c)"
  shows "unat (data_start_sector v) \<le> unat x"
    and "unat x < unat (data_start_sector v) + unat (cluster_count v) * unat (sectors_per_cluster v)"
    and "(unat x - unat (data_start_sector v)) div unat (sectors_per_cluster v) = unat c - 2"
proof -
  from assms(3) obtain s where s: "s < unat (sectors_per_cluster v)"
    and x: "x = first_sector_of_cluster v c + of_nat s"
    by (auto simp: in_cluster_sectors)
  note u = data_sec_unat [OF assms(1,2) s]
  show "unat (data_start_sector v) \<le> unat x" using u(1) x by simp
  show "unat x < unat (data_start_sector v) + unat (cluster_count v) * unat (sectors_per_cluster v)"
    using u(2) x by simp
  have "unat x - unat (data_start_sector v) = (unat c - 2) * unat (sectors_per_cluster v) + s"
    using u(1) x by simp
  then show "(unat x - unat (data_start_sector v)) div unat (sectors_per_cluster v) = unat c - 2"
    using s by simp
qed

lemma cluster_sectors_disjoint:
  assumes "vol_ok v d" "valid_cluster v c" "valid_cluster v c'" "c \<noteq> c'"
  shows "set (cluster_sectors v c) \<inter> set (cluster_sectors v c') = {}"
proof -
  { fix x assume "x \<in> set (cluster_sectors v c)" "x \<in> set (cluster_sectors v c')"
    then have "unat c - 2 = unat c' - 2"
      using cluster_sectors_bounds(3) [OF assms(1)] assms(2,3) by metis
    moreover have "2 \<le> unat c" "2 \<le> unat c'"
      using assms(1-3) by (auto simp: valid_cluster_unat)
    ultimately have "unat c = unat c'" by arith
    with assms(4) have False by (simp add: word_unat_eq_iff) }
  then show ?thesis by auto
qed

lemma distinct_cluster_sectors:
  assumes "vol_ok v d" "valid_cluster v c"
  shows "distinct (cluster_sectors v c)"
proof -
  have "inj_on (\<lambda>s. first_sector_of_cluster v c + of_nat s) {0..<unat (sectors_per_cluster v)}"
  proof (rule inj_onI)
    fix s t
    assume s: "s \<in> {0..<unat (sectors_per_cluster v)}" and t: "t \<in> {0..<unat (sectors_per_cluster v)}"
      and "first_sector_of_cluster v c + of_nat s = first_sector_of_cluster v c + (of_nat t :: u32)"
    then have "unat (first_sector_of_cluster v c + of_nat s) = unat (first_sector_of_cluster v c + (of_nat t :: u32))"
      by simp
    with s t show "s = t" using data_sec_unat(1) [OF assms] by auto
  qed
  then show ?thesis by (simp add: cluster_sectors_def distinct_map)
qed

lemma fat_sec_not_data:
  assumes "vol_ok v d" "valid_cluster v c" "unat f < unat (num_fats v)" "valid_cluster v c'"
    "x \<in> set (cluster_sectors v c')"
  shows "fat_sec v f c \<noteq> x"
  using fat_sec_unat(2) [OF assms(1-3)] cluster_sectors_bounds(1) [OF assms(1,4,5)] by auto

section \<open>Writing an entry\<close>

definition fat_upd :: "u32 \<Rightarrow> u32 \<Rightarrow> bytes \<Rightarrow> bytes" where
  "fat_upd c x buf = put_at (fat_off c)
     (le_bytes 4 ((read_u32 buf (fat_off c) AND NOT FAT32_ENTRY_MASK) OR (x AND FAT32_ENTRY_MASK))) buf"

lemma fs_okD: "fs_ok v d \<Longrightarrow> vol_ok v d" "fs_ok v d \<Longrightarrow> sectors_ok d" "fs_ok v d \<Longrightarrow> fault_free d"
  by (auto simp: fs_ok_def)

lemma length_media: "fs_ok v d \<Longrightarrow> length (media d lba) = SECTOR_SIZE"
  by (simp add: fs_ok_def sectors_ok_def)

lemma fs_ok_same_device: "fs_ok v d \<Longrightarrow> same_device d d' \<Longrightarrow> sectors_ok d' \<Longrightarrow> fs_ok v d'"
proof -
  assume f: "fs_ok v d" and s: "same_device d d'" and k: "sectors_ok d'"
  from s obtain m where "d' = d\<lparr>media := m\<rparr>" by (auto simp: same_device_def)
  with f k show ?thesis by (simp add: fs_ok_def vol_ok_def fault_free_def)
qed

lemma fs_ok_set: "fs_ok v d \<Longrightarrow> length b = SECTOR_SIZE \<Longrightarrow> fs_ok v (set_sector lba b d)"
  by (rule fs_ok_same_device [of v d]) (auto simp: fs_ok_def sectors_ok_def)

lemma rd_ok:
  assumes "fs_ok v d"
    and "unat s < unat (data_start_sector v) + unat (cluster_count v) * unat (sectors_per_cluster v)"
  shows "rd s d = Inr (media d (ucast s))"
  using read_sector_ok [OF fs_okD(3) [OF assms(1)] sec_in_range [OF fs_okD(1) [OF assms(1)] assms(2)]]
  by (simp add: rd_def lift_blk_def)

lemma wr_ok:
  assumes "fs_ok v d"
    and "unat s < unat (data_start_sector v) + unat (cluster_count v) * unat (sectors_per_cluster v)"
  shows "wr s b d = (Inr (), set_sector (ucast s) b d)"
  using write_sector_ok [OF fs_okD(3) [OF assms(1)] sec_in_range [OF fs_okD(1) [OF assms(1)] assms(2)]]
  by (simp add: wr_def lift_blk_def)

lemma length_fat_upd:
  "vol_ok v d \<Longrightarrow> valid_cluster v c \<Longrightarrow> length b = SECTOR_SIZE \<Longrightarrow> length (fat_upd c x b) = SECTOR_SIZE"
  using fat_off_bound [of v d c] by (simp add: fat_upd_def)

lemma write_fat_copies_step:
  assumes "fs_ok v d" "valid_cluster v c" "unat f < unat (num_fats v)"
  shows "write_fat_copies v c x (f # fs) d =
    write_fat_copies v c x fs
      (set_sector (ucast (fat_sec v f c)) (fat_upd c x (media d (ucast (fat_sec v f c)))) d)"
proof -
  have s: "unat (fat_sec v f c) < unat (data_start_sector v) + unat (cluster_count v) * unat (sectors_per_cluster v)"
    using fat_sec_unat(2) [OF fs_okD(1) [OF assms(1)] assms(2,3)] by simp
  show ?thesis
    using rd_ok [OF assms(1) s] wr_ok [OF assms(1) s]
    by (simp add: ebind_def reads_def Let_def fat_upd_def
        fat_off_def [symmetric] fat_sec_def [symmetric])
qed

lemma write_fat_copies_ok:
  assumes "fs_ok v d" "valid_cluster v c" "\<forall>f \<in> set fs. unat f < unat (num_fats v)" "distinct fs"
  shows "\<exists>d'. write_fat_copies v c x fs d = (Inr (), d') \<and> same_device d d' \<and> fs_ok v d' \<and>
    (\<forall>lba. media d' lba =
       (if lba \<in> (\<lambda>f. ucast (fat_sec v f c)) ` set fs then fat_upd c x (media d lba) else media d lba))"
  using assms
proof (induction fs arbitrary: d)
  case Nil
  then show ?case by (simp add: ret_def)
next
  case (Cons f fs)
  let ?s = "ucast (fat_sec v f c) :: u64"
  let ?d = "set_sector ?s (fat_upd c x (media d ?s)) d"
  have ok: "fs_ok v ?d"
    using Cons.prems(1,2)
    by (intro fs_ok_set) (auto simp: length_fat_upd [OF fs_okD(1)] length_media)
  have inj: "?s \<notin> (\<lambda>f. ucast (fat_sec v f c)) ` set fs"
  proof
    assume "?s \<in> (\<lambda>f. ucast (fat_sec v f c)) ` set fs"
    then obtain g where g: "g \<in> set fs" "fat_sec v f c = fat_sec v g c" by auto
    have "unat f * unat (fat_size v) = unat g * unat (fat_size v)"
      using g(2) fat_sec_unat(1) [OF fs_okD(1) [OF Cons.prems(1)] Cons.prems(2), of f]
        fat_sec_unat(1) [OF fs_okD(1) [OF Cons.prems(1)] Cons.prems(2), of g] Cons.prems(3) g(1) by auto
    moreover have "0 < unat (fat_size v)"
      using fs_okD(1) [OF Cons.prems(1)] by (auto simp: vol_ok_def)
    ultimately have "f = g" by (simp add: word_unat_eq_iff)
    with g(1) Cons.prems(4) show False by simp
  qed
  from Cons.IH [OF ok Cons.prems(2)] Cons.prems obtain d' where
    d': "write_fat_copies v c x fs ?d = (Inr (), d')" "same_device ?d d'" "fs_ok v d'"
    "\<forall>lba. media d' lba =
       (if lba \<in> (\<lambda>f. ucast (fat_sec v f c)) ` set fs then fat_upd c x (media ?d lba) else media ?d lba)"
    by auto
  have "write_fat_copies v c x (f # fs) d = (Inr (), d')"
    using d'(1) Cons.prems by (simp add: write_fat_copies_step del: write_fat_copies.simps)
  moreover have "same_device d d'"
    using d'(2) same_device_set same_device_trans by blast
  moreover have "\<forall>lba. media d' lba =
      (if lba \<in> (\<lambda>f. ucast (fat_sec v f c)) ` set (f # fs) then fat_upd c x (media d lba) else media d lba)"
    using d'(4) inj by auto
  ultimately show ?case using d'(3) by blast
qed

definition fat_copies :: "Fat32 \<Rightarrow> u32 \<Rightarrow> u64 set" where
  "fat_copies v c = {ucast (fat_sec v f c) | f. unat f < unat (num_fats v)}"

lemma write_fat_entry_ok:
  assumes "fs_ok v d" "valid_cluster v c"
  shows "write_fat_entry v c x d = (Inr (), fat_put v c x d)"
    and "same_device d (fat_put v c x d)"
    and "fs_ok v (fat_put v c x d)"
    and "media (fat_put v c x d) lba =
      (if lba \<in> fat_copies v c then fat_upd c x (media d lba) else media d lba)"
proof -
  let ?fs = "map of_nat [0..<unat (num_fats v)] :: u32 list"
  have n: "\<And>i. i < unat (num_fats v) \<Longrightarrow> unat (of_nat i :: u32) = i"
    using unat_u32 [of "num_fats v"] by (simp add: unat_of_nat)
  have b: "\<forall>f \<in> set ?fs. unat f < unat (num_fats v)" using n by auto
  have dist: "distinct ?fs"
    unfolding distinct_map by (auto intro!: inj_onI) (metis n)
  have im: "(\<lambda>f. ucast (fat_sec v f c)) ` set ?fs = fat_copies v c"
  proof -
    have "set ?fs = {f. unat f < unat (num_fats v)}"
    proof (intro equalityI subsetI)
      fix f :: u32 assume "f \<in> {f. unat f < unat (num_fats v)}"
      then have "of_nat (unat f) \<in> set ?fs" by (auto simp del: of_nat_unat)
      then show "f \<in> set ?fs" by simp
    qed (use b in auto)
    then show ?thesis by (auto simp: fat_copies_def)
  qed
  from write_fat_copies_ok [OF assms b dist] obtain d' where
    d': "write_fat_entry v c x d = (Inr (), d')" "same_device d d'" "fs_ok v d'"
    "\<forall>lba. media d' lba = (if lba \<in> fat_copies v c then fat_upd c x (media d lba) else media d lba)"
    unfolding im write_fat_entry_def by blast
  have e: "fat_put v c x d = d'" by (simp add: fat_put_def d'(1))
  show "write_fat_entry v c x d = (Inr (), fat_put v c x d)" using d'(1) e by simp
  show "same_device d (fat_put v c x d)" using d'(2) e by simp
  show "fs_ok v (fat_put v c x d)" using d'(3) e by simp
  show "media (fat_put v c x d) lba =
      (if lba \<in> fat_copies v c then fat_upd c x (media d lba) else media d lba)"
    using d'(4) e by simp
qed

section \<open>The table is a keyed store\<close>

lemma mask_value: "unat x < 2 ^ 28 \<Longrightarrow> x AND FAT32_ENTRY_MASK = x"
proof -
  assume "unat x < 2 ^ 28"
  then have "take_bit 28 x = x"
    by (simp add: word_unat_eq_iff unsigned_take_bit_eq take_bit_nat_eq_self)
  then show ?thesis
    by (simp add: FAT32_ENTRY_MASK_def take_bit_eq_mask mask_eq_exp_minus_1)
qed

lemma masked_merge: "((a AND NOT m) OR (x AND m)) AND m = x AND (m :: 'a::len word)"
  by (rule bit_word_eqI) (auto simp: bit_simps)

lemma read_fat_upd_same:
  assumes "vol_ok v d" "valid_cluster v c" "length b = SECTOR_SIZE"
  shows "read_u32 (fat_upd c x b) (fat_off c) AND FAT32_ENTRY_MASK = x AND FAT32_ENTRY_MASK"
proof -
  have "fat_off c + 4 \<le> length b" using fat_off_bound [OF assms(1,2)] assms(3) by simp
  then show ?thesis
    by (simp add: read_u32_def fat_upd_def from_le_le_bytes masked_merge)
qed

lemma read_fat_upd_other:
  assumes "vol_ok v d" "valid_cluster v c" "valid_cluster v c'" "length b = SECTOR_SIZE"
    and "unat c mod 128 \<noteq> unat c' mod 128"
  shows "read_u32 (fat_upd c x b) (fat_off c') = read_u32 b (fat_off c')"
proof -
  have "fat_off c + 4 \<le> length b" "fat_off c' + 4 \<le> length b"
    using fat_off_bound [OF assms(1,2)] fat_off_bound [OF assms(1,3)] assms(4) by simp_all
  moreover have "fat_off c' + 4 \<le> fat_off c \<or> fat_off c + 4 \<le> fat_off c'"
    using assms(5) by (simp add: fat_off_unat [OF assms(1,2)] fat_off_unat [OF assms(1,3)]) arith
  ultimately show ?thesis
    by (simp add: read_u32_def fat_upd_def slice_put_at_other)
qed

lemma fat_get_put_same:
  assumes "fs_ok v d" "valid_cluster v c" "unat x < 2 ^ 28"
  shows "fat_get v (fat_put v c x d) c = x"
proof -
  have "ucast (fat_sec v 0 c) \<in> fat_copies v c"
    using fs_okD(1) [OF assms(1)] by (auto simp: fat_copies_def vol_ok_def unat_gt_0 intro!: exI [of _ 0])
  then show ?thesis
    using read_fat_upd_same [OF fs_okD(1) [OF assms(1)] assms(2) length_media [OF assms(1)]]
    by (simp add: fat_get_def write_fat_entry_ok(4) [OF assms(1,2)] mask_value [OF assms(3)])
qed

lemma fat_get_put_other:
  assumes "fs_ok v d" "valid_cluster v c" "valid_cluster v c'" "c' \<noteq> c"
  shows "fat_get v (fat_put v c x d) c' = fat_get v d c'"
proof (cases "ucast (fat_sec v 0 c') \<in> fat_copies v c")
  case True
  note vo = fs_okD(1) [OF assms(1)]
  from True obtain f where f: "unat f < unat (num_fats v)" "fat_sec v 0 c' = fat_sec v f c"
    by (auto simp: fat_copies_def)
  have z: "unat (0 :: u32) < unat (num_fats v)" using vo by (simp add: vol_ok_def unat_gt_0)
  have "4 * unat c' < 512 * unat (fat_size v)"
    using vo assms(3) by (auto simp: valid_cluster_unat vol_ok_def)
  then have "unat c' div 128 < unat (fat_size v)" by simp
  moreover have "unat c' div 128 = unat f * unat (fat_size v) + unat c div 128"
    using f fat_sec_unat(1) [OF vo assms(3) z] fat_sec_unat(1) [OF vo assms(2) f(1)] by simp
  ultimately have "unat f = 0" by (cases "unat f") auto
  with \<open>unat c' div 128 = _\<close> have "unat c' div 128 = unat c div 128" by simp
  moreover have "unat c \<noteq> unat c'" using assms(4) by (simp add: word_unat_eq_iff)
  ultimately have "unat c mod 128 \<noteq> unat c' mod 128"
    by (metis div_mult_mod_eq)
  with True show ?thesis
    using read_fat_upd_other [OF vo assms(2,3) length_media [OF assms(1)]]
    by (simp add: fat_get_def write_fat_entry_ok(4) [OF assms(1,2)])
next
  case False
  then show ?thesis by (simp add: fat_get_def write_fat_entry_ok(4) [OF assms(1,2)])
qed

interpretation fat: keyed_store "fat_get v" "fat_put v" "fs_ok v" "valid_cluster v" "\<lambda>x. unat x < 2 ^ 28"
  for v
  by unfold_locales (auto simp: fat_get_put_same fat_get_put_other write_fat_entry_ok(3))

section \<open>The table as a function, and what a change of it leaves alone\<close>

definition table :: "Fat32 \<Rightarrow> disk \<Rightarrow> u32 \<Rightarrow> u32" where
  "table v d c = (if valid_cluster v c then fat_get v d c else 0)"

text \<open>\<open>d'\<close> differs from \<open>d\<close> in the table only: same device, same bytes in every cluster.\<close>

definition data_same :: "Fat32 \<Rightarrow> disk \<Rightarrow> disk \<Rightarrow> bool" where
  "data_same v d d' \<longleftrightarrow>
     (\<forall>c x. valid_cluster v c \<longrightarrow> x \<in> set (cluster_sectors v c) \<longrightarrow> media d' (ucast x) = media d (ucast x))"

definition only_table :: "Fat32 \<Rightarrow> disk \<Rightarrow> disk \<Rightarrow> bool" where
  "only_table v d d' \<longleftrightarrow> fs_ok v d' \<and> same_device d d' \<and> data_same v d d'"

lemma only_table_refl [simp]: "fs_ok v d \<Longrightarrow> only_table v d d"
  by (simp add: only_table_def data_same_def)

lemma only_table_trans: "only_table v a b \<Longrightarrow> only_table v b c \<Longrightarrow> only_table v a c"
  by (auto simp: only_table_def data_same_def intro: same_device_trans)

lemma only_table_ok: "only_table v d d' \<Longrightarrow> fs_ok v d'"
  by (simp add: only_table_def)

lemma only_table_media:
  "only_table v d d' \<Longrightarrow> valid_cluster v c \<Longrightarrow> x \<in> set (cluster_sectors v c) \<Longrightarrow>
   media d' (ucast x) = media d (ucast x)"
  by (auto simp: only_table_def data_same_def)

lemma fat_put_only:
  assumes "fs_ok v d" "valid_cluster v c"
  shows "only_table v d (fat_put v c x d)"
proof -
  have "data_same v d (fat_put v c x d)"
    unfolding data_same_def
  proof (intro allI impI)
    fix c' s assume "valid_cluster v c'" "s \<in> set (cluster_sectors v c')"
    then have "ucast s \<notin> fat_copies v c"
      using fat_sec_not_data [OF fs_okD(1) [OF assms(1)] assms(2)] by (auto simp: fat_copies_def)
    then show "media (fat_put v c x d) (ucast s) = media d (ucast s)"
      by (simp add: write_fat_entry_ok(4) [OF assms])
  qed
  then show ?thesis by (simp add: only_table_def write_fat_entry_ok(2,3) [OF assms])
qed

lemma table_put:
  assumes "fs_ok v d" "valid_cluster v c" "unat x < 2 ^ 28"
  shows "table v (fat_put v c x d) = (table v d)(c := x)"
  using assms by (auto simp: table_def fat_get_put_same fat_get_put_other)

lemma next_cluster_ok:
  assumes "fs_ok v d" "valid_cluster v c"
  shows "next_cluster v d c = Inr (table v d c)"
proof -
  have z: "unat (0 :: u32) < unat (num_fats v)"
    using fs_okD(1) [OF assms(1)] by (simp add: vol_ok_def unat_gt_0)
  have "unat (fat_sec v 0 c) < unat (data_start_sector v) + unat (cluster_count v) * unat (sectors_per_cluster v)"
    using fat_sec_unat(2) [OF fs_okD(1) [OF assms(1)] assms(2) z] by simp
  from rd_ok [OF assms(1) this] assms(2) show ?thesis
    by (simp add: next_cluster_def Let_def table_def fat_get_def fat_sec_def fat_off_def)
qed

lemma EOC_small: "unat FAT32_EOC < 2 ^ 28" "unat (0 :: u32) < 2 ^ 28"
  by (simp_all add: FAT32_EOC_def)

lemma EOC_invalid: "vol_ok v d \<Longrightarrow> \<not> valid_cluster v FAT32_EOC" "\<not> valid_cluster v 0"
  using valid_small [of v d FAT32_EOC] by (auto simp: FAT32_EOC_def valid_cluster_def FIRST_DATA_CLUSTER_def)

lemma valid_value: "vol_ok v d \<Longrightarrow> valid_cluster v c \<Longrightarrow> unat c < 2 ^ 28"
  using valid_small [of v d c] by simp

lemma finite_valid: "finite {c. valid_cluster v c}"
  by (rule finite_subset [of _ UNIV]) auto

lemma card_valid: "vol_ok v d \<Longrightarrow> card {c. valid_cluster v c} = unat (cluster_count v)"
proof -
  assume v: "vol_ok v d"
  have "unat ` {c. valid_cluster v c} = {2..<unat (cluster_count v) + 2}"
  proof (intro equalityI subsetI)
    fix n assume n: "n \<in> {2..<unat (cluster_count v) + 2}"
    then have "unat (of_nat n :: u32) = n"
      using v by (simp add: vol_ok_def unat_of_nat)
    with n have "valid_cluster v (of_nat n)" by (simp add: valid_cluster_unat [OF v])
    with \<open>unat (of_nat n) = n\<close> show "n \<in> unat ` {c. valid_cluster v c}"
      by (metis image_eqI mem_Collect_eq)
  qed (auto simp: valid_cluster_unat [OF v])
  moreover have "inj_on unat {c. valid_cluster v c}" by (rule inj_onI) (simp add: word_unat_eq_iff)
  ultimately show ?thesis by (metis card_atLeastLessThan card_image add_diff_cancel_right')
qed

section \<open>Chains\<close>

fun is_chain :: "('a \<Rightarrow> 'a) \<Rightarrow> ('a \<Rightarrow> bool) \<Rightarrow> 'a \<Rightarrow> 'a list \<Rightarrow> bool" where
  "is_chain nx V c [] \<longleftrightarrow> \<not> V c"
| "is_chain nx V c (x # xs) \<longleftrightarrow> x = c \<and> V c \<and> is_chain nx V (nx c) xs"

abbreviation chain :: "Fat32 \<Rightarrow> disk \<Rightarrow> u32 \<Rightarrow> u32 list \<Rightarrow> bool" where
  "chain v d \<equiv> is_chain (table v d) (valid_cluster v)"

lemma chain_unique: "is_chain nx V c xs \<Longrightarrow> is_chain nx V c ys \<Longrightarrow> xs = ys"
proof (induction xs arbitrary: c ys)
  case Nil
  then show ?case by (cases ys) auto
next
  case (Cons x xs)
  then show ?case by (cases ys) auto
qed

lemma chain_valid: "is_chain nx V c xs \<Longrightarrow> x \<in> set xs \<Longrightarrow> V x"
  by (induction xs arbitrary: c) auto

lemma chain_suffix: "is_chain nx V c (xs @ y # ys) \<Longrightarrow> is_chain nx V y (y # ys)"
  by (induction xs arbitrary: c) auto

lemma chain_distinct: "is_chain nx V c xs \<Longrightarrow> distinct xs"
proof (induction xs arbitrary: c)
  case (Cons x xs)
  have "x \<notin> set xs"
  proof
    assume "x \<in> set xs"
    then obtain as bs where xs: "xs = as @ x # bs" by (meson split_list)
    have "is_chain nx V x (x # bs)" "is_chain nx V x (x # as @ x # bs)"
      using chain_suffix [of nx V c "x # as" x bs] Cons.prems by (auto simp: xs)
    from chain_unique [OF this] show False by simp
  qed
  with Cons show ?case by auto
qed simp

lemma chain_cong:
  "is_chain nx V c xs \<Longrightarrow> (\<And>x. x \<in> set xs \<Longrightarrow> nx' x = nx x) \<Longrightarrow> is_chain nx' V c xs"
  by (induction xs arbitrary: c) auto

lemma chain_upd_other: "is_chain nx V c xs \<Longrightarrow> k \<notin> set xs \<Longrightarrow> is_chain (nx(k := x)) V c xs"
  by (erule chain_cong) auto

lemma chain_hd: "is_chain nx V c xs \<Longrightarrow> xs \<noteq> [] \<Longrightarrow> hd xs = c"
  by (cases xs) auto

lemma chain_append_link:
  "is_chain nx V c xs \<Longrightarrow> xs \<noteq> [] \<Longrightarrow> V k \<Longrightarrow> \<not> V e \<Longrightarrow> k \<notin> set xs \<Longrightarrow>
   is_chain (nx(k := e, last xs := k)) V c (xs @ [k])"
proof (induction xs arbitrary: c)
  case (Cons x xs)
  show ?case
  proof (cases "xs = []")
    case True
    with Cons.prems show ?thesis by auto
  next
    case False
    have "x \<notin> set xs" using chain_distinct [OF Cons.prems(1)] by simp
    moreover have "last xs \<in> set xs" using False by simp
    ultimately have "x \<noteq> last xs" by auto
    with Cons False show ?thesis by auto
  qed
qed simp

lemma chain_length:
  assumes "vol_ok v d'" "chain v d c cs"
  shows "length cs \<le> unat (cluster_count v)"
proof -
  have "card (set cs) \<le> card {c. valid_cluster v c}"
    using chain_valid [OF assms(2)] by (intro card_mono finite_valid) auto
  then show ?thesis
    by (simp add: distinct_card [OF chain_distinct [OF assms(2)]] card_valid [OF assms(1)])
qed

end
