(* ===== verification/Fat_Alloc.thy ===== *)
theory Fat_Alloc
  imports Fat_Table
begin

text \<open>
  The allocator of \<open>src/fs/fat.rs\<close> against the table of links: \<open>alloc_cluster\<close> takes the
  lowest free cluster, \<open>free_chain\<close> zeroes exactly the entries of its chain, and
  \<open>alloc_chain\<close> either links the requested number of free clusters or leaves the table as it
  was.
\<close>

definition free_set :: "Fat32 \<Rightarrow> disk \<Rightarrow> u32 set" where
  "free_set v d = {c. valid_cluster v c \<and> table v d c = 0}"

lemma finite_free: "finite (free_set v d)"
  by (rule finite_subset [OF _ finite_valid [of v]]) (auto simp: free_set_def)

section \<open>One cluster\<close>

lemma alloc_sector:
  assumes "vol_ok v d" "valid_cluster v c"
  shows "fat_start_sector v + c div FAT_ENTRIES_PER_SECTOR = fat_sec v 0 c"
    and "unat (c mod FAT_ENTRIES_PER_SECTOR) * 4 = fat_off c"
proof -
  have c: "unat c < 2 ^ 30" using valid_small [OF assms] by simp
  have "c div FAT_ENTRIES_PER_SECTOR = c * 4 div of_nat SECTOR_SIZE"
    using unat_times4 [OF c]
    by (simp add: word_unat_eq_iff unat_div_distrib FAT_ENTRIES_PER_SECTOR_def SECTOR_SIZE_def)
  then show "fat_start_sector v + c div FAT_ENTRIES_PER_SECTOR = fat_sec v 0 c"
    by (simp add: fat_sec_def)
  show "unat (c mod FAT_ENTRIES_PER_SECTOR) * 4 = fat_off c"
    by (simp add: fat_off_unat [OF assms] unat_mod_distrib FAT_ENTRIES_PER_SECTOR_def)
qed

definition end_cluster :: "Fat32 \<Rightarrow> u32" where
  "end_cluster v = FIRST_DATA_CLUSTER + cluster_count v"

lemma valid_end: "valid_cluster v c \<longleftrightarrow> 2 \<le> c \<and> c < end_cluster v"
  by (simp add: valid_cluster_def end_cluster_def FIRST_DATA_CLUSTER_def)

text \<open>No free cluster among \<open>c \<dots> c' - 1\<close>.\<close>

definition none_free :: "Fat32 \<Rightarrow> disk \<Rightarrow> u32 \<Rightarrow> u32 \<Rightarrow> bool" where
  "none_free v d c c' \<longleftrightarrow> (\<forall>x. c \<le> x \<longrightarrow> x < c' \<longrightarrow> table v d x \<noteq> 0)"

lemma none_free_step:
  "c < e \<Longrightarrow> table v d c \<noteq> 0 \<Longrightarrow> none_free v d (c + 1) c' \<Longrightarrow> none_free v d c c'"
  unfolding none_free_def
proof (intro allI impI)
  fix x assume a: "c < e" "table v d c \<noteq> 0" "\<forall>x\<ge>c + 1. x < c' \<longrightarrow> table v d x \<noteq> 0" "c \<le> x" "x < c'"
  show "table v d x \<noteq> 0"
  proof (cases "x = c")
    case False
    with a have "c < x" by simp
    then have "c + 1 \<le> x" by (rule word_inc_less)
    with a show ?thesis by simp
  qed (use a in simp)
qed

lemma none_free_trans:
  "none_free v d a b \<Longrightarrow> none_free v d b c \<Longrightarrow> none_free v d a c"
  unfolding none_free_def by (meson linorder_not_le)

lemma alloc_scan_ok:
  assumes "vol_ok v d" "2 \<le> c" "c \<le> end_cluster v" "buf = media d (ucast sector)"
  shows "case alloc_scan v buf sector (end_cluster v) c of
      Return x \<Rightarrow> valid_cluster v x \<and> c \<le> x \<and> table v d x = 0 \<and> none_free v d c x
    | Continue x \<Rightarrow> 2 \<le> x \<and> x \<le> end_cluster v \<and> none_free v d c x"
  using assms
proof (induction v buf sector "end_cluster v" c rule: alloc_scan.induct)
  case (1 v buf sector c)
  show ?case
  proof (cases "c < end_cluster v \<and> c div FAT_ENTRIES_PER_SECTOR = sector - fat_start_sector v")
    case True
    then have c: "valid_cluster v c" and s: "sector = fat_sec v 0 c"
      using 1 alloc_sector(1) [OF "1.prems"(1), of c] by (auto simp: valid_end)
    have t: "read_u32 buf (unat (c mod FAT_ENTRIES_PER_SECTOR) * 4) AND FAT32_ENTRY_MASK = table v d c"
      using c by (simp add: table_def fat_get_def alloc_sector(2) [OF "1.prems"(1)] "1.prems"(4) s)
    show ?thesis
    proof (cases "table v d c = 0")
      case True
      with \<open>c < end_cluster v \<and> _\<close> c t show ?thesis
        by (subst alloc_scan.simps) (auto simp: Let_def none_free_def)
    next
      case False
      have i: "c + 1 \<le> end_cluster v" "c \<le> c + 1"
        using True word_inc_less [of c "end_cluster v"] by auto
      then have "2 \<le> c + 1" using "1.prems"(2) by simp
      from "1.hyps" [OF True refl _ "1.prems"(1) this i(1) "1.prems"(4)] False t
      have ih: "case alloc_scan v buf sector (end_cluster v) (c + 1) of
          Return x \<Rightarrow> valid_cluster v x \<and> c + 1 \<le> x \<and> table v d x = 0 \<and> none_free v d (c + 1) x
        | Continue x \<Rightarrow> 2 \<le> x \<and> x \<le> end_cluster v \<and> none_free v d (c + 1) x" by simp
      have "alloc_scan v buf sector (end_cluster v) c = alloc_scan v buf sector (end_cluster v) (c + 1)"
        using True False t by (subst alloc_scan.simps) (simp add: Let_def)
      then show ?thesis
        using ih none_free_step [of c "end_cluster v" v d] True False i(2)
        by (auto split: flow.splits)
    qed
  next
    case False
    then show ?thesis
      using "1.prems" by (subst alloc_scan.simps) (auto simp: none_free_def)
  qed
qed

lemma alloc_loop_ok:
  assumes "fs_ok v d" "2 \<le> c" "c \<le> end_cluster v"
  shows "(\<exists>x. alloc_loop v (end_cluster v) c d = (Inr x, fat_put v x FAT32_EOC d) \<and>
            valid_cluster v x \<and> table v d x = 0 \<and> none_free v d c x) \<or>
         (alloc_loop v (end_cluster v) c d = (Inl NoSpace, d) \<and> none_free v d c (end_cluster v))"
  using assms
proof (induction v "end_cluster v" c d rule: alloc_loop.induct)
  case (1 v c d)
  show ?case
  proof (cases "c < end_cluster v")
    case True
    let ?s = "fat_start_sector v + c div FAT_ENTRIES_PER_SECTOR"
    have c: "valid_cluster v c" using True "1.prems"(2) by (simp add: valid_end)
    have "unat (0 :: u32) < unat (num_fats v)"
      using fs_okD(1) [OF "1.prems"(1)] by (simp add: vol_ok_def unat_gt_0)
    from fat_sec_unat(2) [OF fs_okD(1) [OF "1.prems"(1)] c this]
    have r: "rd ?s d = Inr (media d (ucast ?s))"
      by (intro rd_ok [OF "1.prems"(1)]) (simp add: alloc_sector(1) [OF fs_okD(1) [OF "1.prems"(1)] c])
    note sc = alloc_scan_ok [OF fs_okD(1) [OF "1.prems"(1)] "1.prems"(2,3) refl, of ?s]
    show ?thesis
    proof (cases "alloc_scan v (media d (ucast ?s)) ?s (end_cluster v) c")
      case (Continue x)
      from sc Continue have x: "2 \<le> x" "x \<le> end_cluster v" "none_free v d c x" by simp_all
      have "alloc_loop v (end_cluster v) c d = alloc_loop v (end_cluster v) x d"
        using True r Continue by (subst alloc_loop.simps) (simp add: Let_def)
      moreover note "1.hyps" [OF True refl r Continue "1.prems"(1) x(1,2)]
      ultimately show ?thesis using none_free_trans [OF x(3)] by auto
    next
      case (Return x)
      from sc Return have x: "valid_cluster v x" "table v d x = 0" "none_free v d c x" by simp_all
      have "alloc_loop v (end_cluster v) c d = (Inr x, fat_put v x FAT32_EOC d)"
        using True r Return write_fat_entry_ok(1) [OF "1.prems"(1) x(1)]
        by (subst alloc_loop.simps) (simp add: Let_def ret_def)
      with x show ?thesis by blast
    qed
  next
    case False
    then have "alloc_loop v (end_cluster v) c d = (Inl NoSpace, d)" by (subst alloc_loop.simps) simp
    moreover have "none_free v d c (end_cluster v)" using False by (auto simp: none_free_def)
    ultimately show ?thesis by blast
  qed
qed

lemma alloc_cluster_cases:
  assumes "fs_ok v d"
  obtains (found) c where "alloc_cluster v d = (Inr c, fat_put v c FAT32_EOC d)" "c \<in> free_set v d"
      "\<And>x. x \<in> free_set v d \<Longrightarrow> c \<le> x"
    | (full) "alloc_cluster v d = (Inl NoSpace, d)" "free_set v d = {}"
proof -
  have 2: "2 \<le> end_cluster v"
    using fs_okD(1) [OF assms]
    by (simp add: vol_ok_def end_cluster_def FIRST_DATA_CLUSTER_def word_le_nat_alt unat_word_ariths)
  from alloc_loop_ok [OF assms order_refl 2] show thesis
  proof (elim disjE exE conjE)
    fix c assume c: "alloc_loop v (end_cluster v) 2 d = (Inr c, fat_put v c FAT32_EOC d)"
      "valid_cluster v c" "table v d c = 0" "none_free v d 2 c"
    show thesis
    proof (rule found)
      show "alloc_cluster v d = (Inr c, fat_put v c FAT32_EOC d)"
        using c(1) by (simp add: alloc_cluster_def FIRST_DATA_CLUSTER_def end_cluster_def)
      show "c \<in> free_set v d" using c by (simp add: free_set_def)
      fix x assume "x \<in> free_set v d"
      then show "c \<le> x" using c(4) by (auto simp: free_set_def none_free_def valid_end)
    qed
  next
    assume "alloc_loop v (end_cluster v) 2 d = (Inl NoSpace, d)" "none_free v d 2 (end_cluster v)"
    then show thesis
      by (intro full) (auto simp: alloc_cluster_def FIRST_DATA_CLUSTER_def end_cluster_def
          free_set_def none_free_def valid_cluster_def)
  qed
qed

section \<open>Freeing a chain\<close>

lemma free_loop_ok:
  assumes "fs_ok v d" "chain v d c cs" "length cs \<le> n"
  shows "\<exists>d'. free_loop v n c d = (Inr (), d') \<and> only_table v d d' \<and>
    table v d' = (\<lambda>x. if x \<in> set cs then 0 else table v d x)"
  using assms
proof (induction cs arbitrary: d c n)
  case Nil
  then show ?case by (cases n) (auto simp: ret_def)
next
  case (Cons x cs)
  then obtain m where n: "n = Suc m" "length cs \<le> m" by (cases n) auto
  have x: "x = c" "valid_cluster v c" "chain v d (table v d c) cs" using Cons.prems(2) by auto
  let ?d = "fat_put v c 0 d"
  have t: "table v ?d = (table v d)(c := 0)" by (rule table_put [OF Cons.prems(1) x(2) EOC_small(2)])
  have "c \<notin> set cs" using chain_distinct [OF Cons.prems(2)] x(1) by simp
  then have ch: "chain v ?d (table v d c) cs" unfolding t by (rule chain_upd_other [OF x(3)])
  have o: "only_table v d ?d" by (rule fat_put_only [OF Cons.prems(1) x(2)])
  from Cons.IH [OF only_table_ok [OF o] ch n(2)] obtain d' where
    d': "free_loop v m (table v d c) ?d = (Inr (), d')" "only_table v ?d d'"
    "table v d' = (\<lambda>x. if x \<in> set cs then 0 else table v ?d x)" by blast
  have "free_loop v n c d = (Inr (), d')"
    using d'(1) x(2) write_fat_entry_ok(1) [OF Cons.prems(1) x(2)] next_cluster_ok [OF Cons.prems(1) x(2)]
    by (simp add: n reads_def ebind_def)
  then show ?case using only_table_trans [OF o d'(2)] d'(3) t x(1) by (auto simp: fun_eq_iff)
qed

lemma free_chain_ok:
  assumes "fs_ok v d" "chain v d c cs"
  obtains d' where "free_chain v c d = (Inr (), d')" "only_table v d d'"
    "table v d' = (\<lambda>x. if x \<in> set cs then 0 else table v d x)"
  using free_loop_ok [OF assms chain_length [OF fs_okD(1) [OF assms(1)] assms(2)]]
  unfolding free_chain_def by blast

section \<open>Allocating a chain\<close>

lemma table_alloc:
  assumes "fs_ok v d" "c \<in> free_set v d"
  shows "table v (fat_put v c FAT32_EOC d) = (table v d)(c := FAT32_EOC)"
    and "only_table v d (fat_put v c FAT32_EOC d)"
    and "free_set v (fat_put v c FAT32_EOC d) = free_set v d - {c}"
proof -
  have c: "valid_cluster v c" using assms(2) by (simp add: free_set_def)
  show t: "table v (fat_put v c FAT32_EOC d) = (table v d)(c := FAT32_EOC)"
    by (rule table_put [OF assms(1) c EOC_small(1)])
  show "only_table v d (fat_put v c FAT32_EOC d)" by (rule fat_put_only [OF assms(1) c])
  show "free_set v (fat_put v c FAT32_EOC d) = free_set v d - {c}"
    unfolding free_set_def t by (auto simp: FAT32_EOC_def)
qed

text \<open>Linking a fresh cluster behind the last one of a chain.\<close>

lemma link_cluster:
  assumes ok: "fs_ok v d" and ch: "chain v d first cs" "cs \<noteq> []" and c: "c \<in> free_set v d"
    and dis: "set cs \<inter> free_set v d = {}"
  defines "d2 \<equiv> fat_put v (last cs) c (fat_put v c FAT32_EOC d)"
  shows "write_fat_entry v (last cs) c (fat_put v c FAT32_EOC d) = (Inr (), d2)"
    and "chain v d2 first (cs @ [c])"
    and "only_table v d d2"
    and "free_set v d2 = free_set v d - {c}"
    and "table v d2 = (table v d)(c := FAT32_EOC, last cs := c)"
proof -
  let ?d = "fat_put v c FAT32_EOC d"
  have vc: "valid_cluster v c" "table v d c = 0" using c by (auto simp: free_set_def)
  have l: "valid_cluster v (last cs)" using chain_valid [OF ch(1)] ch(2) by simp
  have ok1: "fs_ok v ?d" by (rule only_table_ok [OF table_alloc(2) [OF ok c]])
  show "write_fat_entry v (last cs) c ?d = (Inr (), d2)"
    unfolding d2_def by (rule write_fat_entry_ok(1) [OF ok1 l])
  show t: "table v d2 = (table v d)(c := FAT32_EOC, last cs := c)"
    unfolding d2_def table_put [OF ok1 l valid_value [OF fs_okD(1) [OF ok] vc(1)]] table_alloc(1) [OF ok c] ..
  show "chain v d2 first (cs @ [c])"
    unfolding t using ch vc(1) EOC_invalid(1) [OF fs_okD(1) [OF ok]] c dis
    by (intro chain_append_link) auto
  show "only_table v d d2"
    unfolding d2_def by (rule only_table_trans [OF table_alloc(2) [OF ok c] fat_put_only [OF ok1 l]])
  have "last cs \<notin> free_set v d" "c \<noteq> 0"
    using dis last_in_set [OF ch(2)] vc(1) EOC_invalid(2) [of v] by auto
  then show "free_set v d2 = free_set v d - {c}"
    unfolding free_set_def t by (auto simp: FAT32_EOC_def)
qed

lemma alloc_chain_step:
  assumes ok: "fs_ok v d" and ch: "chain v d first cs" and dis: "set cs \<inter> free_set v d = {}"
    and prev: "if cs = [] then first = 0 else prev = last cs"
    and al: "alloc_cluster v d = (Inr c, fat_put v c FAT32_EOC d)" and c: "c \<in> free_set v d"
  shows "\<exists>d2. alloc_chain_loop v (Suc n) first prev d = alloc_chain_loop v n (hd (cs @ [c])) c d2 \<and>
    chain v d2 (hd (cs @ [c])) (cs @ [c]) \<and> only_table v d d2 \<and> free_set v d2 = free_set v d - {c} \<and>
    (\<forall>x. x \<notin> set (cs @ [c]) \<longrightarrow> table v d2 x = table v d x)"
proof (cases "cs = []")
  case True
  let ?d = "fat_put v c FAT32_EOC d"
  have "chain v ?d c [c]"
    using c EOC_invalid(1) [OF fs_okD(1) [OF ok]] by (simp add: table_alloc(1) [OF ok c] free_set_def)
  moreover have "alloc_chain_loop v (Suc n) first prev d = alloc_chain_loop v n c c ?d"
    using True prev al by (simp add: on_error_def ebind_def)
  ultimately show ?thesis
    using True table_alloc [OF ok c] by (intro exI [of _ ?d]) auto
next
  case False
  note l = link_cluster [OF ok ch False c dis]
  have f: "hd (cs @ [c]) = first" using False chain_hd [OF ch False] by simp
  have "first \<noteq> 0" using chain_valid [OF ch, of first] f False EOC_invalid(2) [of v] by (cases cs) auto
  then have e: "alloc_chain_loop v (Suc n) first prev d =
      alloc_chain_loop v n first c (fat_put v (last cs) c (fat_put v c FAT32_EOC d))"
    using False prev al l(1) by (simp add: on_error_def ebind_def)
  have "\<forall>x. x \<notin> set (cs @ [c]) \<longrightarrow>
      table v (fat_put v (last cs) c (fat_put v c FAT32_EOC d)) x = table v d x"
    unfolding l(5) using last_in_set [OF False] by auto
  with e l(2-4) show ?thesis unfolding f by blast
qed

text \<open>
  The loop of \<open>alloc_chain\<close> with the clusters \<open>cs\<close> it has linked so far: either there are
  enough free clusters and it extends the chain by as many of them as it still needs, or there
  are not, and everything it had linked is free again.
\<close>

lemma alloc_chain_loop_ok:
  assumes "fs_ok v d" "chain v d first cs" "set cs \<inter> free_set v d = {}"
    and "if cs = [] then first = 0 else prev = last cs"
  shows "n \<le> card (free_set v d) \<longrightarrow>
      (\<exists>d' ns. alloc_chain_loop v n first prev d = (Inr (if cs @ ns = [] then 0 else hd (cs @ ns)), d') \<and>
         length ns = n \<and> set ns \<subseteq> free_set v d \<and> only_table v d d' \<and>
         chain v d' (if cs @ ns = [] then 0 else hd (cs @ ns)) (cs @ ns) \<and>
         set (cs @ ns) \<inter> free_set v d' = {} \<and>
         (\<forall>x. x \<notin> set (cs @ ns) \<longrightarrow> table v d' x = table v d x))"
    and "card (free_set v d) < n \<longrightarrow>
      (\<exists>d'. alloc_chain_loop v n first prev d = (Inl NoSpace, d') \<and> only_table v d d' \<and>
         table v d' = (\<lambda>x. if x \<in> set cs then 0 else table v d x))"
  using assms
proof (atomize(full), induction n arbitrary: d first cs prev)
  case 0
  then show ?case
    using chain_hd [of "table v d" "valid_cluster v" first cs]
    by (auto simp: ret_def intro!: exI [of _ d])
next
  case (Suc n)
  show ?case
  proof (cases rule: alloc_cluster_cases [OF Suc.prems(1), case_names found full])
    case (found c)
    from alloc_chain_step [OF Suc.prems found(1,2), of n] obtain d2 where
      d2: "alloc_chain_loop v (Suc n) first prev d = alloc_chain_loop v n (hd (cs @ [c])) c d2"
      "chain v d2 (hd (cs @ [c])) (cs @ [c])" "only_table v d d2" "free_set v d2 = free_set v d - {c}"
      "\<forall>x. x \<notin> set (cs @ [c]) \<longrightarrow> table v d2 x = table v d x" by blast
    have cd: "card (free_set v d) = Suc (card (free_set v d2))"
      using found(2) unfolding d2(4) by (rule card.remove [OF finite_free])
    have "set (cs @ [c]) \<inter> free_set v d2 = {}" using Suc.prems(3) unfolding d2(4) by auto
    note ih = Suc.IH [OF only_table_ok [OF d2(3)] d2(2) this, of c]
    have first: "hd ((cs @ [c]) @ ns) = hd (cs @ c # ns)" for ns by simp
    show ?thesis
    proof (intro conjI impI)
      assume "Suc n \<le> card (free_set v d)"
      with ih cd obtain d' ns where
        d': "alloc_chain_loop v n (hd (cs @ [c])) c d2 = (Inr (hd (cs @ c # ns)), d')"
        "length ns = n" "set ns \<subseteq> free_set v d2" "only_table v d2 d'" "chain v d' (hd (cs @ c # ns)) (cs @ c # ns)"
        "set (cs @ c # ns) \<inter> free_set v d' = {}"
        "\<forall>x. x \<notin> set (cs @ c # ns) \<longrightarrow> table v d' x = table v d2 x" by auto
      have "\<forall>x. x \<notin> set (cs @ c # ns) \<longrightarrow> table v d' x = table v d x"
        using d'(7) d2(5) by simp
      moreover have "set (c # ns) \<subseteq> free_set v d" using d'(3) found(2) unfolding d2(4) by auto
      ultimately show "\<exists>d' ns. alloc_chain_loop v (Suc n) first prev d =
          (Inr (if cs @ ns = [] then 0 else hd (cs @ ns)), d') \<and> length ns = Suc n \<and>
          set ns \<subseteq> free_set v d \<and> only_table v d d' \<and>
          chain v d' (if cs @ ns = [] then 0 else hd (cs @ ns)) (cs @ ns) \<and>
          set (cs @ ns) \<inter> free_set v d' = {} \<and>
          (\<forall>x. x \<notin> set (cs @ ns) \<longrightarrow> table v d' x = table v d x)"
        using d' only_table_trans [OF d2(3)] d2(1)
        by (intro exI [of _ d'] exI [of _ "c # ns"]) simp
    next
      assume "card (free_set v d) < Suc n"
      with ih cd obtain d' where
        d': "alloc_chain_loop v n (hd (cs @ [c])) c d2 = (Inl NoSpace, d')" "only_table v d2 d'"
        "table v d' = (\<lambda>x. if x \<in> set (cs @ [c]) then 0 else table v d2 x)" by auto
      have "table v d' = (\<lambda>x. if x \<in> set cs then 0 else table v d x)"
        using d'(3) d2(5) found(2) by (auto simp: fun_eq_iff free_set_def)
      then show "\<exists>d'. alloc_chain_loop v (Suc n) first prev d = (Inl NoSpace, d') \<and> only_table v d d' \<and>
          table v d' = (\<lambda>x. if x \<in> set cs then 0 else table v d x)"
        using d'(1,2) only_table_trans [OF d2(3)] d2(1) by metis
    qed
  next
    case full
    from free_chain_ok [OF Suc.prems(1,2)] obtain d' where
      d': "free_chain v first d = (Inr (), d')" "only_table v d d'"
      "table v d' = (\<lambda>x. if x \<in> set cs then 0 else table v d x)" by blast
    let ?d = "if first \<noteq> 0 then d' else d"
    have "cs = []" if "first = 0" using that Suc.prems(2) EOC_invalid(2) [of v] by (cases cs) auto
    then have "only_table v d ?d" "table v ?d = (\<lambda>x. if x \<in> set cs then 0 else table v d x)"
      using d'(2,3) Suc.prems(1) by auto
    moreover have "alloc_chain_loop v (Suc n) first prev d = (Inl NoSpace, ?d)"
      using full(1) d'(1) by (simp add: on_error_def ebind_def ret_def)
    ultimately show ?thesis using full(2) by auto
  qed
qed

lemma alloc_chain_ok:
  assumes "fs_ok v d" "0 < unat n" "unat n \<le> card (free_set v d)"
  obtains d' cs where "alloc_chain v n d = (Inr (hd cs), d')" "length cs = unat n"
    "set cs \<subseteq> free_set v d" "only_table v d d'" "chain v d' (hd cs) cs"
    "set cs \<inter> free_set v d' = {}"
    "\<forall>x. x \<notin> set cs \<longrightarrow> table v d' x = table v d x"
proof -
  have "chain v d 0 []" by (simp add: EOC_invalid(2))
  from alloc_chain_loop_ok(1) [OF assms(1) this, of 0 "unat n"] assms(3)
  obtain d' cs where d': "alloc_chain v n d = (Inr (if cs = [] then 0 else hd cs), d')" "length cs = unat n"
    "set cs \<subseteq> free_set v d" "only_table v d d'" "chain v d' (if cs = [] then 0 else hd cs) cs" "set cs \<inter> free_set v d' = {}"
    "\<forall>x. x \<notin> set cs \<longrightarrow> table v d' x = table v d x"
    unfolding alloc_chain_def append_Nil by auto
  moreover have "cs \<noteq> []" using d'(2) assms(2) by auto
  ultimately show thesis by (intro that [of cs d']) auto
qed

lemma alloc_chain_full:
  assumes "fs_ok v d" "card (free_set v d) < unat n"
  obtains d' where "alloc_chain v n d = (Inl NoSpace, d')" "only_table v d d'" "table v d' = table v d"
proof -
  have "chain v d 0 []" by (simp add: EOC_invalid(2))
  from alloc_chain_loop_ok(2) [OF assms(1) this, of 0 "unat n"] assms(2) show thesis
    by (auto simp: alloc_chain_def intro: that)
qed

end
