(* ===== verification/Fat_Dir.thy ===== *)
theory Fat_Dir
  imports Fat_Alloc
begin

text \<open>
  Directories of \<open>src/fs/fat.rs\<close> as lists of slots: the walks over clusters, sectors and entries
  become one pass over the slots of the chain, a directory denotes a finite map from 8.3 names to
  entries, and writing or clearing a slot updates that map at one name.
\<close>

section \<open>Slots\<close>

type_synonym slot = "u32 \<times> nat \<times> bytes"

abbreviation slot_loc :: "slot \<Rightarrow> u32 \<times> nat" where
  "slot_loc sl \<equiv> (fst sl, fst (snd sl))"

abbreviation slot_entry :: "slot \<Rightarrow> bytes" where
  "slot_entry sl \<equiv> snd (snd sl)"

definition sector_slots :: "disk \<Rightarrow> u32 \<Rightarrow> slot list" where
  "sector_slots d s =
     map (\<lambda>i. (s, DIR_ENTRY_SIZE * i, slice (DIR_ENTRY_SIZE * i) DIR_ENTRY_SIZE (media d (ucast s)))) [0..<16]"

definition chain_sectors :: "Fat32 \<Rightarrow> u32 list \<Rightarrow> u32 list" where
  "chain_sectors v cs = concat (map (cluster_sectors v) cs)"

definition slots :: "Fat32 \<Rightarrow> disk \<Rightarrow> u32 list \<Rightarrow> slot list" where
  "slots v d cs = concat (map (sector_slots d) (chain_sectors v cs))"

primrec walk_list :: "('a, 'r) walk_body \<Rightarrow> slot list \<Rightarrow> 'a \<Rightarrow> ('a, 'r) flow" where
  "walk_list body [] acc = Continue acc"
| "walk_list body (sl # sls) acc =
     (case body acc (fst sl) (fst (snd sl)) (slot_entry sl) of
        Return r \<Rightarrow> Return r
      | Continue acc' \<Rightarrow> walk_list body sls acc')"

definition deleted :: "slot \<Rightarrow> bool" where
  "deleted sl \<longleftrightarrow> slot_entry sl ! 0 = 0xE5"

definition unused :: "slot \<Rightarrow> bool" where
  "unused sl \<longleftrightarrow> slot_entry sl ! 0 = 0x00"

definition named :: "bytes \<Rightarrow> slot \<Rightarrow> bool" where
  "named target sl \<longleftrightarrow> take 11 (slot_entry sl) = target"

text \<open>The entries a reader sees: before the terminator, not deleted, not a long name or label.\<close>

definition live :: "slot list \<Rightarrow> slot list" where
  "live sls = filter (\<lambda>sl. \<not> deleted sl \<and> \<not> skipped_attr (slot_entry sl ! 11)) (takeWhile (\<lambda>sl. \<not> unused sl) sls)"

definition free_slot :: "slot list \<Rightarrow> slot option" where
  "free_slot sls = find (\<lambda>sl. deleted sl \<or> unused sl) sls"

definition dir_find :: "slot list \<Rightarrow> bytes \<Rightarrow> slot option" where
  "dir_find sls target = find (named target) (live sls)"

section \<open>The walks are passes over the slots\<close>

lemma walk_list_append:
  "walk_list body (xs @ ys) acc =
     (case walk_list body xs acc of Return r \<Rightarrow> Return r | Continue acc' \<Rightarrow> walk_list body ys acc')"
  by (induction xs arbitrary: acc) (auto split: flow.splits)

lemma walk_entries_list:
  "walk_entries body s off es acc =
     walk_list body (map (\<lambda>i. (s, off + DIR_ENTRY_SIZE * i, es ! i)) [0..<length es]) acc"
proof (induction es arbitrary: off acc)
  case (Cons e es)
  have "map (\<lambda>i. (s, off + DIR_ENTRY_SIZE * i, (e # es) ! i)) [0..<length (e # es)] =
      (s, off, e) # map (\<lambda>i. (s, off + DIR_ENTRY_SIZE + DIR_ENTRY_SIZE * i, es ! i)) [0..<length es]"
    by (simp add: map_upt_Suc add.assoc del: upt_Suc)
  then show ?case by (auto simp: Cons.IH split: flow.splits)
qed simp

lemma walk_sector_list:
  assumes "length (media d (ucast s)) = SECTOR_SIZE"
  shows "walk_entries body s 0 (chunks_exact DIR_ENTRY_SIZE (media d (ucast s))) acc =
    walk_list body (sector_slots d s) acc"
proof -
  have l: "length (media d (ucast s)) = DIR_ENTRY_SIZE * 16" "0 < DIR_ENTRY_SIZE"
    using assms by (simp_all add: SECTOR_SIZE_def DIR_ENTRY_SIZE_def)
  show ?thesis
    unfolding walk_entries_list sector_slots_def chunks_exact_eq_map [OF l(2,1)]
    by (intro arg_cong2 [where f = "walk_list body"] refl map_cong) auto
qed

lemma walk_sectors_list:
  assumes "fs_ok v d"
    and "\<forall>s \<in> set ss. unat s < unat (data_start_sector v) + unat (cluster_count v) * unat (sectors_per_cluster v)"
  shows "walk_sectors body d ss acc = Inr (walk_list body (concat (map (sector_slots d) ss)) acc)"
  using assms(2)
proof (induction ss arbitrary: acc)
  case (Cons s ss)
  have "rd s d = Inr (media d (ucast s))" using Cons.prems by (intro rd_ok [OF assms(1)]) simp
  then show ?case
    using Cons by (auto simp: walk_sector_list length_media [OF assms(1)] walk_list_append split: flow.splits)
qed simp

lemma walk_chain:
  assumes "fs_ok v d" "chain v d c cs" "length cs \<le> n"
  shows "walk_clusters body v d n c acc = Inr (walk_list body (slots v d cs) acc)"
  using assms(2,3)
proof (induction cs arbitrary: c n acc)
  case Nil
  then show ?case by (cases n) (auto simp: slots_def chain_sectors_def)
next
  case (Cons x cs)
  then obtain m where n: "n = Suc m" "length cs \<le> m" by (cases n) auto
  have x: "x = c" "valid_cluster v c" "chain v d (table v d c) cs" using Cons.prems(1) by auto
  have s: "walk_sectors body d (cluster_sectors v c) acc =
      Inr (walk_list body (concat (map (sector_slots d) (cluster_sectors v c))) acc)"
    using cluster_sectors_bounds(2) [OF fs_okD(1) [OF assms(1)] x(2)]
    by (intro walk_sectors_list [OF assms(1)]) auto
  show ?case
    using x n s Cons.IH [OF x(3) n(2)] next_cluster_ok [OF assms(1) x(2)]
    by (auto simp: slots_def chain_sectors_def walk_list_append split: flow.splits)
qed

lemma walk_dir:
  assumes "fs_ok v d" "chain v d c cs"
  shows "walk_clusters body v d (unat (cluster_count v)) c acc = Inr (walk_list body (slots v d cs) acc)"
  by (rule walk_chain [OF assms chain_length [OF fs_okD(1) [OF assms(1)] assms(2)]])

section \<open>What each walk finds\<close>

lemma live_simps:
  "live [] = []"
  "live (sl # sls) = (if unused sl then [] else if deleted sl \<or> skipped_attr (slot_entry sl ! 11)
     then live sls else sl # live sls)"
  by (simp_all add: live_def)

lemmas walk_body_defs = live_simps dir_find_def named_def deleted_def unused_def free_slot_def

lemma find_walk:
  "walk_list (find_body target) sls () =
     (case dir_find sls target of
        Some sl \<Rightarrow> Return (Some (decode_entry (slot_entry sl)))
      | None \<Rightarrow> if \<exists>sl \<in> set sls. unused sl then Return None else Continue ())"
  by (induction sls) (auto simp: find_body_def walk_body_defs)

lemma locate_walk:
  "walk_list (locate_body target) sls () =
     (case dir_find sls target of
        Some sl \<Rightarrow> Return (Some (fst sl, fst (snd sl), decode_entry (slot_entry sl)))
      | None \<Rightarrow> if \<exists>sl \<in> set sls. unused sl then Return None else Continue ())"
  by (induction sls) (auto simp: locate_body_def walk_body_defs)

lemma list_walk:
  "walk_list list_body sls items =
     (let r = items @ map (\<lambda>sl. \<lparr>item_name = name_83_to_string (take 11 (slot_entry sl)),
                item_is_dir = (slot_entry sl ! 11 AND ATTR_DIRECTORY \<noteq> 0)\<rparr>) (live sls)
      in if \<exists>sl \<in> set sls. unused sl then Return r else Continue r)"
  by (induction sls arbitrary: items) (auto simp: list_body_def walk_body_defs Let_def)

lemma slot_walk:
  "walk_list (slot_body target) sls ff =
     (case dir_find sls target of
        Some sl \<Rightarrow> Return (fst sl, fst (snd sl), Some (entry_cluster (slot_entry sl)))
      | None \<Rightarrow>
          (let ff' = (case ff of Some l \<Rightarrow> Some l | None \<Rightarrow> map_option slot_loc (free_slot sls))
           in if \<exists>sl \<in> set sls. unused sl then Return (fst (the ff'), snd (the ff'), None)
              else Continue ff'))"
  by (induction sls arbitrary: ff)
     (auto simp: slot_body_def walk_body_defs Let_def split: option.splits)

lemma find_in_dir_ok:
  assumes "fs_ok v d" "chain v d c cs"
  shows "find_in_dir v d c name =
    Inr (map_option (\<lambda>sl. decode_entry (slot_entry sl)) (dir_find (slots v d cs) (short_name_83 name)))"
  by (simp add: find_in_dir_def walk_dir [OF assms] find_walk split: option.splits)

lemma locate_entry_ok:
  assumes "fs_ok v d" "chain v d c cs"
  shows "locate_entry v d c name =
    Inr (map_option (\<lambda>sl. (fst sl, fst (snd sl), decode_entry (slot_entry sl)))
      (dir_find (slots v d cs) (short_name_83 name)))"
  by (simp add: locate_entry_def walk_dir [OF assms] locate_walk split: option.splits)

lemma list_dir_ok:
  assumes "fs_ok v d" "chain v d c cs"
  shows "list_dir v d c =
    Inr (map (\<lambda>sl. \<lparr>item_name = name_83_to_string (take 11 (slot_entry sl)),
                item_is_dir = (slot_entry sl ! 11 AND ATTR_DIRECTORY \<noteq> 0)\<rparr>) (live (slots v d cs)))"
  by (simp add: list_dir_def walk_dir [OF assms] list_walk Let_def)

lemma free_slot_unused: "\<exists>sl \<in> set sls. unused sl \<Longrightarrow> free_slot sls \<noteq> None"
  by (auto simp: free_slot_def find_None_iff)

lemma locate_or_free_slot_ok:
  assumes "fs_ok v d" "chain v d c cs"
  shows "locate_or_free_slot v d c target =
    (case dir_find (slots v d cs) target of
       Some sl \<Rightarrow> Inr (fst sl, fst (snd sl), Some (entry_cluster (slot_entry sl)))
     | None \<Rightarrow>
         (case free_slot (slots v d cs) of
            None \<Rightarrow> Inl DirFull
          | Some sl \<Rightarrow> Inr (fst sl, fst (snd sl), None)))"
proof (cases "free_slot (slots v d cs)")
  case None
  then have "\<not> (\<exists>sl \<in> set (slots v d cs). unused sl)" using free_slot_unused by blast
  with None show ?thesis
    by (simp add: locate_or_free_slot_def walk_dir [OF assms] slot_walk Let_def split: option.splits)
qed (auto simp: locate_or_free_slot_def walk_dir [OF assms] slot_walk Let_def split: option.splits)

section \<open>Directories as sets of live entries\<close>

text \<open>
  A directory is in order when nothing follows its terminator and no two live entries have the
  same name; \<open>mkdir\<close> establishes it and the other operations keep it.
\<close>

definition dir_ok :: "slot list \<Rightarrow> bool" where
  "dir_ok sls \<longleftrightarrow>
     list_all unused (dropWhile (\<lambda>sl. \<not> unused sl) sls) \<and>
     distinct (map (\<lambda>sl. take 11 (slot_entry sl)) (live sls))"

definition upd_slot :: "u32 \<times> nat \<Rightarrow> bytes \<Rightarrow> slot list \<Rightarrow> slot list" where
  "upd_slot l e sls = map (\<lambda>sl. if slot_loc sl = l then (fst l, snd l, e) else sl) sls"

lemma live_append: "\<forall>x \<in> set xs. \<not> unused x \<Longrightarrow> live (xs @ ys) = live xs @ live ys"
  by (induction xs) (auto simp: live_simps)

lemma live_all_unused: "list_all unused sls \<Longrightarrow> live sls = []"
  by (cases sls) (auto simp: live_simps)

lemma live_subset: "set (live sls) \<subseteq> set sls"
  by (auto simp: live_def dest: set_takeWhileD)

lemma in_live: "sl \<in> set (live sls) \<Longrightarrow> \<not> deleted sl \<and> \<not> unused sl \<and> \<not> skipped_attr (slot_entry sl ! 11)"
  by (auto simp: live_def dest: set_takeWhileD)

lemma live_split:
  "sl \<in> set (live sls) \<Longrightarrow> \<exists>xs ys. sls = xs @ sl # ys \<and> (\<forall>x \<in> set xs. \<not> unused x)"
proof (induction sls)
  case (Cons x sls)
  show ?case
  proof (cases "sl = x")
    case True
    then show ?thesis by (intro exI [of _ "[]"] exI [of _ sls]) simp
  next
    case False
    with Cons obtain xs ys where "sls = xs @ sl # ys" "\<forall>x \<in> set xs. \<not> unused x" "\<not> unused x"
      by (auto simp: live_simps split: if_splits)
    then show ?thesis by (intro exI [of _ "x # xs"] exI [of _ ys]) simp
  qed
qed (simp add: live_simps)

lemma dir_find_Some_iff:
  assumes "dir_ok sls"
  shows "dir_find sls t = Some sl \<longleftrightarrow> sl \<in> set (live sls) \<and> named t sl"
proof
  assume "dir_find sls t = Some sl"
  then show "sl \<in> set (live sls) \<and> named t sl"
    by (auto simp: dir_find_def find_Some_iff)
next
  assume r: "sl \<in> set (live sls) \<and> named t sl"
  then obtain sl' where sl': "dir_find sls t = Some sl'"
    unfolding dir_find_def by (metis find_None_iff2 not_None_eq)
  then have "sl' \<in> set (live sls)" "named t sl'" by (auto simp: dir_find_def find_Some_iff)
  moreover have "inj_on (\<lambda>sl. take 11 (slot_entry sl)) (set (live sls))"
    using assms by (simp add: dir_ok_def distinct_map)
  ultimately have "sl' = sl" using r by (auto simp: named_def dest: inj_onD)
  with sl' show "dir_find sls t = Some sl" by simp
qed

lemma dir_find_live: "dir_find sls t = Some sl \<Longrightarrow> sl \<in> set (live sls) \<and> named t sl"
  by (auto simp: dir_find_def find_Some_iff)

lemma dir_find_unique:
  "dir_ok sls \<Longrightarrow> dir_find sls t = Some sl \<Longrightarrow> x \<in> set (live sls) \<Longrightarrow> named t x \<Longrightarrow> x = sl"
  using dir_find_Some_iff [of sls t x] by simp

lemma dir_find_None_iff: "dir_find sls t = None \<longleftrightarrow> (\<forall>sl \<in> set (live sls). \<not> named t sl)"
  by (auto simp: dir_find_def find_None_iff)

lemma upd_slot_append: "upd_slot l e (xs @ ys) = upd_slot l e xs @ upd_slot l e ys"
  by (simp add: upd_slot_def)

lemma upd_slot_other: "l \<notin> slot_loc ` set sls \<Longrightarrow> upd_slot l e sls = sls"
  by (force simp: upd_slot_def intro!: map_idI)

lemma upd_slot_split:
  assumes "distinct (map slot_loc (xs @ sl # ys))"
  shows "upd_slot (slot_loc sl) e (xs @ sl # ys) = xs @ (fst sl, fst (snd sl), e) # ys"
proof -
  have "slot_loc sl \<notin> slot_loc ` set xs" "slot_loc sl \<notin> slot_loc ` set ys" using assms by auto
  then have "upd_slot (slot_loc sl) e xs = xs" "upd_slot (slot_loc sl) e ys = ys"
    by (auto intro!: upd_slot_other)
  then show ?thesis by (simp add: upd_slot_append) (simp add: upd_slot_def)
qed

definition live_entry :: "bytes \<Rightarrow> bool" where
  "live_entry e \<longleftrightarrow> e ! 0 \<noteq> 0 \<and> e ! 0 \<noteq> 0xE5 \<and> \<not> skipped_attr (e ! 11)"

lemma dropWhile_prefix: "\<forall>x \<in> set xs. P x \<Longrightarrow> dropWhile P (xs @ ys) = dropWhile P ys"
  by (induction xs) auto

lemma live_new: "live_entry e \<Longrightarrow> live ((s, o', e) # ys) = (s, o', e) # live ys"
  by (auto simp: live_entry_def live_simps unused_def deleted_def)

lemma put_found:
  assumes ok: "dir_ok sls" and dl: "distinct (map slot_loc sls)"
    and sl: "sl \<in> set (live sls)" and e: "live_entry e" "take 11 e = take 11 (slot_entry sl)"
  shows "dir_ok (upd_slot (slot_loc sl) e sls)"
    and "set (live (upd_slot (slot_loc sl) e sls)) =
      insert (fst sl, fst (snd sl), e) (set (live sls) - {sl})"
proof -
  from live_split [OF sl] obtain xs ys where
    sls: "sls = xs @ sl # ys" and xs: "\<forall>x \<in> set xs. \<not> unused x" by blast
  let ?new = "(fst sl, fst (snd sl), e)"
  have u: "upd_slot (slot_loc sl) e sls = xs @ ?new # ys"
    using upd_slot_split dl unfolding sls by blast
  have l: "live sls = live xs @ sl # live ys"
    using in_live [OF sl] by (simp add: sls live_append [OF xs] live_simps)
  have l': "live (xs @ ?new # ys) = live xs @ ?new # live ys"
    by (simp add: live_append [OF xs] live_new [OF e(1)])
  have "\<not> unused sl" "\<not> unused ?new" using in_live [OF sl] e(1) by (auto simp: unused_def live_entry_def)
  with ok e(2) l show "dir_ok (upd_slot (slot_loc sl) e sls)"
    unfolding u dir_ok_def l' by (simp add: sls dropWhile_prefix [OF xs])
  have "sl \<notin> set (live xs)" "sl \<notin> set (live ys)"
    using ok l by (auto simp: dir_ok_def)
  then show "set (live (upd_slot (slot_loc sl) e sls)) = insert ?new (set (live sls) - {sl})"
    unfolding u l' l by auto
qed

lemma clear_found:
  assumes ok: "dir_ok sls" and dl: "distinct (map slot_loc sls)"
    and sl: "sl \<in> set (live sls)" and e: "e ! 0 = 0xE5"
  shows "dir_ok (upd_slot (slot_loc sl) e sls)"
    and "set (live (upd_slot (slot_loc sl) e sls)) = set (live sls) - {sl}"
proof -
  from live_split [OF sl] obtain xs ys where
    sls: "sls = xs @ sl # ys" and xs: "\<forall>x \<in> set xs. \<not> unused x" by blast
  let ?new = "(fst sl, fst (snd sl), e)"
  have u: "upd_slot (slot_loc sl) e sls = xs @ ?new # ys"
    using upd_slot_split dl unfolding sls by blast
  have l: "live sls = live xs @ sl # live ys"
    using in_live [OF sl] by (simp add: sls live_append [OF xs] live_simps)
  have n: "deleted ?new" "\<not> unused ?new" using e by (auto simp: deleted_def unused_def)
  then have l': "live (xs @ ?new # ys) = live xs @ live ys"
    by (simp add: live_append [OF xs] live_simps)
  show "dir_ok (upd_slot (slot_loc sl) e sls)"
    using ok in_live [OF sl] n(2) l unfolding u dir_ok_def l' by (simp add: sls dropWhile_prefix [OF xs])
  have "sl \<notin> set (live xs)" "sl \<notin> set (live ys)"
    using ok l by (auto simp: dir_ok_def)
  then show "set (live (upd_slot (slot_loc sl) e sls)) = set (live sls) - {sl}"
    unfolding u l' l by auto
qed

lemma put_free:
  assumes ok: "dir_ok sls" and dl: "distinct (map slot_loc sls)"
    and sl: "free_slot sls = Some sl" and none: "dir_find sls t = None"
    and e: "live_entry e" "take 11 e = t"
  shows "dir_ok (upd_slot (slot_loc sl) e sls)"
    and "set (live (upd_slot (slot_loc sl) e sls)) = insert (fst sl, fst (snd sl), e) (set (live sls))"
proof -
  from sl obtain i where i: "i < length sls" "sls ! i = sl" "deleted sl \<or> unused sl"
    "\<forall>j < i. \<not> (deleted (sls ! j) \<or> unused (sls ! j))"
    by (auto simp: free_slot_def find_Some_iff)
  define xs ys where "xs = take i sls" and "ys = drop (Suc i) sls"
  have sls: "sls = xs @ sl # ys" using i(1,2) id_take_nth_drop xs_def ys_def by blast
  have xs: "\<forall>x \<in> set xs. \<not> unused x"
  proof
    fix x assume "x \<in> set xs"
    then obtain j where "j < i" "x = sls ! j" by (auto simp: xs_def in_set_conv_nth)
    with i(4) show "\<not> unused x" by blast
  qed
  let ?new = "(fst sl, fst (snd sl), e)"
  have u: "upd_slot (slot_loc sl) e sls = xs @ ?new # ys"
    using upd_slot_split dl unfolding sls by blast
  have tail: "list_all unused ys" if "unused sl"
    using ok that by (simp add: dir_ok_def sls dropWhile_prefix [OF xs])
  have l: "live sls = live xs @ live ys"
    using i(3) tail live_all_unused [of ys] by (auto simp: sls live_append [OF xs] live_simps)
  have l': "live (xs @ ?new # ys) = live xs @ ?new # live ys"
    by (simp add: live_append [OF xs] live_new [OF e(1)])
  have "list_all unused (dropWhile (\<lambda>sl. \<not> unused sl) ys)"
  proof (cases "unused sl")
    case True
    then show ?thesis using tail by (cases ys) auto
  next
    case False
    then show ?thesis using ok by (simp add: dir_ok_def sls dropWhile_prefix [OF xs])
  qed
  moreover have "\<not> unused ?new" using e(1) by (simp add: unused_def live_entry_def)
  moreover have "t \<notin> (\<lambda>sl. take 11 (slot_entry sl)) ` set (live xs @ live ys)"
    using none unfolding dir_find_None_iff l named_def by auto
  ultimately show "dir_ok (upd_slot (slot_loc sl) e sls)"
    using ok e(2) unfolding u dir_ok_def l' l by (auto simp: dropWhile_prefix [OF xs])
  show "set (live (upd_slot (slot_loc sl) e sls)) = insert ?new (set (live sls))"
    unfolding u l' l by auto
qed

section \<open>Writing a slot\<close>

lemma slot_in:
  "sl \<in> set (slots v d cs) \<longleftrightarrow>
     (\<exists>s i. s \<in> set (chain_sectors v cs) \<and> i < 16 \<and>
        sl = (s, DIR_ENTRY_SIZE * i, slice (DIR_ENTRY_SIZE * i) DIR_ENTRY_SIZE (media d (ucast s))))"
  (is "_ \<longleftrightarrow> (\<exists>s i. _ \<and> _ \<and> sl = ?sl s i)")
proof
  assume "sl \<in> set (slots v d cs)"
  then obtain s where s: "s \<in> set (chain_sectors v cs)" "sl \<in> set (sector_slots d s)"
    by (auto simp: slots_def)
  from s(2) obtain i where "i < 16" "sl = ?sl s i" unfolding sector_slots_def by auto
  with s(1) show "\<exists>s i. s \<in> set (chain_sectors v cs) \<and> i < 16 \<and> sl = ?sl s i" by blast
next
  assume "\<exists>s i. s \<in> set (chain_sectors v cs) \<and> i < 16 \<and> sl = ?sl s i"
  then obtain s i where s: "s \<in> set (chain_sectors v cs)" "i < 16" "sl = ?sl s i" by blast
  then have "sl \<in> set (sector_slots d s)" unfolding sector_slots_def by (auto intro!: image_eqI)
  with s(1) show "sl \<in> set (slots v d cs)" by (auto simp: slots_def)
qed

lemma slots_set_sector:
  assumes ok: "fs_ok v d" and i: "i < 16" and e: "length e = DIR_ENTRY_SIZE"
  shows "slots v (set_sector (ucast s) (put_at (DIR_ENTRY_SIZE * i) e (media d (ucast s))) d) cs =
    upd_slot (s, DIR_ENTRY_SIZE * i) e (slots v d cs)"
proof -
  let ?d = "set_sector (ucast s) (put_at (DIR_ENTRY_SIZE * i) e (media d (ucast s))) d"
  have l: "length (media d (ucast s)) = 512" using length_media [OF ok] by (simp add: SECTOR_SIZE_def)
  have "slice (DIR_ENTRY_SIZE * j) DIR_ENTRY_SIZE (put_at (DIR_ENTRY_SIZE * i) e (media d (ucast s))) =
      (if j = i then e else slice (DIR_ENTRY_SIZE * j) DIR_ENTRY_SIZE (media d (ucast s)))"
    if "j < 16" for j
  proof (cases "j = i")
    case False
    then have "DIR_ENTRY_SIZE * j + DIR_ENTRY_SIZE \<le> DIR_ENTRY_SIZE * i \<or>
        DIR_ENTRY_SIZE * i + DIR_ENTRY_SIZE \<le> DIR_ENTRY_SIZE * j"
      by (auto simp: DIR_ENTRY_SIZE_def)
    with False that i e l show ?thesis
      by (simp add: slice_put_at_other DIR_ENTRY_SIZE_def)
  qed (use i e l in \<open>simp add: DIR_ENTRY_SIZE_def\<close>)
  then have "sector_slots ?d x = upd_slot (s, DIR_ENTRY_SIZE * i) e (sector_slots d x)" for x
    by (auto simp: sector_slots_def upd_slot_def DIR_ENTRY_SIZE_def)
  then have "concat (map (sector_slots ?d) ss) =
      upd_slot (s, DIR_ENTRY_SIZE * i) e (concat (map (sector_slots d) ss))" for ss
    by (induction ss) (simp_all add: upd_slot_append, simp add: upd_slot_def)
  then show ?thesis by (simp add: slots_def)
qed

lemma distinct_chain_sectors:
  assumes "vol_ok v d" "distinct cs" "\<forall>c \<in> set cs. valid_cluster v c"
  shows "distinct (chain_sectors v cs)"
  using assms(2,3)
proof (induction cs)
  case (Cons c cs)
  then have "set (cluster_sectors v c) \<inter> set (chain_sectors v cs) = {}"
    using cluster_sectors_disjoint [OF assms(1), of c] by (fastforce simp: chain_sectors_def)
  with Cons distinct_cluster_sectors [OF assms(1), of c] show ?case
    by (auto simp: chain_sectors_def)
qed (simp add: chain_sectors_def)

lemma distinct_sector_slots:
  "distinct ss \<Longrightarrow> distinct (map slot_loc (concat (map (sector_slots d) ss)))"
proof (induction ss)
  case (Cons s ss)
  have "distinct (map slot_loc (sector_slots d s))"
    by (simp add: sector_slots_def comp_def distinct_map inj_on_def DIR_ENTRY_SIZE_def)
  moreover have f: "fst sl = x" if "sl \<in> set (sector_slots d x)" for sl x
    using that by (auto simp: sector_slots_def)
  have "set (map slot_loc (sector_slots d s)) \<inter> set (map slot_loc (concat (map (sector_slots d) ss))) = {}"
    using Cons.prems by (auto dest!: f)
  ultimately show ?case using Cons by simp
qed simp

lemma distinct_slots:
  assumes "vol_ok v d'" "chain v d c cs"
  shows "distinct (map slot_loc (slots v d2 cs))"
  using distinct_chain_sectors [OF assms(1) chain_distinct [OF assms(2)]] chain_valid [OF assms(2)]
  unfolding slots_def by (intro distinct_sector_slots) blast

section \<open>The bytes of an entry\<close>

lemma list_update_put_at: "i < length xs \<Longrightarrow> xs[i := y] = put_at i [y] xs"
  by (intro nth_equalityI) (auto simp: nth_put_at nth_list_update)

lemma split_u32:
  "push_bit 16 (ucast (ucast (drop_bit 16 c) :: u16)) OR ucast (ucast (c AND 0xFFFF) :: u16) = (c :: u32)"
proof -
  have m: "(0xFFFF :: u32) = mask 16" by (simp add: mask_eq_exp_minus_1)
  show ?thesis unfolding m by (intro bit_word_eqI) (auto simp: bit_simps)
qed

lemma length_fill [simp]:
  "length entry = DIR_ENTRY_SIZE \<Longrightarrow> length name = 11 \<Longrightarrow>
   length (fill_dir_entry entry name attr c sz) = DIR_ENTRY_SIZE"
  by (simp add: fill_dir_entry_def Let_def DIR_ENTRY_SIZE_def)

lemma fill_slices:
  assumes "length entry = DIR_ENTRY_SIZE" "length name = 11"
  shows "slice 0 11 (fill_dir_entry entry name attr c sz) = name"
    and "slice 11 1 (fill_dir_entry entry name attr c sz) = [attr]"
    and "slice 20 2 (fill_dir_entry entry name attr c sz) = le_bytes 2 (ucast (drop_bit 16 c) :: u16)"
    and "slice 26 2 (fill_dir_entry entry name attr c sz) = le_bytes 2 (ucast (c AND 0xFFFF) :: u16)"
    and "slice 28 4 (fill_dir_entry entry name attr c sz) = le_bytes 4 sz"
  using assms
  by (simp_all add: fill_dir_entry_def Let_def DIR_ENTRY_SIZE_def list_update_put_at slice_put_at_other)

lemma fill_fields:
  assumes "length entry = DIR_ENTRY_SIZE" "length name = 11"
  shows "take 11 (fill_dir_entry entry name attr c sz) = name"
    and "fill_dir_entry entry name attr c sz ! 0 = name ! 0"
    and "fill_dir_entry entry name attr c sz ! 11 = attr"
    and "entry_cluster (fill_dir_entry entry name attr c sz) = c"
    and "decode_entry (fill_dir_entry entry name attr c sz) =
      \<lparr>de_first_cluster = c, de_size = sz, de_is_dir = (attr AND ATTR_DIRECTORY \<noteq> 0)\<rparr>"
proof -
  let ?f = "fill_dir_entry entry name attr c sz"
  have l: "length ?f = 32" using assms by (simp add: DIR_ENTRY_SIZE_def)
  show t: "take 11 ?f = name" using fill_slices(1) [OF assms] by (simp add: slice_def)
  have "take 11 ?f ! 0 = ?f ! 0" by simp
  then show "?f ! 0 = name ! 0" unfolding t by simp
  have "slice 11 1 ?f ! 0 = ?f ! 11" using l by simp
  then show a: "?f ! 11 = attr" unfolding fill_slices(2) [OF assms] by simp
  show e: "entry_cluster ?f = c"
    by (simp add: entry_cluster_def Let_def read_u16_def fill_slices [OF assms] from_le_le_bytes split_u32)
  show "decode_entry ?f =
      \<lparr>de_first_cluster = c, de_size = sz, de_is_dir = (attr AND ATTR_DIRECTORY \<noteq> 0)\<rparr>"
    by (simp add: decode_entry_def e a read_u32_def fill_slices [OF assms] from_le_le_bytes)
qed

lemma length_short_name [simp]: "length (short_name_83 name) = 11"
  by (simp add: short_name_83_def Let_def)

section \<open>Writing and clearing an entry on the disk\<close>

definition slot_write :: "slot \<Rightarrow> bytes \<Rightarrow> disk \<Rightarrow> disk" where
  "slot_write sl e d =
     set_sector (ucast (fst sl)) (put_at (fst (snd sl)) e (media d (ucast (fst sl)))) d"

lemma slot_facts:
  assumes ok: "fs_ok v d" and ch: "chain v d c cs" and sl: "sl \<in> set (slots v d cs)"
  obtains i x where "i < 16" "fst (snd sl) = DIR_ENTRY_SIZE * i"
    "slot_entry sl = slice (DIR_ENTRY_SIZE * i) DIR_ENTRY_SIZE (media d (ucast (fst sl)))"
    "length (slot_entry sl) = DIR_ENTRY_SIZE"
    "x \<in> set cs" "valid_cluster v x" "fst sl \<in> set (cluster_sectors v x)"
    "rd (fst sl) d = Inr (media d (ucast (fst sl)))"
    "\<And>b. wr (fst sl) b d = (Inr (), set_sector (ucast (fst sl)) b d)"
proof -
  from sl obtain i where i: "fst sl \<in> set (chain_sectors v cs)" "i < 16" "fst (snd sl) = DIR_ENTRY_SIZE * i"
    "slot_entry sl = slice (DIR_ENTRY_SIZE * i) DIR_ENTRY_SIZE (media d (ucast (fst sl)))"
    by (auto simp: slot_in)
  have "length (slot_entry sl) = DIR_ENTRY_SIZE"
    using i(2,4) length_media [OF ok] by (simp add: DIR_ENTRY_SIZE_def SECTOR_SIZE_def)
  moreover from i(1) obtain x where x: "x \<in> set cs" "fst sl \<in> set (cluster_sectors v x)"
    by (auto simp: chain_sectors_def)
  moreover note b = cluster_sectors_bounds(2) [OF fs_okD(1) [OF ok] chain_valid [OF ch x(1)] x(2)]
  ultimately show thesis
    using that [OF i(2-4)] rd_ok [OF ok b] wr_ok [OF ok b] chain_valid [OF ch x(1)] by blast
qed

lemma slot_write_ok:
  assumes ok: "fs_ok v d" and ch: "chain v d c cs" and sl: "sl \<in> set (slots v d cs)"
    and e: "length e = DIR_ENTRY_SIZE"
  shows "fs_ok v (slot_write sl e d)"
    and "slots v (slot_write sl e d) cs' = upd_slot (slot_loc sl) e (slots v d cs')"
proof -
  obtain i where i: "i < 16" "fst (snd sl) = DIR_ENTRY_SIZE * i"
    using slot_facts [OF ok ch sl] by blast
  have l: "length (media d (ucast (fst sl))) = 512" using length_media [OF ok] by (simp add: SECTOR_SIZE_def)
  show "fs_ok v (slot_write sl e d)"
    unfolding slot_write_def using e i l
    by (intro fs_ok_set [OF ok]) (simp add: SECTOR_SIZE_def DIR_ENTRY_SIZE_def)
  show "slots v (slot_write sl e d) cs' = upd_slot (slot_loc sl) e (slots v d cs')"
    unfolding slot_write_def i(2) using slots_set_sector [OF ok i(1) e] by simp
qed

lemma write_dir_entry_ok:
  assumes "fs_ok v d" "chain v d c cs" "sl \<in> set (slots v d cs)"
  shows "write_dir_entry (fst sl) (fst (snd sl)) name attr k sz d =
    (Inr (), slot_write sl (fill_dir_entry (slot_entry sl) name attr k sz) d)"
  by (rule slot_facts [OF assms]) (simp add: write_dir_entry_def reads_def ebind_def slot_write_def)

lemma clear_dir_entry_ok:
  assumes "fs_ok v d" "chain v d c cs" "sl \<in> set (slots v d cs)"
  shows "clear_dir_entry (fst sl) (fst (snd sl)) d = (Inr (), slot_write sl ((slot_entry sl)[0 := 0xE5]) d)"
proof (rule slot_facts [OF assms])
  fix i assume i: "i < 16" "fst (snd sl) = DIR_ENTRY_SIZE * i"
    "slot_entry sl = slice (DIR_ENTRY_SIZE * i) DIR_ENTRY_SIZE (media d (ucast (fst sl)))"
    and r: "rd (fst sl) d = Inr (media d (ucast (fst sl)))"
      "\<And>b. wr (fst sl) b d = (Inr (), set_sector (ucast (fst sl)) b d)"
  have l: "length (media d (ucast (fst sl))) = 512"
    using length_media [OF assms(1)] by (simp add: SECTOR_SIZE_def)
  have "(media d (ucast (fst sl)))[fst (snd sl) := 0xE5] =
      put_at (fst (snd sl)) ((slot_entry sl)[0 := 0xE5]) (media d (ucast (fst sl)))"
    unfolding i(2,3) using i(1) l
    by (intro nth_equalityI) (auto simp: nth_put_at nth_list_update DIR_ENTRY_SIZE_def)
  with r show ?thesis by (simp add: clear_dir_entry_def reads_def ebind_def slot_write_def)
qed

end
