(* ===== verification/Fat_Data.thy ===== *)
theory Fat_Data
  imports Fat_Dir
begin

text \<open>
  Contents of a chain: \<open>read_entry\<close> returns the bytes of the chain's sectors cut to the size of
  the entry, \<open>write_chain\<close> puts the data into exactly these sectors.
\<close>

definition chain_bytes :: "Fat32 \<Rightarrow> disk \<Rightarrow> u32 list \<Rightarrow> bytes" where
  "chain_bytes v d cs = concat (map (\<lambda>s. media d (ucast s)) (chain_sectors v cs))"

definition cluster_bytes :: "Fat32 \<Rightarrow> nat" where
  "cluster_bytes v = unat (sectors_per_cluster v) * SECTOR_SIZE"

text \<open>\<open>d'\<close> differs from \<open>d\<close> in the sectors \<open>ss\<close> only.\<close>

definition only_sectors :: "Fat32 \<Rightarrow> u32 list \<Rightarrow> disk \<Rightarrow> disk \<Rightarrow> bool" where
  "only_sectors v ss d d' \<longleftrightarrow> fs_ok v d' \<and> same_device d d' \<and>
     (\<forall>lba. lba \<notin> ucast ` set ss \<longrightarrow> media d' lba = media d lba)"

definition data_sectors :: "Fat32 \<Rightarrow> u32 set" where
  "data_sectors v = (\<Union>c \<in> {c. valid_cluster v c}. set (cluster_sectors v c))"

lemma only_sectors_ok: "only_sectors v ss d d' \<Longrightarrow> fs_ok v d'"
  by (simp add: only_sectors_def)

lemma only_sectors_refl [simp]: "fs_ok v d \<Longrightarrow> only_sectors v ss d d"
  by (simp add: only_sectors_def)

lemma only_sectors_trans:
  "only_sectors v ss a b \<Longrightarrow> only_sectors v ss b c \<Longrightarrow> only_sectors v ss a c"
  by (auto simp: only_sectors_def intro: same_device_trans)

lemma only_sectors_mono: "only_sectors v ss d d' \<Longrightarrow> set ss \<subseteq> set ss' \<Longrightarrow> only_sectors v ss' d d'"
  by (auto simp: only_sectors_def)

lemma only_sectors_media:
  assumes "only_sectors v ss d d'" "x \<notin> set ss"
  shows "media d' (ucast x) = media d (ucast x)"
proof -
  have "(ucast x :: u64) \<notin> ucast ` set ss" using assms(2) by auto
  with assms(1) show ?thesis by (simp add: only_sectors_def)
qed

lemma only_sectors_table:
  assumes "fs_ok v d" "only_sectors v ss d d'" "set ss \<subseteq> data_sectors v"
  shows "table v d' = table v d"
proof
  fix c
  show "table v d' c = table v d c"
  proof (cases "valid_cluster v c")
    case True
    have z: "unat (0 :: u32) < unat (num_fats v)"
      using fs_okD(1) [OF assms(1)] by (simp add: vol_ok_def unat_gt_0)
    have "fat_sec v 0 c \<notin> data_sectors v"
      using fat_sec_not_data [OF fs_okD(1) [OF assms(1)] True z] unfolding data_sectors_def by blast
    then have "fat_sec v 0 c \<notin> set ss" using assms(3) by blast
    then show ?thesis using only_sectors_media [OF assms(2)] by (simp add: table_def fat_get_def)
  qed (simp add: table_def)
qed

lemma chain_sectors_data: "\<forall>c \<in> set cs. valid_cluster v c \<Longrightarrow> set (chain_sectors v cs) \<subseteq> data_sectors v"
  by (auto simp: chain_sectors_def data_sectors_def)

lemma data_sector_bound:
  "vol_ok v d \<Longrightarrow> x \<in> data_sectors v \<Longrightarrow>
   unat x < unat (data_start_sector v) + unat (cluster_count v) * unat (sectors_per_cluster v)"
  by (auto simp: data_sectors_def dest: cluster_sectors_bounds(2))

lemma length_chain_sectors: "length (chain_sectors v cs) = length cs * unat (sectors_per_cluster v)"
  by (induction cs) (auto simp: chain_sectors_def)

lemma length_concat_media:
  "fs_ok v d \<Longrightarrow> length (concat (map (\<lambda>s. media d (ucast s)) ss)) = length ss * SECTOR_SIZE"
  by (induction ss) (auto simp: length_media)

lemma length_chain_bytes: "fs_ok v d \<Longrightarrow> length (chain_bytes v d cs) = length cs * cluster_bytes v"
  by (simp add: chain_bytes_def length_concat_media length_chain_sectors cluster_bytes_def)

section \<open>Reading\<close>

lemma read_sectors_ok:
  assumes "fs_ok v d" "set ss \<subseteq> data_sectors v"
  shows "read_sectors d ss r data =
    Inr (r - length ss * SECTOR_SIZE, data @ take r (concat (map (\<lambda>s. media d (ucast s)) ss)))"
  using assms(2)
proof (induction ss arbitrary: r data)
  case (Cons s ss)
  show ?case
  proof (cases "r = 0")
    case False
    have "rd s d = Inr (media d (ucast s))"
      using Cons.prems data_sector_bound [OF fs_okD(1) [OF assms(1)]] by (intro rd_ok [OF assms(1)]) simp
    then show ?thesis
      using False Cons by (simp add: Let_def length_media [OF assms(1)] min_def diff_diff_add)
  qed simp
qed simp

lemma read_loop_ok:
  assumes ok: "fs_ok v d" and "chain v d c cs" "r \<le> length cs * cluster_bytes v"
  shows "read_loop v d c r data = Inr (data @ take r (chain_bytes v d cs))"
  using assms(2,3)
proof (induction cs arbitrary: c r data)
  case Nil
  then show ?case by (subst read_loop.simps) simp
next
  case (Cons x cs)
  then have x: "x = c" "valid_cluster v c" "chain v d (table v d c) cs" by auto
  let ?b = "concat (map (\<lambda>s. media d (ucast s)) (cluster_sectors v c))"
  show ?case
  proof (cases "r = 0")
    case True
    then show ?thesis by (subst read_loop.simps) simp
  next
    case False
    have sp: "sectors_per_cluster v \<noteq> 0" using fs_okD(1) [OF ok] by (simp add: vol_ok_def)
    have "set (cluster_sectors v c) \<subseteq> data_sectors v" using x(2) by (auto simp: data_sectors_def)
    then have rs: "read_sectors d (cluster_sectors v c) r data = Inr (r - cluster_bytes v, data @ take r ?b)"
      by (simp add: read_sectors_ok [OF ok] cluster_bytes_def)
    have "r - cluster_bytes v \<le> length cs * cluster_bytes v" using Cons.prems(2) by simp
    note ih = Cons.IH [OF x(3) this, of "data @ take r ?b"]
    have "read_loop v d c r data = Inr ((data @ take r ?b) @ take (r - cluster_bytes v) (chain_bytes v d cs))"
      using False sp x(2) rs ih next_cluster_ok [OF ok x(2)] by (subst read_loop.simps) simp
    moreover have "length ?b = cluster_bytes v"
      by (simp add: length_concat_media [OF ok] cluster_bytes_def)
    ultimately show ?thesis by (simp add: chain_bytes_def chain_sectors_def x(1))
  qed
qed

lemma read_entry_ok:
  assumes "fs_ok v d" "chain v d (de_first_cluster e) cs" "unat (de_size e) \<le> length cs * cluster_bytes v"
  shows "read_entry v d e = Inr (take (unat (de_size e)) (chain_bytes v d cs))"
  by (simp add: read_entry_def read_loop_ok [OF assms])

section \<open>Writing\<close>

lemma put_at_prefix: "length ys \<le> length xs \<Longrightarrow> put_at 0 ys xs = ys @ drop (length ys) xs"
  by (simp add: put_at_def)

lemma take_sector:
  assumes "w + n \<le> length data" "n = min (length data - w) k"
    and "b = put_at 0 (slice w n data) (replicate k z)"
    and "take (length data - (w + n)) bs = take m (drop (w + n) data)"
  shows "take (length data - w) (b @ bs) = take (k + m) (drop w data)"
proof (cases "n = k")
  case True
  have "length (slice w n data) = k" using assms(1) True by simp
  then have b: "b = slice w k data" using assms(3) True by (simp add: put_at_prefix)
  have "take (k + m) (drop w data) = take k (drop w data) @ take m (drop (w + k) data)"
    by (simp add: take_add add.commute)
  moreover have "length b = k" "k \<le> length data - w" using assms(1) True b by auto
  then have "take (length data - w) (b @ bs) = b @ take (length data - (w + k)) bs" by simp
  ultimately show ?thesis using assms(4) True b by (simp add: slice_def)
next
  case False
  then have n: "n = length data - w" "n < k" using assms(2) by auto
  have "slice w n data = drop w data" using n by (simp add: slice_def)
  moreover have "length (slice w n data) = n" using assms(1) by simp
  ultimately show ?thesis using n assms(3) by (simp add: put_at_prefix)
qed

lemma write_sectors_ok:
  assumes "fs_ok v d" "set ss \<subseteq> data_sectors v" "distinct ss" "w \<le> length data"
  shows "\<exists>d'. write_sectors ss data w d = (Inr (min (length data) (w + length ss * SECTOR_SIZE)), d') \<and>
    only_sectors v ss d d' \<and>
    take (length data - w) (concat (map (\<lambda>s. media d' (ucast s)) ss)) =
      take (length ss * SECTOR_SIZE) (drop w data)"
  using assms
proof (induction ss arbitrary: d w)
  case (Cons s ss)
  show ?case
  proof (cases "w = length data")
    case True
    with Cons.prems(1) show ?thesis by (simp add: ret_def)
  next
    case False
    define n where "n = min (length data - w) SECTOR_SIZE"
    define b where "b = put_at 0 (slice w n data) (replicate SECTOR_SIZE 0)"
    let ?d = "set_sector (ucast s) b d"
    have n: "w + n \<le> length data" "n \<le> SECTOR_SIZE" "length (slice w n data) = n"
      using Cons.prems(4) by (auto simp: n_def)
    then have lb: "length b = SECTOR_SIZE" by (simp add: b_def)
    have ok: "fs_ok v ?d" by (rule fs_ok_set [OF Cons.prems(1) lb])
    have wr: "wr s b d = (Inr (), ?d)"
      using Cons.prems data_sector_bound [OF fs_okD(1) [OF Cons.prems(1)]]
      by (intro wr_ok [OF Cons.prems(1)]) simp
    from Cons.IH [OF ok _ _ n(1)] Cons.prems obtain d' where
      d': "write_sectors ss data (w + n) ?d = (Inr (min (length data) (w + n + length ss * SECTOR_SIZE)), d')"
      "only_sectors v ss ?d d'"
      "take (length data - (w + n)) (concat (map (\<lambda>s. media d' (ucast s)) ss)) =
        take (length ss * SECTOR_SIZE) (drop (w + n) data)" by auto
    have "write_sectors (s # ss) data w d = write_sectors ss data (w + n) ?d"
      using False Cons.prems(4) wr by (simp add: Let_def n_def b_def)
    moreover have "min (length data) (w + n + length ss * SECTOR_SIZE) =
        min (length data) (w + length (s # ss) * SECTOR_SIZE)"
      using Cons.prems(4) by (simp add: n_def)
    moreover have "only_sectors v (s # ss) d d'"
    proof -
      have "same_device ?d d'" using d'(2) by (simp add: only_sectors_def)
      from same_device_trans [OF same_device_set this] show ?thesis
        using d'(2) by (simp add: only_sectors_def)
    qed
    moreover have "media d' (ucast s) = b"
      using only_sectors_media [OF d'(2)] Cons.prems(3) by simp
    moreover have "take (length data - w) (b @ concat (map (\<lambda>s. media d' (ucast s)) ss)) =
        take (length (s # ss) * SECTOR_SIZE) (drop w data)"
      using take_sector [OF n(1) n_def b_def d'(3)] by simp
    ultimately show ?thesis using d'(1) by (intro exI [of _ d']) simp
  qed
qed (simp add: ret_def)

lemma take_cluster:
  assumes "take (length data - w) b = take k (drop w data)" "length b = k" "w \<le> length data"
    and "w' = min (length data) (w + k)" "take (length data - w') bs = take m (drop w' data)"
  shows "take (length data - w) (b @ bs) = take (k + m) (drop w data)"
proof (cases "w + k \<le> length data")
  case True
  then have "w' = w + k" using assms(4) by simp
  moreover have "take (length data - w) (b @ bs) = take (length data - w) b @ take (length data - (w + k)) bs"
    using assms(2) by simp
  ultimately show ?thesis using assms(1,5) by (simp add: take_add add.commute)
next
  case False
  then have "take (length data - w) (b @ bs) = take (length data - w) b" using assms(2) by simp
  then show ?thesis using False assms(1) by simp
qed

lemma write_loop_ok:
  assumes "fs_ok v d" "chain v d c cs" "length cs \<le> n" "w \<le> length data"
  shows "\<exists>d'. write_loop v data n c w d = (Inr (), d') \<and> only_sectors v (chain_sectors v cs) d d' \<and>
    take (length data - w) (chain_bytes v d' cs) = take (length cs * cluster_bytes v) (drop w data)"
  using assms
proof (induction cs arbitrary: d c n w)
  case Nil
  then show ?case by (cases n) (auto simp: ret_def chain_bytes_def chain_sectors_def)
next
  case (Cons x cs)
  then obtain m where n: "n = Suc m" "length cs \<le> m" by (cases n) auto
  have x: "x = c" "valid_cluster v c" "chain v d (table v d c) cs" using Cons.prems(2) by auto
  show ?case
  proof (cases "w = length data")
    case True
    with n Cons.prems(1) show ?thesis by (simp add: ret_def)
  next
    case False
    note vo = fs_okD(1) [OF Cons.prems(1)]
    have cd: "set (cluster_sectors v c) \<subseteq> data_sectors v" using x(2) by (auto simp: data_sectors_def)
    let ?w = "min (length data) (w + unat (sectors_per_cluster v) * SECTOR_SIZE)"
    from write_sectors_ok [OF Cons.prems(1) cd distinct_cluster_sectors [OF vo x(2)] Cons.prems(4)]
    obtain d1 where d1: "write_sectors (cluster_sectors v c) data w d = (Inr ?w, d1)"
      "only_sectors v (cluster_sectors v c) d d1"
      "take (length data - w) (concat (map (\<lambda>s. media d1 (ucast s)) (cluster_sectors v c))) =
        take (cluster_bytes v) (drop w data)" by (auto simp: cluster_bytes_def)
    have t: "table v d1 = table v d" by (rule only_sectors_table [OF Cons.prems(1) d1(2) cd])
    note ok1 = only_sectors_ok [OF d1(2)]
    have "chain v d1 (table v d c) cs" using x(3) by (simp add: t)
    from Cons.IH [OF ok1 this n(2), of ?w] obtain d2 where
      d2: "write_loop v data m (table v d c) ?w d1 = (Inr (), d2)" "only_sectors v (chain_sectors v cs) d1 d2"
      "take (length data - ?w) (chain_bytes v d2 cs) = take (length cs * cluster_bytes v) (drop ?w data)"
      by auto
    have "write_loop v data n c w d = (Inr (), d2)"
      using n False Cons.prems(4) x(2) d1(1) d2(1) next_cluster_ok [OF ok1 x(2)]
      by (simp add: reads_def t)
    moreover have "only_sectors v (chain_sectors v (x # cs)) d d2"
      using only_sectors_mono [OF d1(2), of "chain_sectors v (x # cs)"]
        only_sectors_mono [OF d2(2), of "chain_sectors v (x # cs)"]
      by (intro only_sectors_trans [of v _ d d1 d2]) (auto simp: chain_sectors_def x(1))
    moreover have "concat (map (\<lambda>s. media d2 (ucast s)) (cluster_sectors v c)) =
        concat (map (\<lambda>s. media d1 (ucast s)) (cluster_sectors v c))"
    proof -
      have "distinct (chain_sectors v (x # cs))"
        using distinct_chain_sectors [OF vo chain_distinct [OF Cons.prems(2)]] chain_valid [OF Cons.prems(2)]
        by blast
      then have "\<forall>s \<in> set (cluster_sectors v c). s \<notin> set (chain_sectors v cs)"
        by (auto simp: chain_sectors_def x(1))
      then show ?thesis
        using only_sectors_media [OF d2(2)] by (intro arg_cong [where f = concat] map_cong) auto
    qed
    moreover have "length (concat (map (\<lambda>s. media d1 (ucast s)) (cluster_sectors v c))) = cluster_bytes v"
      by (simp add: length_concat_media [OF ok1] cluster_bytes_def)
    ultimately show ?thesis
      using take_cluster [OF d1(3) _ Cons.prems(4) _ d2(3)]
      by (intro exI [of _ d2]) (simp add: chain_bytes_def chain_sectors_def x(1) cluster_bytes_def)
  qed
qed

lemma write_chain_ok:
  assumes "fs_ok v d" "chain v d first cs" "length data \<le> length cs * cluster_bytes v"
  obtains d' where "write_chain v first data d = (Inr (), d')"
    "only_sectors v (chain_sectors v cs) d d'" "take (length data) (chain_bytes v d' cs) = data"
  using write_loop_ok [OF assms(1,2) chain_length [OF fs_okD(1) [OF assms(1)] assms(2)], of 0 data] assms(3)
  by (auto simp: write_chain_def)

end
