(* ===== verification/Fat_Tree.thy ===== *)
theory Fat_Tree
  imports Fat_Data
begin

text \<open>
  The invariant of a whole volume. \<open>own\<close> gives every object (file or directory) the chain it
  owns, \<open>dirs\<close> says which objects are directories. Chains are allocated and pairwise disjoint,
  every directory is in order, every entry refers to an object of the right kind, and no two
  entries share one. The small steps the operations of \<open>src/fs/fat.rs\<close> are made of keep it.
\<close>

section \<open>The invariant\<close>

definition dot_slot :: "slot \<Rightarrow> bool" where
  "dot_slot sl \<longleftrightarrow> slot_entry sl ! 0 = 0x2E"

definition dslots :: "Fat32 \<Rightarrow> disk \<Rightarrow> (u32 \<rightharpoonup> u32 list) \<Rightarrow> u32 \<Rightarrow> slot list" where
  "dslots v d own c = slots v d (the (own c))"

definition entries :: "Fat32 \<Rightarrow> disk \<Rightarrow> (u32 \<rightharpoonup> u32 list) \<Rightarrow> u32 set \<Rightarrow> slot set" where
  "entries v d own dirs = {sl \<in> \<Union>c \<in> dirs. set (live (dslots v d own c)). \<not> dot_slot sl}"

definition refs :: "slot set \<Rightarrow> slot set" where
  "refs es = {sl \<in> es. entry_cluster (slot_entry sl) \<noteq> 0}"

definition entry_ok :: "Fat32 \<Rightarrow> (u32 \<rightharpoonup> u32 list) \<Rightarrow> u32 set \<Rightarrow> bytes \<Rightarrow> bool" where
  "entry_ok v own dirs e \<longleftrightarrow>
     (let de = decode_entry e; k = entry_cluster e in
        k \<noteq> root_cluster v \<and>
        (if de_is_dir de then k \<in> dirs
         else k = 0 \<and> de_size de = 0 \<or>
              k \<notin> dirs \<and> (\<exists>cs. own k = Some cs \<and> unat (de_size de) \<le> length cs * cluster_bytes v)))"

definition objects_ok :: "Fat32 \<Rightarrow> disk \<Rightarrow> (u32 \<rightharpoonup> u32 list) \<Rightarrow> bool" where
  "objects_ok v d own \<longleftrightarrow>
     (\<forall>c cs. own c = Some cs \<longrightarrow> cs \<noteq> [] \<and> chain v d c cs \<and> set cs \<inter> free_set v d = {}) \<and>
     (\<forall>c cs c' cs'. own c = Some cs \<longrightarrow> own c' = Some cs' \<longrightarrow> c \<noteq> c' \<longrightarrow> set cs \<inter> set cs' = {})"

lemma objects_okI:
  assumes "\<And>c cs. own c = Some cs \<Longrightarrow> cs \<noteq> [] \<and> chain v d c cs \<and> set cs \<inter> free_set v d = {}"
    and "\<And>c cs c' cs'. own c = Some cs \<Longrightarrow> own c' = Some cs' \<Longrightarrow> c \<noteq> c' \<Longrightarrow> set cs \<inter> set cs' = {}"
  shows "objects_ok v d own"
  using assms unfolding objects_ok_def by metis

definition vol_inv :: "Fat32 \<Rightarrow> disk \<Rightarrow> (u32 \<rightharpoonup> u32 list) \<Rightarrow> u32 set \<Rightarrow> bool" where
  "vol_inv v d own dirs \<longleftrightarrow>
     fs_ok v d \<and> root_cluster v \<in> dirs \<and> dirs \<subseteq> dom own \<and> objects_ok v d own \<and>
     (\<forall>c \<in> dirs. dir_ok (dslots v d own c)) \<and>
     (\<forall>sl \<in> entries v d own dirs. entry_ok v own dirs (slot_entry sl)) \<and>
     inj_on (\<lambda>sl. entry_cluster (slot_entry sl)) (refs (entries v d own dirs))"

lemma vol_invD:
  assumes "vol_inv v d own dirs"
  shows "fs_ok v d" "root_cluster v \<in> dirs" "dirs \<subseteq> dom own" "objects_ok v d own"
    "c \<in> dirs \<Longrightarrow> dir_ok (dslots v d own c)"
    "sl \<in> entries v d own dirs \<Longrightarrow> entry_ok v own dirs (slot_entry sl)"
    "inj_on (\<lambda>sl. entry_cluster (slot_entry sl)) (refs (entries v d own dirs))"
  using assms by (auto simp: vol_inv_def)

lemma objectD:
  assumes "vol_inv v d own dirs" "own c = Some cs"
  shows "cs \<noteq> []" "chain v d c cs" "set cs \<inter> free_set v d = {}" "c \<in> set cs" "valid_cluster v c" "c \<noteq> 0"
proof -
  show ch: "cs \<noteq> []" "chain v d c cs" "set cs \<inter> free_set v d = {}"
    using vol_invD(4) [OF assms(1)] assms(2) by (auto simp: objects_ok_def)
  then show "c \<in> set cs" using chain_hd by fastforce
  then show "valid_cluster v c" using chain_valid [OF ch(2)] by blast
  then show "c \<noteq> 0" using EOC_invalid(2) by auto
qed

lemma object_disjoint:
  "vol_inv v d own dirs \<Longrightarrow> own c = Some cs \<Longrightarrow> own c' = Some cs' \<Longrightarrow> c \<noteq> c' \<Longrightarrow> set cs \<inter> set cs' = {}"
  unfolding vol_inv_def objects_ok_def by blast

lemma dir_chain:
  assumes "vol_inv v d own dirs" "c \<in> dirs"
  obtains cs where "own c = Some cs" "chain v d c cs" "dslots v d own c = slots v d cs"
    "dir_ok (slots v d cs)" "distinct (map slot_loc (slots v d cs))"
proof -
  from assms vol_invD(3) obtain cs where cs: "own c = Some cs" by blast
  have "dir_ok (dslots v d own c)" by (rule vol_invD(5) [OF assms])
  with cs that objectD(2) [OF assms(1) cs] distinct_slots [OF fs_okD(1) [OF vol_invD(1) [OF assms(1)]] objectD(2) [OF assms(1) cs]]
  show thesis by (simp add: dslots_def)
qed

lemma chain_sectors_disjoint:
  assumes "vol_ok v d" "\<forall>c \<in> set cs \<union> set cs'. valid_cluster v c" "set cs \<inter> set cs' = {}"
  shows "set (chain_sectors v cs) \<inter> set (chain_sectors v cs') = {}"
proof -
  have False if "x \<in> set (cluster_sectors v a)" "x \<in> set (cluster_sectors v b)" "a \<in> set cs" "b \<in> set cs'" for x a b
    using cluster_sectors_disjoint [OF assms(1), of a b] assms(2,3) that by blast
  then show ?thesis by (auto simp: chain_sectors_def)
qed

lemma slots_cong:
  assumes "\<And>s. s \<in> set (chain_sectors v cs) \<Longrightarrow> media d' (ucast s) = media d (ucast s)"
  shows "slots v d' cs = slots v d cs" and "chain_bytes v d' cs = chain_bytes v d cs"
  using assms
  by (auto simp: slots_def sector_slots_def chain_bytes_def intro!: arg_cong [where f = concat] map_cong)

text \<open>Nothing of the tree changes when only the table does.\<close>

lemma only_table_slots:
  assumes "only_table v d d'" "\<forall>c \<in> set cs. valid_cluster v c"
  shows "slots v d' cs = slots v d cs" and "chain_bytes v d' cs = chain_bytes v d cs"
proof -
  have "media d' (ucast s) = media d (ucast s)" if "s \<in> set (chain_sectors v cs)" for s
    using that assms(2) only_table_media [OF assms(1)] unfolding chain_sectors_def by force
  then show "slots v d' cs = slots v d cs" and "chain_bytes v d' cs = chain_bytes v d cs"
    by (auto intro: slots_cong)
qed

lemma object_valid: "vol_inv v d own dirs \<Longrightarrow> own c = Some cs \<Longrightarrow> \<forall>x \<in> set cs. valid_cluster v x"
  using chain_valid [OF objectD(2)] by metis

section \<open>Allocating an object\<close>

lemma vol_inv_alloc:
  assumes inv: "vol_inv v d own dirs" and o: "only_table v d d'"
    and ch: "chain v d' k cs" "cs \<noteq> []" "set cs \<inter> free_set v d' = {}" and fr: "set cs \<subseteq> free_set v d"
    and t: "\<forall>x. x \<notin> set cs \<longrightarrow> table v d' x = table v d x"
  shows "vol_inv v d' (own(k \<mapsto> cs)) dirs" and "own k = None"
proof -
  have k: "k \<in> set cs" using chain_hd [OF ch(1,2)] ch(2) by fastforce
  have dj: "set cs \<inter> set cs' = {}" if "own c = Some cs'" for c cs'
    using objectD(3) [OF inv that] fr by blast
  show none: "own k = None" using dj objectD(4) [OF inv] k by (cases "own k") blast+
  have sl: "slots v d' cs' = slots v d cs'" if "own c = Some cs'" for c cs'
    by (rule only_table_slots(1) [OF o object_valid [OF inv that]])
  have ds: "dslots v d' (own(k \<mapsto> cs)) c = dslots v d own c" if "c \<in> dirs" for c
    using that none sl vol_invD(3) [OF inv] by (auto simp: dslots_def)
  then have es: "entries v d' (own(k \<mapsto> cs)) dirs = entries v d own dirs" by (simp add: entries_def)
  have old: "chain v d' c cs'" "set cs' \<inter> free_set v d' = {}" if "own c = Some cs'" for c cs'
  proof -
    have e: "table v d' x = table v d x" if "x \<in> set cs'" for x
      using t dj [OF \<open>own c = Some cs'\<close>] that by blast
    show "chain v d' c cs'" by (rule chain_cong [OF objectD(2) [OF inv that] e])
    show "set cs' \<inter> free_set v d' = {}" using objectD(3) [OF inv that] e by (auto simp: free_set_def)
  qed
  have "objects_ok v d' (own(k \<mapsto> cs))"
  proof (rule objects_okI)
    fix c cs' assume c: "(own(k \<mapsto> cs)) c = Some cs'"
    show "cs' \<noteq> [] \<and> chain v d' c cs' \<and> set cs' \<inter> free_set v d' = {}"
      using c ch old objectD(1) [OF inv] by (cases "c = k") auto
    fix c' cs'' assume "(own(k \<mapsto> cs)) c' = Some cs''" "c \<noteq> c'"
    with c show "set cs' \<inter> set cs'' = {}"
      using dj object_disjoint [OF inv] by (cases "c = k"; cases "c' = k") auto
  qed
  moreover have "entry_ok v (own(k \<mapsto> cs)) dirs e" if "entry_ok v own dirs e" for e
    using that none by (auto simp: entry_ok_def Let_def)
  ultimately show "vol_inv v d' (own(k \<mapsto> cs)) dirs"
    using inv only_table_ok [OF o] ds es unfolding vol_inv_def by auto
qed

section \<open>Writing the data of an object\<close>

lemma object_sectors_disjoint:
  assumes "vol_inv v d own dirs" "own c = Some cs" "own c' = Some cs'" "c \<noteq> c'"
  shows "set (chain_sectors v cs) \<inter> set (chain_sectors v cs') = {}"
  using object_valid [OF assms(1,2)] object_valid [OF assms(1,3)] object_disjoint [OF assms]
  by (intro chain_sectors_disjoint [OF fs_okD(1) [OF vol_invD(1) [OF assms(1)]]]) auto

lemma object_unchanged:
  assumes "vol_inv v d own dirs" "own k = Some cs" "only_sectors v (chain_sectors v cs) d d'"
    and "own c = Some cs'" "c \<noteq> k"
  shows "slots v d' cs' = slots v d cs'" and "chain_bytes v d' cs' = chain_bytes v d cs'"
proof -
  have "media d' (ucast s) = media d (ucast s)" if "s \<in> set (chain_sectors v cs')" for s
    using object_sectors_disjoint [OF assms(1,4,2,5)] that by (intro only_sectors_media [OF assms(3)]) blast
  then show "slots v d' cs' = slots v d cs'" and "chain_bytes v d' cs' = chain_bytes v d cs'"
    by (auto intro: slots_cong)
qed

lemma object_table:
  assumes "vol_inv v d own dirs" "own k = Some cs" "only_sectors v (chain_sectors v cs) d d'"
  shows "table v d' = table v d"
  by (rule only_sectors_table [OF vol_invD(1) [OF assms(1)] assms(3)
        chain_sectors_data [OF object_valid [OF assms(1,2)]]])

lemma objects_ok_table:
  "objects_ok v d own \<Longrightarrow> table v d' = table v d \<Longrightarrow> objects_ok v d' own"
  by (simp add: objects_ok_def free_set_def)

lemma vol_inv_data:
  assumes inv: "vol_inv v d own dirs" and k: "own k = Some cs" "k \<notin> dirs"
    and o: "only_sectors v (chain_sectors v cs) d d'"
  shows "vol_inv v d' own dirs"
proof -
  have ds: "dslots v d' own c = dslots v d own c" if "c \<in> dirs" for c
  proof -
    from that vol_invD(3) [OF inv] obtain cs' where cs': "own c = Some cs'" by blast
    have "c \<noteq> k" using k(2) that by blast
    from object_unchanged(1) [OF inv k(1) o cs' this] show ?thesis by (simp add: dslots_def cs')
  qed
  then have "entries v d' own dirs = entries v d own dirs" by (simp add: entries_def)
  then show ?thesis
    using inv ds only_sectors_ok [OF o] objects_ok_table [OF vol_invD(4) [OF inv] object_table [OF inv k(1) o]]
    unfolding vol_inv_def by simp
qed

section \<open>Freeing an object nothing refers to\<close>

definition orphan :: "Fat32 \<Rightarrow> disk \<Rightarrow> (u32 \<rightharpoonup> u32 list) \<Rightarrow> u32 set \<Rightarrow> u32 \<Rightarrow> bool" where
  "orphan v d own dirs k \<longleftrightarrow> (\<forall>sl \<in> entries v d own dirs. entry_cluster (slot_entry sl) \<noteq> k)"

lemma vol_inv_free:
  assumes inv: "vol_inv v d own dirs" and k: "own k = Some cs" "k \<notin> dirs" "orphan v d own dirs k"
    and o: "only_table v d d'" "table v d' = (\<lambda>x. if x \<in> set cs then 0 else table v d x)"
  shows "vol_inv v d' (own(k := None)) dirs"
proof -
  have ds: "dslots v d' (own(k := None)) c = dslots v d own c" if "c \<in> dirs" for c
  proof -
    from that vol_invD(3) [OF inv] obtain cs' where cs': "own c = Some cs'" by blast
    from only_table_slots(1) [OF o(1) object_valid [OF inv cs']] that k(2) show ?thesis
      by (auto simp: dslots_def cs')
  qed
  then have es: "entries v d' (own(k := None)) dirs = entries v d own dirs" by (simp add: entries_def)
  have "objects_ok v d' (own(k := None))"
  proof (rule objects_okI)
    fix c cs' assume c: "(own(k := None)) c = Some cs'"
    then have c': "own c = Some cs'" "c \<noteq> k" by (auto split: if_splits)
    have e: "table v d' x = table v d x" if "x \<in> set cs'" for x
      using object_disjoint [OF inv c'(1) k(1) c'(2)] that unfolding o(2) by auto
    have "chain v d' c cs'" by (rule chain_cong [OF objectD(2) [OF inv c'(1)] e])
    moreover have "set cs' \<inter> free_set v d' = {}"
      using objectD(3) [OF inv c'(1)] e by (auto simp: free_set_def)
    ultimately show "cs' \<noteq> [] \<and> chain v d' c cs' \<and> set cs' \<inter> free_set v d' = {}"
      using objectD(1) [OF inv c'(1)] by blast
    fix c2 cs2 assume "(own(k := None)) c2 = Some cs2" "c \<noteq> c2"
    with c' show "set cs' \<inter> set cs2 = {}"
      using object_disjoint [OF inv] by (auto split: if_splits)
  qed
  moreover have "entry_ok v (own(k := None)) dirs (slot_entry sl)" if "sl \<in> entries v d own dirs" for sl
    using vol_invD(6) [OF inv that] k(3) that by (auto simp: entry_ok_def Let_def orphan_def)
  moreover have "dirs \<subseteq> dom (own(k := None))" using vol_invD(3) [OF inv] k(2) by auto
  ultimately show ?thesis
    using inv only_table_ok [OF o(1)] ds unfolding vol_inv_def es by simp
qed

section \<open>Writing one slot of a directory\<close>

lemma slot_write_only:
  assumes "fs_ok v d" "chain v d c cs" "sl \<in> set (slots v d cs)" "length e = DIR_ENTRY_SIZE"
  shows "only_sectors v (chain_sectors v cs) d (slot_write sl e d)"
proof -
  have "fst sl \<in> set (chain_sectors v cs)" using assms(3) by (auto simp: slot_in)
  then show ?thesis
    using slot_write_ok(1) [OF assms] by (auto simp: only_sectors_def slot_write_def)
qed

lemma vol_inv_slot:
  assumes inv: "vol_inv v d own dirs" and c: "c \<in> dirs" "own c = Some cs"
    and sl: "sl \<in> set (slots v d cs)" and e: "length e = DIR_ENTRY_SIZE"
    and ok: "dir_ok (upd_slot (slot_loc sl) e (slots v d cs))"
    and lv: "set (live (upd_slot (slot_loc sl) e (slots v d cs))) \<subseteq> N \<union> (set (live (slots v d cs)) - {sl})"
    and N: "\<And>n. n \<in> N \<Longrightarrow> n = (fst sl, fst (snd sl), e) \<and> entry_ok v own dirs e \<and>
      (entry_cluster e \<noteq> 0 \<longrightarrow> (\<forall>x \<in> entries v d own dirs - {sl}. entry_cluster (slot_entry x) \<noteq> entry_cluster e))"
  shows "vol_inv v (slot_write sl e d) own dirs"
    and "entries v (slot_write sl e d) own dirs \<subseteq> N \<union> (entries v d own dirs - {sl})"
proof -
  let ?d = "slot_write sl e d"
  note f = vol_invD(1) [OF inv] objectD(2) [OF inv c(2)]
  note w = slot_write_ok [OF f sl e]
  note os = slot_write_only [OF f sl e]
  have dc: "dslots v ?d own c = upd_slot (slot_loc sl) e (slots v d cs)"
    by (simp add: dslots_def c(2) w(2))
  have ds: "dslots v ?d own c' = dslots v d own c'" "sl \<notin> set (dslots v d own c')"
    if "c' \<in> dirs" "c' \<noteq> c" for c'
  proof -
    from that(1) vol_invD(3) [OF inv] obtain cs' where cs': "own c' = Some cs'" by blast
    from object_unchanged(1) [OF inv c(2) os cs' that(2)] show "dslots v ?d own c' = dslots v d own c'"
      by (simp add: dslots_def cs')
    have "fst sl \<in> set (chain_sectors v cs)" using sl by (auto simp: slot_in)
    then show "sl \<notin> set (dslots v d own c')"
      using object_sectors_disjoint [OF inv c(2) cs'] that(2) by (auto simp: dslots_def cs' slot_in)
  qed
  have "dir_ok (dslots v ?d own c')" if "c' \<in> dirs" for c'
    using ds(1) vol_invD(5) [OF inv that] ok dc that by (cases "c' = c") auto
  moreover show sub: "entries v ?d own dirs \<subseteq> N \<union> (entries v d own dirs - {sl})"
  proof
    fix x assume "x \<in> entries v ?d own dirs"
    then obtain c' where x: "c' \<in> dirs" "x \<in> set (live (dslots v ?d own c'))" "\<not> dot_slot x"
      by (auto simp: entries_def)
    show "x \<in> N \<union> (entries v d own dirs - {sl})"
    proof (cases "c' = c")
      case True
      then have "x \<in> set (live (upd_slot (slot_loc sl) e (slots v d cs)))" using x(2) dc by simp
      then have "x \<in> N \<or> x \<in> set (live (dslots v d own c)) - {sl}"
        using lv by (auto simp: dslots_def c(2))
      with x c(1) show ?thesis by (auto simp: entries_def)
    next
      case False
      with ds [OF x(1) False] x live_subset show ?thesis by (fastforce simp: entries_def)
    qed
  qed
  have "entry_ok v own dirs (slot_entry x)" if "x \<in> entries v ?d own dirs" for x
  proof (cases "x \<in> N")
    case True
    with N [OF True] show ?thesis by simp
  next
    case False
    with sub that have "x \<in> entries v d own dirs" by blast
    then show ?thesis by (rule vol_invD(6) [OF inv])
  qed
  moreover have "inj_on (\<lambda>sl. entry_cluster (slot_entry sl)) (refs (entries v ?d own dirs))"
  proof (rule inj_onI)
    fix x y assume xy: "x \<in> refs (entries v ?d own dirs)" "y \<in> refs (entries v ?d own dirs)"
      "entry_cluster (slot_entry x) = entry_cluster (slot_entry y)"
    consider "x \<in> N" "y \<in> N" | "x \<in> N" "y \<in> entries v d own dirs - {sl}"
      | "x \<in> entries v d own dirs - {sl}" "y \<in> N"
      | "x \<in> entries v d own dirs" "y \<in> entries v d own dirs"
      using xy(1,2) sub by (auto simp: refs_def)
    then show "x = y"
    proof cases
      case 4
      with xy inj_onD [OF vol_invD(7) [OF inv]] show ?thesis by (auto simp: refs_def)
    qed (use xy N [of x] N [of y] in \<open>auto simp: refs_def\<close>)
  qed
  ultimately show "vol_inv v ?d own dirs"
    using inv w(1) objects_ok_table [OF vol_invD(4) [OF inv] object_table [OF inv c(2) os]]
    unfolding vol_inv_def by blast
qed

section \<open>A directory joins or leaves the tree\<close>

lemma entries_insert:
  assumes "\<forall>sl \<in> set (live (dslots v d own k)). dot_slot sl"
  shows "entries v d own (insert k dirs) = entries v d own dirs"
  using assms by (auto simp: entries_def)

lemma vol_inv_add_dir:
  assumes inv: "vol_inv v d own dirs" and k: "own k = Some cs" "k \<notin> dirs" "orphan v d own dirs k"
    and dir: "dir_ok (slots v d cs)" "\<forall>sl \<in> set (live (slots v d cs)). dot_slot sl"
  shows "vol_inv v d own (insert k dirs)"
proof -
  have es: "entries v d own (insert k dirs) = entries v d own dirs"
    by (rule entries_insert) (simp add: dslots_def k(1) dir(2))
  have "entry_ok v own (insert k dirs) (slot_entry sl)" if "sl \<in> entries v d own dirs" for sl
    using vol_invD(6) [OF inv that] k(3) that by (auto simp: entry_ok_def Let_def orphan_def)
  moreover have "dir_ok (dslots v d own k)" by (simp add: dslots_def k(1) dir(1))
  ultimately show ?thesis
    using inv k(1) unfolding vol_inv_def es by auto
qed

lemma vol_inv_drop_dir:
  assumes inv: "vol_inv v d own dirs" and k: "k \<in> dirs" "k \<noteq> root_cluster v" "orphan v d own dirs k"
    and dot: "\<forall>sl \<in> set (live (dslots v d own k)). dot_slot sl"
  shows "vol_inv v d own (dirs - {k})"
    and "entries v d own (dirs - {k}) = entries v d own dirs"
proof -
  show es: "entries v d own (dirs - {k}) = entries v d own dirs"
    using entries_insert [OF dot, of "dirs - {k}"] k(1) by (simp add: insert_absorb)
  have "entry_ok v own (dirs - {k}) (slot_entry sl)" if "sl \<in> entries v d own dirs" for sl
    using vol_invD(6) [OF inv that] k(3) that by (auto simp: entry_ok_def Let_def orphan_def)
  then show "vol_inv v d own (dirs - {k})"
    using inv k(1,2) unfolding vol_inv_def es by auto
qed

end
