(* ===== verification/Fat_View.thy ===== *)
theory Fat_View
  imports Fat_Tree
begin

text \<open>
  The abstract file system a volume denotes: for every directory (named by its first cluster) a
  map from 8.3 names to files with their contents or to directories. Path resolution, reading and
  listing of \<open>src/fs/fat.rs\<close> are functions of this view, and each small step either keeps it or
  changes it at one name.
\<close>

section \<open>The view\<close>

datatype anode = AFile bytes | ADir u32

type_synonym afs = "u32 \<Rightarrow> bytes \<Rightarrow> anode option"

definition file_content :: "Fat32 \<Rightarrow> disk \<Rightarrow> (u32 \<rightharpoonup> u32 list) \<Rightarrow> bytes \<Rightarrow> bytes" where
  "file_content v d own e =
     (case own (entry_cluster e) of
        None \<Rightarrow> []
      | Some cs \<Rightarrow> take (unat (de_size (decode_entry e))) (chain_bytes v d cs))"

definition node :: "Fat32 \<Rightarrow> disk \<Rightarrow> (u32 \<rightharpoonup> u32 list) \<Rightarrow> bytes \<Rightarrow> anode" where
  "node v d own e =
     (if de_is_dir (decode_entry e) then ADir (entry_cluster e) else AFile (file_content v d own e))"

definition view :: "Fat32 \<Rightarrow> disk \<Rightarrow> (u32 \<rightharpoonup> u32 list) \<Rightarrow> u32 set \<Rightarrow> afs" where
  "view v d own dirs c t =
     (if c \<in> dirs then
        (case dir_find (dslots v d own c) t of
           None \<Rightarrow> None
         | Some sl \<Rightarrow> if dot_slot sl then None else Some (node v d own (slot_entry sl)))
      else None)"

definition afs_set :: "u32 \<Rightarrow> bytes \<Rightarrow> anode option \<Rightarrow> afs \<Rightarrow> afs" where
  "afs_set c t n V = V(c := (V c)(t := n))"

fun a_walk :: "afs \<Rightarrow> u32 \<Rightarrow> bytes list \<Rightarrow> FatError + (u32 \<times> bytes)" where
  "a_walk V c [] = Inr (c, [])"
| "a_walk V c [n] = Inr (c, n)"
| "a_walk V c (n # rest) =
     (case V c (short_name_83 n) of
        None \<Rightarrow> Inl NotFound
      | Some (AFile _) \<Rightarrow> Inl NotADirectory
      | Some (ADir k) \<Rightarrow> a_walk V k rest)"

definition a_resolve :: "afs \<Rightarrow> u32 \<Rightarrow> bytes \<Rightarrow> FatError + (u32 \<times> bytes)" where
  "a_resolve V root path =
     rbind (a_walk V root (path_components path)) (\<lambda>(c, n). if n = [] then Inl NotFound else Inr (c, n))"

definition a_read :: "afs \<Rightarrow> u32 \<Rightarrow> bytes \<Rightarrow> FatError + bytes" where
  "a_read V root path =
     rbind (a_resolve V root path) (\<lambda>(c, n).
       case V c (short_name_83 n) of
         None \<Rightarrow> Inl NotFound
       | Some (ADir _) \<Rightarrow> Inl IsADirectory
       | Some (AFile bs) \<Rightarrow> Inr bs)"

section \<open>Names are never dot names\<close>

lemma upper_dot: "to_ascii_uppercase b \<noteq> 0x2E" if "b \<noteq> 0x2E"
  using that by (auto simp: to_ascii_uppercase_def diff_eq_eq)

lemma short_name_first:
  "short_name_83 name ! 0 =
     (if name = [] \<or> hd name = ch CHR ''.'' then ch CHR '' '' else to_ascii_uppercase (hd name))"
  by (cases name) (auto simp: short_name_83_def Let_def nth_put_at splitn2_def)

lemma short_name_not_dot: "short_name_83 name ! 0 \<noteq> 0x2E"
proof -
  have "ch CHR ''.'' = 0x2E" "ch CHR '' '' = 0x20" by (simp_all add: ch_def)
  then show ?thesis using upper_dot [of "hd name"] by (simp add: short_name_first)
qed

lemma named_not_dot:
  assumes "named (short_name_83 name) sl"
  shows "\<not> dot_slot sl"
proof -
  have "take 11 (slot_entry sl) ! 0 = slot_entry sl ! 0" by simp
  then have "slot_entry sl ! 0 = short_name_83 name ! 0" using assms unfolding named_def by metis
  then show ?thesis using short_name_not_dot [of name] by (simp add: dot_slot_def)
qed

lemma dir_find_entry:
  assumes "c \<in> dirs" "dir_find (dslots v d own c) (short_name_83 name) = Some sl"
  shows "sl \<in> entries v d own dirs" "\<not> dot_slot sl"
proof -
  have "sl \<in> set (live (dslots v d own c))" "named (short_name_83 name) sl"
    using assms(2) by (auto simp: dir_find_def find_Some_iff)
  with assms(1) named_not_dot show "sl \<in> entries v d own dirs" "\<not> dot_slot sl"
    by (auto simp: entries_def)
qed

section \<open>Resolution, reading and \<open>stat\<close> as functions of the view\<close>

lemma find_in_dir_view:
  assumes "vol_inv v d own dirs" "c \<in> dirs"
  shows "find_in_dir v d c name =
    Inr (map_option (\<lambda>sl. decode_entry (slot_entry sl)) (dir_find (dslots v d own c) (short_name_83 name)))"
proof (rule dir_chain [OF assms])
  fix cs assume "chain v d c cs" "dslots v d own c = slots v d cs"
  then show ?thesis using find_in_dir_ok [OF vol_invD(1) [OF assms(1)], of c cs] by simp
qed

lemma view_found:
  assumes "c \<in> dirs"
  shows "view v d own dirs c (short_name_83 name) =
    map_option (\<lambda>sl. node v d own (slot_entry sl)) (dir_find (dslots v d own c) (short_name_83 name))"
  using assms dir_find_entry(2) [OF assms] by (auto simp: view_def split: option.splits)

lemma view_ADir:
  assumes "vol_inv v d own dirs" "c \<in> dirs" "view v d own dirs c (short_name_83 name) = Some (ADir k)"
  shows "k \<in> dirs"
proof -
  from assms(3) obtain sl where sl: "dir_find (dslots v d own c) (short_name_83 name) = Some sl"
    "node v d own (slot_entry sl) = ADir k"
    by (auto simp: view_found [OF assms(2)])
  from vol_invD(6) [OF assms(1) dir_find_entry(1) [OF assms(2) sl(1)]] sl(2) show ?thesis
    by (auto simp: entry_ok_def node_def Let_def split: if_splits)
qed

lemma decode_cluster [simp]: "de_first_cluster (decode_entry e) = entry_cluster e"
  by (simp add: decode_entry_def)

lemma resolve_loop_view:
  assumes inv: "vol_inv v d own dirs" and "c \<in> dirs"
  shows "resolve_loop v d c comps = a_walk (view v d own dirs) c comps"
  using assms(2)
proof (induction "view v d own dirs" c comps rule: a_walk.induct)
  case (3 c n m rest)
  show ?case
  proof (cases "dir_find (dslots v d own c) (short_name_83 n)")
    case None
    then show ?thesis by (simp add: find_in_dir_view [OF inv 3(2)] view_found [OF 3(2)])
  next
    case (Some sl)
    then have w: "view v d own dirs c (short_name_83 n) = Some (node v d own (slot_entry sl))"
      by (simp add: view_found [OF 3(2)])
    show ?thesis
    proof (cases "de_is_dir (decode_entry (slot_entry sl))")
      case True
      then have w': "view v d own dirs c (short_name_83 n) = Some (ADir (entry_cluster (slot_entry sl)))"
        using w by (simp add: node_def)
      from 3(1) [OF w' refl view_ADir [OF inv 3(2) w']] True Some w' show ?thesis
        by (simp add: find_in_dir_view [OF inv 3(2)])
    next
      case False
      then show ?thesis using Some w by (simp add: find_in_dir_view [OF inv 3(2)] node_def)
    qed
  qed
qed simp_all

lemma a_walk_dir:
  assumes inv: "vol_inv v d own dirs"
  shows "c \<in> dirs \<Longrightarrow> a_walk (view v d own dirs) c comps = Inr (p, n) \<Longrightarrow> p \<in> dirs"
proof (induction "view v d own dirs" c comps rule: a_walk.induct)
  case (3 c x m rest)
  then show ?case using view_ADir [OF inv 3(2)] by (auto split: option.splits anode.splits)
qed auto

lemma resolve_parent_view:
  assumes "vol_inv v d own dirs"
  shows "resolve_parent v d path = a_resolve (view v d own dirs) (root_cluster v) path"
  by (simp add: resolve_parent_def a_resolve_def resolve_loop_view [OF assms vol_invD(2) [OF assms]])

lemma resolve_dir:
  assumes "vol_inv v d own dirs" "resolve_parent v d path = Inr (p, n)"
  shows "p \<in> dirs"
  using assms(2) a_walk_dir [OF assms(1) vol_invD(2) [OF assms(1)]]
  by (auto simp: resolve_parent_view [OF assms(1)] a_resolve_def rbind_Inr_iff split: if_splits)

lemma read_entry_content:
  assumes "vol_inv v d own dirs" "entry_ok v own dirs e" "\<not> de_is_dir (decode_entry e)"
  shows "read_entry v d (decode_entry e) = Inr (file_content v d own e)"
proof (cases "own (entry_cluster e)")
  case None
  then have "entry_cluster e = 0" "de_size (decode_entry e) = 0"
    using assms(2,3) by (auto simp: entry_ok_def Let_def)
  then show ?thesis using None by (simp add: read_entry_def read_loop.simps file_content_def)
next
  case (Some cs)
  have "entry_cluster e \<noteq> 0" by (rule objectD(6) [OF assms(1) Some])
  then have "unat (de_size (decode_entry e)) \<le> length cs * cluster_bytes v"
    using assms(2,3) Some by (auto simp: entry_ok_def Let_def)
  then show ?thesis
    using read_entry_ok [OF vol_invD(1) [OF assms(1)], of "decode_entry e" cs] objectD(2) [OF assms(1) Some]
    by (simp add: file_content_def Some)
qed

lemma read_file_view:
  assumes "vol_inv v d own dirs"
  shows "Fat32_read_file v d path = a_read (view v d own dirs) (root_cluster v) path"
proof (cases "resolve_parent v d path")
  case (Inl e)
  then show ?thesis
    using resolve_parent_view [OF assms, of path] by (simp add: Fat32_read_file_def a_read_def)
next
  case (Inr pn)
  obtain p n where pn: "pn = (p, n)" by (cases pn)
  then have r: "resolve_parent v d path = Inr (p, n)" using Inr by simp
  have p: "p \<in> dirs" by (rule resolve_dir [OF assms r])
  show ?thesis
  proof (cases "dir_find (dslots v d own p) (short_name_83 n)")
    case None
    then show ?thesis
      using r by (simp add: Fat32_read_file_def a_read_def resolve_parent_view [OF assms, symmetric]
          find_in_dir_view [OF assms p] view_found [OF p])
  next
    case (Some sl)
    note ok = vol_invD(6) [OF assms dir_find_entry(1) [OF p Some]]
    show ?thesis
      using r Some read_entry_content [OF assms ok]
      by (simp add: Fat32_read_file_def a_read_def resolve_parent_view [OF assms, symmetric]
          find_in_dir_view [OF assms p] view_found [OF p] node_def)
  qed
qed

section \<open>What the small steps do to the view\<close>

lemma view_cong:
  assumes "\<And>c. c \<in> dirs \<Longrightarrow> dslots v d' own' c = dslots v d own c"
    and "\<And>sl. sl \<in> entries v d own dirs \<Longrightarrow> node v d' own' (slot_entry sl) = node v d own (slot_entry sl)"
  shows "view v d' own' dirs = view v d own dirs"
proof (intro ext)
  fix c t
  show "view v d' own' dirs c t = view v d own dirs c t"
  proof (cases "c \<in> dirs \<and> dir_find (dslots v d own c) t \<noteq> None")
    case True
    then obtain sl where sl: "dir_find (dslots v d own c) t = Some sl" by blast
    then have "sl \<in> set (live (dslots v d own c))" by (auto simp: dir_find_def find_Some_iff)
    then have "\<not> dot_slot sl \<Longrightarrow> sl \<in> entries v d own dirs" using True by (auto simp: entries_def)
    with assms sl True show ?thesis by (auto simp: view_def)
  qed (use assms(1) in \<open>auto simp: view_def split: option.splits\<close>)
qed

text \<open>The contents of an entry depend on the object it refers to only.\<close>

lemma node_cong:
  assumes inv: "vol_inv v d own dirs" and ok: "entry_ok v own dirs e"
    and o: "own' (entry_cluster e) = own (entry_cluster e)"
    and b: "\<And>cs. own (entry_cluster e) = Some cs \<Longrightarrow> entry_cluster e \<notin> dirs \<Longrightarrow> chain_bytes v d' cs = chain_bytes v d cs"
  shows "node v d' own' e = node v d own e"
proof (cases "de_is_dir (decode_entry e)")
  case False
  then have "entry_cluster e \<notin> dirs" if "own (entry_cluster e) = Some cs" for cs
    using ok objectD(6) [OF inv that] by (auto simp: entry_ok_def Let_def)
  with False o b show ?thesis by (auto simp: node_def file_content_def split: option.splits)
qed (simp add: node_def)

lemma own_zero: "vol_inv v d own dirs \<Longrightarrow> own 0 = None"
  using objectD(6) [of v d own dirs 0] by (cases "own 0") auto

lemma view_alloc:
  assumes inv: "vol_inv v d own dirs" and o: "only_table v d d'"
    and k: "own k = None" "k \<noteq> 0"
  shows "view v d' (own(k \<mapsto> cs)) dirs = view v d own dirs"
    and "entries v d' (own(k \<mapsto> cs)) dirs = entries v d own dirs"
    and "orphan v d' (own(k \<mapsto> cs)) dirs k"
proof -
  have ds: "dslots v d' (own(k \<mapsto> cs)) c = dslots v d own c" if "c \<in> dirs" for c
  proof -
    from that vol_invD(3) [OF inv] obtain cs' where cs': "own c = Some cs'" by blast
    with k have "c \<noteq> k" by auto
    with only_table_slots(1) [OF o object_valid [OF inv cs']] cs' show ?thesis by (simp add: dslots_def)
  qed
  have ne: "entry_cluster (slot_entry sl) \<noteq> k" if "sl \<in> entries v d own dirs" for sl
    using vol_invD(6) [OF inv that] k vol_invD(3) [OF inv]
    by (auto simp: entry_ok_def Let_def split: if_splits)
  show "view v d' (own(k \<mapsto> cs)) dirs = view v d own dirs"
  proof (rule view_cong [OF ds])
    fix sl assume sl: "sl \<in> entries v d own dirs"
    show "node v d' (own(k \<mapsto> cs)) (slot_entry sl) = node v d own (slot_entry sl)"
      using ne [OF sl] only_table_slots(2) [OF o object_valid [OF inv]]
      by (intro node_cong [OF inv vol_invD(6) [OF inv sl]]) auto
  qed
  show es: "entries v d' (own(k \<mapsto> cs)) dirs = entries v d own dirs" using ds by (simp add: entries_def)
  show "orphan v d' (own(k \<mapsto> cs)) dirs k" unfolding orphan_def es using ne by blast
qed

lemma view_data:
  assumes inv: "vol_inv v d own dirs" and k: "own k = Some cs" "k \<notin> dirs" "orphan v d own dirs k"
    and o: "only_sectors v (chain_sectors v cs) d d'"
  shows "view v d' own dirs = view v d own dirs"
    and "entries v d' own dirs = entries v d own dirs"
proof -
  have ds: "dslots v d' own c = dslots v d own c" if "c \<in> dirs" for c
  proof -
    from that vol_invD(3) [OF inv] obtain cs' where cs': "own c = Some cs'" by blast
    have "c \<noteq> k" using k(2) that by blast
    from object_unchanged(1) [OF inv k(1) o cs' this] show ?thesis by (simp add: dslots_def cs')
  qed
  show "view v d' own dirs = view v d own dirs"
  proof (rule view_cong [OF ds])
    fix sl assume sl: "sl \<in> entries v d own dirs"
    show "node v d' own (slot_entry sl) = node v d own (slot_entry sl)"
      using k(3) sl object_unchanged(2) [OF inv k(1) o]
      by (intro node_cong [OF inv vol_invD(6) [OF inv sl]]) (auto simp: orphan_def)
  qed
  show "entries v d' own dirs = entries v d own dirs" using ds by (simp add: entries_def)
qed

lemma view_free:
  assumes inv: "vol_inv v d own dirs" and k: "own k = Some cs" "k \<notin> dirs" "orphan v d own dirs k"
    and o: "only_table v d d'"
  shows "view v d' (own(k := None)) dirs = view v d own dirs"
proof (rule view_cong)
  fix c assume "c \<in> dirs"
  then obtain cs' where cs': "own c = Some cs'" using vol_invD(3) [OF inv] by blast
  have "c \<noteq> k" using k(2) \<open>c \<in> dirs\<close> by blast
  with only_table_slots(1) [OF o object_valid [OF inv cs']] cs'
  show "dslots v d' (own(k := None)) c = dslots v d own c" by (simp add: dslots_def)
next
  fix sl assume sl: "sl \<in> entries v d own dirs"
  show "node v d' (own(k := None)) (slot_entry sl) = node v d own (slot_entry sl)"
    using k(3) sl only_table_slots(2) [OF o object_valid [OF inv]]
    by (intro node_cong [OF inv vol_invD(6) [OF inv sl]]) (auto simp: orphan_def)
qed

text \<open>
  Replacing one slot of directory \<open>c\<close>, where \<open>N\<close> is the new live entry (or nothing, when the slot
  is cleared) and no other live entry of \<open>c\<close> has the name \<open>t\<close>.
\<close>

lemma dir_find_slot:
  assumes ok': "dir_ok sls'" and lv: "set (live sls') = N \<union> (set (live sls) - {sl})"
    and N: "N = {} \<or> N = {n} \<and> named t n"
    and ok: "dir_ok sls" and oth: "\<forall>x \<in> set (live sls) - {sl}. \<not> named t x"
    and sl: "sl \<in> set (live sls) \<longrightarrow> named t sl"
  shows "dir_find sls' t' = (if t' = t then (if N = {} then None else Some n) else dir_find sls t')"
proof (cases "t' = t")
  case True
  show ?thesis
  proof (cases "N = {}")
    case True
    with \<open>t' = t\<close> lv oth show ?thesis by (simp add: dir_find_None_iff)
  next
    case False
    with N have "N = {n}" "named t n" by auto
    then show ?thesis using \<open>t' = t\<close> lv dir_find_Some_iff [OF ok', of t n] by auto
  qed
next
  case False
  have nt: "\<not> named t' x" if "named t x" for x using that False by (simp add: named_def)
  show ?thesis
  proof (cases "dir_find sls t'")
    case None
    then have "dir_find sls' t' = None" using lv N nt unfolding dir_find_None_iff by auto
    with None False show ?thesis by simp
  next
    case (Some x)
    then have x: "x \<in> set (live sls)" "named t' x" using dir_find_Some_iff [OF ok] by auto
    then have "x \<noteq> sl" using sl nt by blast
    with x lv have "dir_find sls' t' = Some x" using dir_find_Some_iff [OF ok'] by auto
    with Some False show ?thesis by simp
  qed
qed

lemma view_slot:
  assumes inv: "vol_inv v d own dirs" and c: "c \<in> dirs" "own c = Some cs"
    and sl: "sl \<in> set (slots v d cs)" and e: "length e = DIR_ENTRY_SIZE"
    and ok: "dir_ok (upd_slot (slot_loc sl) e (slots v d cs))"
    and lv: "set (live (upd_slot (slot_loc sl) e (slots v d cs))) = N \<union> (set (live (slots v d cs)) - {sl})"
    and N: "N = {} \<or> N = {(fst sl, fst (snd sl), e)} \<and> take 11 e = t \<and> e ! 0 \<noteq> 0x2E \<and> entry_ok v own dirs e"
    and oth: "\<forall>x \<in> set (live (slots v d cs)) - {sl}. \<not> named t x"
    and nsl: "sl \<in> set (live (slots v d cs)) \<longrightarrow> named t sl"
  shows "view v (slot_write sl e d) own dirs =
    afs_set c t (if N = {} then None else Some (node v d own e)) (view v d own dirs)"
proof (intro ext)
  fix c' t'
  let ?d = "slot_write sl e d"
  note f = vol_invD(1) [OF inv] objectD(2) [OF inv c(2)]
  note os = slot_write_only [OF f sl e]
  have nd: "node v ?d own x = node v d own x" if "entry_ok v own dirs x" for x
    using object_unchanged(2) [OF inv c(2) os] c(1) by (intro node_cong [OF inv that]) auto
  have en: "node v ?d own (slot_entry x) = node v d own (slot_entry x)"
    if "a \<in> dirs" "dir_find (dslots v d own a) t' = Some x" "\<not> dot_slot x" for a x
  proof -
    have "x \<in> entries v d own dirs" using that dir_find_live [OF that(2)] by (auto simp: entries_def)
    then show ?thesis by (intro nd vol_invD(6) [OF inv])
  qed
  have dc: "dslots v ?d own c = upd_slot (slot_loc sl) e (slots v d cs)" "dslots v d own c = slots v d cs"
    by (simp_all add: dslots_def c(2) slot_write_ok(2) [OF f sl e])
  have dok: "dir_ok (slots v d cs)" using vol_invD(5) [OF inv c(1)] dc(2) by simp
  show "view v ?d own dirs c' t' =
      afs_set c t (if N = {} then None else Some (node v d own e)) (view v d own dirs) c' t'"
  proof (cases "c' = c")
    case True
    have "dir_find (dslots v ?d own c) t' =
        (if t' = t then (if N = {} then None else Some (fst sl, fst (snd sl), e)) else dir_find (slots v d cs) t')"
      unfolding dc(1) using N by (intro dir_find_slot [OF ok lv _ dok oth nsl]) (auto simp: named_def)
    then show ?thesis
      using True c(1) N nd en [OF c(1)] dc(2)
      by (auto simp: view_def afs_set_def dot_slot_def split: option.splits)
  next
    case False
    have "dslots v ?d own c' = dslots v d own c'" if "c' \<in> dirs"
    proof -
      from that vol_invD(3) [OF inv] obtain cs' where cs': "own c' = Some cs'" by blast
      from object_unchanged(1) [OF inv c(2) os cs' False] show ?thesis by (simp add: dslots_def cs')
    qed
    then show ?thesis
      using False en by (auto simp: view_def afs_set_def split: option.splits)
  qed
qed

end
