(* ===== verification/Fat_Ops.thy ===== *)
theory Fat_Ops
  imports Fat_View
begin

text \<open>
  The operations of \<open>src/fs/fat.rs\<close> that change the volume (\<open>write_file\<close>, \<open>mkdir\<close>, \<open>unlink\<close>,
  \<open>rmdir\<close>) on the volume's invariant and its abstract view.
\<close>

section \<open>A fresh object with its data\<close>

lemma cluster_bytes_pos: "fs_ok v d \<Longrightarrow> 0 < cluster_bytes v"
  using fs_okD(1) [of v d] by (auto simp: cluster_bytes_def SECTOR_SIZE_def vol_ok_def unat_gt_0)

lemma div_ceil_bounds:
  assumes "0 < b"
  shows "a \<le> div_ceil a b * b" and "div_ceil a b \<le> a" and "0 < a \<Longrightarrow> 0 < div_ceil a b"
proof -
  have "a = a div b * b + a mod b" "a mod b < b" using assms by simp_all
  then have "a \<le> a div b * b + b" by linarith
  then show "a \<le> div_ceil a b * b" by (auto simp: div_ceil_def)
  show "div_ceil a b \<le> a"
  proof (cases "a mod b = 0")
    case True
    then show ?thesis by (simp add: div_ceil_def)
  next
    case False
    then have "a \<noteq> 0" by (cases a) auto
    show ?thesis
    proof (cases "b = 1")
      case True
      with False show ?thesis by simp
    next
      case False
      then have "a div b < a" using assms \<open>a \<noteq> 0\<close> by (intro div_less_dividend) auto
      then show ?thesis by (simp add: div_ceil_def)
    qed
  qed
  assume "0 < a"
  then show "0 < div_ceil a b"
    using \<open>a \<le> div_ceil a b * b\<close> by (cases "div_ceil a b") auto
qed

lemma card_free: "vol_ok v d' \<Longrightarrow> card (free_set v d) \<le> unat (cluster_count v)"
  using card_mono [OF finite_valid, of "free_set v d" v] card_valid [of v d'] by (auto simp: free_set_def)

lemma dslots_only_table:
  assumes "vol_inv v d own dirs" "only_table v d d'" "c \<in> dirs" "own' c = own c"
  shows "dslots v d' own' c = dslots v d own c"
proof -
  from assms(3) vol_invD(3) [OF assms(1)] obtain cs where cs: "own c = Some cs" by blast
  from only_table_slots(1) [OF assms(2) object_valid [OF assms(1) cs]] assms(4) cs show ?thesis
    by (simp add: dslots_def)
qed

lemma vol_inv_same:
  assumes inv: "vol_inv v d own dirs" and o: "only_table v d d'" "table v d' = table v d"
  shows "vol_inv v d' own dirs" and "view v d' own dirs = view v d own dirs"
proof -
  have ds: "dslots v d' own c = dslots v d own c" if "c \<in> dirs" for c
    by (rule dslots_only_table [OF inv o(1) that]) simp
  then have "entries v d' own dirs = entries v d own dirs" by (simp add: entries_def)
  then show "vol_inv v d' own dirs"
    using inv ds only_table_ok [OF o(1)] objects_ok_table [OF vol_invD(4) [OF inv] o(2)]
    unfolding vol_inv_def by simp
  show "view v d' own dirs = view v d own dirs"
  proof (rule view_cong [OF ds])
    fix sl assume sl: "sl \<in> entries v d own dirs"
    show "node v d' own (slot_entry sl) = node v d own (slot_entry sl)"
      using only_table_slots(2) [OF o(1) object_valid [OF inv]]
      by (intro node_cong [OF inv vol_invD(6) [OF inv sl]]) auto
  qed
qed

text \<open>An object no entry refers to yet, beside an otherwise unchanged tree.\<close>

definition fresh_object ::
  "Fat32 \<Rightarrow> disk \<Rightarrow> (u32 \<rightharpoonup> u32 list) \<Rightarrow> u32 set \<Rightarrow> disk \<Rightarrow> u32 \<Rightarrow> u32 list \<Rightarrow> bool" where
  "fresh_object v d own dirs d' k cs \<longleftrightarrow>
     vol_inv v d' (own(k \<mapsto> cs)) dirs \<and> own k = None \<and> k \<noteq> 0 \<and> k \<notin> dirs \<and>
     orphan v d' (own(k \<mapsto> cs)) dirs k \<and>
     view v d' (own(k \<mapsto> cs)) dirs = view v d own dirs \<and>
     (\<forall>c \<in> dirs. dslots v d' (own(k \<mapsto> cs)) c = dslots v d own c)"

lemma fresh_object_alloc:
  assumes inv: "vol_inv v d own dirs" and o: "only_table v d d'"
    and ch: "chain v d' k cs" "cs \<noteq> []" "set cs \<inter> free_set v d' = {}" and fr: "set cs \<subseteq> free_set v d"
    and t: "\<forall>x. x \<notin> set cs \<longrightarrow> table v d' x = table v d x"
  shows "fresh_object v d own dirs d' k cs"
proof -
  note a = vol_inv_alloc [OF assms]
  have k: "k \<noteq> 0" by (rule objectD(6) [OF a(1)]) simp
  have kd: "k \<notin> dirs" using a(2) vol_invD(3) [OF inv] by auto
  have "dslots v d' (own(k \<mapsto> cs)) c = dslots v d own c" if "c \<in> dirs" for c
    using kd that by (intro dslots_only_table [OF inv o that]) auto
  then show ?thesis
    unfolding fresh_object_def using a k kd view_alloc [OF inv o a(2) k] by simp
qed

lemma fresh_object_data:
  assumes f: "fresh_object v d own dirs d1 k cs" and o: "only_sectors v (chain_sectors v cs) d1 d2"
  shows "fresh_object v d own dirs d2 k cs"
proof -
  let ?own = "own(k \<mapsto> cs)"
  have i: "vol_inv v d1 ?own dirs" "k \<notin> dirs" "orphan v d1 ?own dirs k" and k: "?own k = Some cs"
    using f by (auto simp: fresh_object_def)
  note vd = view_data [OF i(1) k i(2,3) o]
  have "dslots v d2 ?own c = dslots v d1 ?own c" if "c \<in> dirs" for c
  proof -
    from that vol_invD(3) [OF i(1)] obtain cs' where cs': "?own c = Some cs'" by blast
    have "c \<noteq> k" using i(2) that by blast
    from object_unchanged(1) [OF i(1) k o cs' this] show ?thesis
      unfolding dslots_def cs' option.sel .
  qed
  moreover have "orphan v d2 ?own dirs k" using i(3) vd(2) by (simp add: orphan_def)
  ultimately show ?thesis
    using f vol_inv_data [where own = ?own, OF i(1) k i(2) o] vd(1) by (simp add: fresh_object_def)
qed

lemma new_file_object:
  assumes inv: "vol_inv v d own dirs" and ne: "data \<noteq> []"
    and sp: "div_ceil (length data) (cluster_bytes v) \<le> card (free_set v d)"
  obtains k d1 d2 cs where
    "alloc_chain v (of_nat (div_ceil (length data) (cluster_bytes v))) d = (Inr k, d1)"
    "write_chain v k data d1 = (Inr (), d2)" "fresh_object v d own dirs d2 k cs"
    "take (length data) (chain_bytes v d2 cs) = data" "length data \<le> length cs * cluster_bytes v"
proof -
  let ?n = "div_ceil (length data) (cluster_bytes v)"
  note ok = vol_invD(1) [OF inv]
  note cb = cluster_bytes_pos [OF ok]
  have n: "unat (of_nat ?n :: u32) = ?n"
    using sp card_free [OF fs_okD(1) [OF ok], of d] unat_u32 [of "cluster_count v"] by (simp add: unat_of_nat)
  have "0 < ?n" using div_ceil_bounds(3) [OF cb] ne by simp
  with n sp have "0 < unat (of_nat ?n :: u32)" "unat (of_nat ?n :: u32) \<le> card (free_set v d)" by simp_all
  from alloc_chain_ok [OF ok this] obtain d1 cs where
    a: "alloc_chain v (of_nat ?n) d = (Inr (hd cs), d1)" "length cs = ?n"
    "set cs \<subseteq> free_set v d" "only_table v d d1" "chain v d1 (hd cs) cs" "set cs \<inter> free_set v d1 = {}"
    "\<forall>x. x \<notin> set cs \<longrightarrow> table v d1 x = table v d x" unfolding n by metis
  have "cs \<noteq> []" using a(2) \<open>0 < ?n\<close> by auto
  note f = fresh_object_alloc [OF inv a(4,5) this a(6,3,7)]
  have l: "length data \<le> length cs * cluster_bytes v" using div_ceil_bounds(1) [OF cb] a(2) by simp
  from write_chain_ok [OF only_table_ok [OF a(4)] a(5) l] obtain d2 where
    "write_chain v (hd cs) data d1 = (Inr (), d2)" "only_sectors v (chain_sectors v cs) d1 d2"
    "take (length data) (chain_bytes v d2 cs) = data" by metis
  with that [OF a(1)] fresh_object_data [OF f] l show thesis by blast
qed

section \<open>Publishing an entry\<close>

lemma placed_slot:
  assumes dok: "dir_ok S" "distinct (map slot_loc S)"
    and place: "dir_find S t = Some sl \<or> dir_find S t = None \<and> free_slot S = Some sl"
    and e: "live_entry e" "take 11 e = t"
  shows "dir_ok (upd_slot (slot_loc sl) e S)"
    and "set (live (upd_slot (slot_loc sl) e S)) = {(fst sl, fst (snd sl), e)} \<union> (set (live S) - {sl})"
    and "\<forall>x \<in> set (live S) - {sl}. \<not> named t x"
    and "sl \<in> set (live S) \<longrightarrow> named t sl"
proof -
  have "dir_ok (upd_slot (slot_loc sl) e S) \<and>
    set (live (upd_slot (slot_loc sl) e S)) = insert (fst sl, fst (snd sl), e) (set (live S) - {sl}) \<and>
    (\<forall>x \<in> set (live S) - {sl}. \<not> named t x) \<and> (sl \<in> set (live S) \<longrightarrow> named t sl)"
    using place
  proof (elim disjE conjE)
    assume fd: "dir_find S t = Some sl"
    then have s: "sl \<in> set (live S)" "named t sl" using dir_find_live by blast+
    have u: "x = sl" if "x \<in> set (live S)" "named t x" for x
      by (rule dir_find_unique [OF dok(1) fd that])
    have "take 11 e = take 11 (slot_entry sl)" using s(2) e(2) by (simp add: named_def)
    note pf = put_found [OF dok s(1) e(1) this]
    show ?thesis unfolding pf(2) using pf(1) s(2) u by blast
  next
    assume n: "dir_find S t = None" and fr: "free_slot S = Some sl"
    have "sl \<notin> set (live S)"
      using fr in_live [of sl S] by (auto simp: free_slot_def find_Some_iff)
    then show ?thesis using put_free [OF dok fr n e] n by (simp add: dir_find_None_iff)
  qed
  then show "dir_ok (upd_slot (slot_loc sl) e S)"
    and "set (live (upd_slot (slot_loc sl) e S)) = {(fst sl, fst (snd sl), e)} \<union> (set (live S) - {sl})"
    and "\<forall>x \<in> set (live S) - {sl}. \<not> named t x"
    and "sl \<in> set (live S) \<longrightarrow> named t sl" by auto
qed

lemma publish_entry:
  assumes inv: "vol_inv v d own dirs" and p: "p \<in> dirs" "own p = Some cs"
    and t: "length t = 11" "t ! 0 \<noteq> 0" "t ! 0 \<noteq> 0xE5" "t ! 0 \<noteq> 0x2E" and at: "\<not> skipped_attr attr"
    and place: "dir_find (slots v d cs) t = Some sl \<or>
      dir_find (slots v d cs) t = None \<and> free_slot (slots v d cs) = Some sl"
    and e: "e = fill_dir_entry (slot_entry sl) t attr k sz" and ok: "entry_ok v own dirs e"
    and k: "k = 0 \<or> (\<forall>x \<in> entries v d own dirs - {sl}. entry_cluster (slot_entry x) \<noteq> k)"
  shows "write_dir_entry (fst sl) (fst (snd sl)) t attr k sz d = (Inr (), slot_write sl e d)"
    and "vol_inv v (slot_write sl e d) own dirs"
    and "view v (slot_write sl e d) own dirs = afs_set p t (Some (node v d own e)) (view v d own dirs)"
    and "entries v (slot_write sl e d) own dirs \<subseteq>
      insert (fst sl, fst (snd sl), e) (entries v d own dirs - {sl})"
proof -
  let ?S = "slots v d cs" and ?N = "{(fst sl, fst (snd sl), e)}"
  note f = vol_invD(1) [OF inv] objectD(2) [OF inv p(2)]
  have dok: "dir_ok ?S" "distinct (map slot_loc ?S)"
    using vol_invD(5) [OF inv p(1)] distinct_slots [OF fs_okD(1) [OF f(1)] f(2)] by (auto simp: dslots_def p(2))
  have sl: "sl \<in> set ?S"
    using place dir_find_live [of ?S t sl] live_subset [of ?S] by (auto simp: free_slot_def find_Some_iff)
  show "write_dir_entry (fst sl) (fst (snd sl)) t attr k sz d = (Inr (), slot_write sl e d)"
    unfolding e by (rule write_dir_entry_ok [OF f sl])
  have len: "length (slot_entry sl) = DIR_ENTRY_SIZE" by (rule slot_facts [OF f sl])
  note ff = fill_fields [OF len t(1), of attr k sz]
  have le: "length e = DIR_ENTRY_SIZE" unfolding e using len t(1) by simp
  have lv: "live_entry e" "take 11 e = t" "e ! 0 \<noteq> 0x2E" "entry_cluster e = k"
    using ff t at by (auto simp: e live_entry_def)
  note up = placed_slot [OF dok place lv(1,2)]
  have N: "n = (fst sl, fst (snd sl), e) \<and> entry_ok v own dirs e \<and>
      (entry_cluster e \<noteq> 0 \<longrightarrow> (\<forall>x \<in> entries v d own dirs - {sl}. entry_cluster (slot_entry x) \<noteq> entry_cluster e))"
    if "n \<in> ?N" for n using that ok k lv(4) by auto
  show "vol_inv v (slot_write sl e d) own dirs"
    by (rule vol_inv_slot(1) [OF inv p sl le up(1) _ N]) (auto simp: up(2))
  show "entries v (slot_write sl e d) own dirs \<subseteq> insert (fst sl, fst (snd sl), e) (entries v d own dirs - {sl})"
    using vol_inv_slot(2) [OF inv p sl le up(1) _ N] up(2) by auto
  show "view v (slot_write sl e d) own dirs = afs_set p t (Some (node v d own e)) (view v d own dirs)"
    using view_slot [OF inv p sl le up(1,2) _ up(3,4)] lv ok by auto
qed

section \<open>\<open>write_file\<close>\<close>

text \<open>The allocation and data part of \<open>write_file\<close>, before the entry is written.\<close>

definition write_stage :: "Fat32 \<Rightarrow> bytes \<Rightarrow> (disk, FatError, u32) eff" where
  "write_stage v data =
     (if data = [] then ret 0
      else ebind (alloc_chain v (of_nat (div_ceil (length data) (unat (sectors_per_cluster v) * SECTOR_SIZE))))
        (\<lambda>first. ebind (on_error (write_chain v first data) (free_chain v first)) (\<lambda>_. ret first)))"

text \<open>What it leaves: an unreferenced object holding the data, and the tree as it was.\<close>

definition staged ::
  "Fat32 \<Rightarrow> disk \<Rightarrow> (u32 \<rightharpoonup> u32 list) \<Rightarrow> u32 set \<Rightarrow> bytes \<Rightarrow> u32 \<Rightarrow> disk \<Rightarrow> (u32 \<rightharpoonup> u32 list) \<Rightarrow> bool" where
  "staged v d own dirs data first d2 own2 \<longleftrightarrow>
     vol_inv v d2 own2 dirs \<and> view v d2 own2 dirs = view v d own dirs \<and>
     (\<forall>c \<in> dirs. dslots v d2 own2 c = dslots v d own c) \<and>
     (first = 0 \<or> orphan v d2 own2 dirs first) \<and> own first = None \<and> (\<forall>k. k \<noteq> first \<longrightarrow> own2 k = own k) \<and>
     (\<forall>e. entry_cluster e = first \<longrightarrow> de_size (decode_entry e) = of_nat (length data) \<longrightarrow>
        \<not> de_is_dir (decode_entry e) \<longrightarrow> entry_ok v own2 dirs e \<and> node v d2 own2 e = AFile data)"

lemma root_nonzero: "vol_inv v d own dirs \<Longrightarrow> root_cluster v \<noteq> 0"
  using objectD(6) vol_invD(2,3) by (metis domD subsetD)

lemma write_stage_ok:
  assumes inv: "vol_inv v d own dirs" and len: "length data < 2 ^ 32"
    and sp: "data = [] \<or> div_ceil (length data) (cluster_bytes v) \<le> card (free_set v d)"
  obtains first d2 own2 where "write_stage v data d = (Inr first, d2)" "staged v d own dirs data first d2 own2"
proof (cases "data = []")
  case True
  then have "staged v d own dirs data 0 d own"
    using inv own_zero [OF inv] root_nonzero [OF inv]
    by (auto simp: staged_def entry_ok_def Let_def node_def file_content_def)
  moreover have "write_stage v data d = (Inr 0, d)" using True by (simp add: write_stage_def ret_def)
  ultimately show thesis using that by blast
next
  case False
  with sp have "div_ceil (length data) (cluster_bytes v) \<le> card (free_set v d)" by simp
  from new_file_object [OF inv False this] obtain k d1 d2 cs where
    a: "alloc_chain v (of_nat (div_ceil (length data) (cluster_bytes v))) d = (Inr k, d1)"
    "write_chain v k data d1 = (Inr (), d2)" and f: "fresh_object v d own dirs d2 k cs"
    and c: "take (length data) (chain_bytes v d2 cs) = data" "length data \<le> length cs * cluster_bytes v"
    by metis
  have "write_stage v data d = (Inr k, d2)"
    using False a by (simp add: write_stage_def cluster_bytes_def on_error_def ret_def)
  moreover have "k \<noteq> root_cluster v" using f vol_invD(2) [OF inv] by (auto simp: fresh_object_def)
  then have "staged v d own dirs data k d2 (own(k \<mapsto> cs))"
    using f c len
    by (auto simp: staged_def fresh_object_def entry_ok_def Let_def node_def file_content_def unat_of_nat)
  ultimately show thesis using that by blast
qed

lemma write_stage_full:
  assumes inv: "vol_inv v d own dirs" and len: "length data < 2 ^ 32"
    and ne: "data \<noteq> []" and sp: "card (free_set v d) < div_ceil (length data) (cluster_bytes v)"
  obtains d2 where "write_stage v data d = (Inl NoSpace, d2)" "vol_inv v d2 own dirs"
    "view v d2 own dirs = view v d own dirs"
proof -
  note ok = vol_invD(1) [OF inv]
  let ?n = "div_ceil (length data) (cluster_bytes v)"
  have "?n < 2 ^ 32" using div_ceil_bounds(2) [OF cluster_bytes_pos [OF ok], of "length data"] len by simp
  then have "card (free_set v d) < unat (of_nat ?n :: u32)" using sp by (simp add: unat_of_nat)
  from alloc_chain_full [OF ok this] obtain d2 where
    "alloc_chain v (of_nat ?n) d = (Inl NoSpace, d2)" "only_table v d d2" "table v d2 = table v d" by metis
  with vol_inv_same [OF inv] ne that show thesis
    by (simp add: write_stage_def cluster_bytes_def)
qed

lemma write_file_stages:
  "Fat32_write_file v path data =
     ebind (reads (\<lambda>d. resolve_parent v d path)) (\<lambda>(dir_cluster, name).
       ebind (reads (\<lambda>d. locate_or_free_slot v d dir_cluster (short_name_83 name))) (\<lambda>(s, o', old).
         ebind (write_stage v data) (\<lambda>new_first.
         ebind (on_error (write_dir_entry s o' (short_name_83 name) ATTR_ARCHIVE new_first (of_nat (length data)))
                 (if new_first \<noteq> 0 then free_chain v new_first else ret ())) (\<lambda>_.
         (case old of
            Some first \<Rightarrow> if valid_cluster v first then ignoring (free_chain v first) else ret ()
          | None \<Rightarrow> ret ())))))"
  by (simp add: Fat32_write_file_def write_stage_def Let_def)

lemma release_object:
  assumes inv: "vol_inv v d own dirs" and k: "own k = Some cs" "k \<notin> dirs" "orphan v d own dirs k"
  obtains d' where "free_chain v k d = (Inr (), d')" "vol_inv v d' (own(k := None)) dirs"
    "view v d' (own(k := None)) dirs = view v d own dirs"
proof -
  obtain d' where d': "free_chain v k d = (Inr (), d')" "only_table v d d'"
    "table v d' = (\<lambda>x. if x \<in> set cs then 0 else table v d x)"
    using free_chain_ok [OF vol_invD(1) [OF inv] objectD(2) [OF inv k(1)]] by metis
  with that [OF d'(1)] vol_inv_free [OF inv k d'(2,3)] view_free [OF inv k d'(2)] show thesis by blast
qed

text \<open>The object of an entry that is no longer there.\<close>

lemma orphan_old:
  assumes inv: "vol_inv v d own dirs" and sl: "sl \<in> entries v d own dirs"
    and k: "own (entry_cluster (slot_entry sl)) = Some cs"
    and sub: "entries v d' own dirs \<subseteq> N \<union> (entries v d own dirs - {sl})"
    and N: "\<forall>n \<in> N. entry_cluster (slot_entry n) \<noteq> entry_cluster (slot_entry sl)"
  shows "orphan v d' own dirs (entry_cluster (slot_entry sl))"
  unfolding orphan_def
proof
  fix x assume "x \<in> entries v d' own dirs"
  with sub consider "x \<in> N" | "x \<in> entries v d own dirs" "x \<noteq> sl" by blast
  then show "entry_cluster (slot_entry x) \<noteq> entry_cluster (slot_entry sl)"
  proof cases
    case 2
    have "entry_cluster (slot_entry sl) \<noteq> 0" by (rule objectD(6) [OF inv k])
    with sl 2 show ?thesis using inj_onD [OF vol_invD(7) [OF inv], of x sl] by (auto simp: refs_def)
  qed (use N in blast)
qed

lemma not_dir_entry:
  assumes "p \<in> dirs" "\<forall>k. view v d own dirs p (short_name_83 name) \<noteq> Some (ADir k)"
    and "dir_find (dslots v d own p) (short_name_83 name) = Some sl"
  shows "\<not> de_is_dir (decode_entry (slot_entry sl))"
  using assms by (auto simp: view_found node_def)

lemma locate_slot:
  assumes inv: "vol_inv v d own dirs" and p: "p \<in> dirs"
  shows "locate_or_free_slot v d p t =
    (case dir_find (dslots v d own p) t of
       Some sl \<Rightarrow> Inr (fst sl, fst (snd sl), Some (entry_cluster (slot_entry sl)))
     | None \<Rightarrow>
         (case free_slot (dslots v d own p) of
            None \<Rightarrow> Inl DirFull
          | Some sl \<Rightarrow> Inr (fst sl, fst (snd sl), None)))"
proof (rule dir_chain [OF inv p])
  fix cs assume c: "chain v d p cs" and S: "dslots v d own p = slots v d cs"
  show ?thesis unfolding S by (rule locate_or_free_slot_ok [OF vol_invD(1) [OF inv] c])
qed

text \<open>Writing the entry and releasing what the name referred to before.\<close>

lemma commit_file:
  assumes inv: "vol_inv v d own dirs" and p: "p \<in> dirs"
    and st: "staged v d own dirs data first d2 own2"
    and nm: "short_name_83 name ! 0 \<noteq> 0" "short_name_83 name ! 0 \<noteq> 0xE5"
    and nd: "\<forall>k. view v d own dirs p (short_name_83 name) \<noteq> Some (ADir k)"
    and place: "dir_find (dslots v d own p) (short_name_83 name) = Some sl \<or>
      dir_find (dslots v d own p) (short_name_83 name) = None \<and> free_slot (dslots v d own p) = Some sl"
  obtains d3 where
    "write_dir_entry (fst sl) (fst (snd sl)) (short_name_83 name) ATTR_ARCHIVE first (of_nat (length data)) d2 = (Inr (), d3)"
    "vol_inv v d3 own2 dirs"
    "view v d3 own2 dirs = afs_set p (short_name_83 name) (Some (AFile data)) (view v d own dirs)"
    "\<And>k cs. dir_find (dslots v d own p) (short_name_83 name) = Some sl \<Longrightarrow>
       own2 (entry_cluster (slot_entry sl)) = Some cs \<Longrightarrow> orphan v d3 own2 dirs (entry_cluster (slot_entry sl))"
proof -
  let ?t = "short_name_83 name"
  let ?e = "fill_dir_entry (slot_entry sl) ?t ATTR_ARCHIVE first (of_nat (length data))"
  have i2: "vol_inv v d2 own2 dirs" using st by (simp add: staged_def)
  obtain cs where cs: "own2 p = Some cs" "chain v d2 p cs" using dir_chain [OF i2 p] by metis
  have S: "slots v d2 cs = dslots v d own p" using st p cs(1) by (auto simp: staged_def dslots_def)
  have sl: "sl \<in> set (slots v d2 cs)"
    using place dir_find_live [of _ ?t sl] live_subset unfolding S by (fastforce simp: free_slot_def find_Some_iff)
  have len: "length (slot_entry sl) = DIR_ENTRY_SIZE" by (rule slot_facts [OF vol_invD(1) [OF i2] cs(2) sl])
  note ff = fill_fields [OF len length_short_name, of name ATTR_ARCHIVE first "of_nat (length data)"]
  have at: "\<not> skipped_attr ATTR_ARCHIVE" "ATTR_ARCHIVE AND ATTR_DIRECTORY = 0"
    by (simp_all add: skipped_attr_def ATTR_ARCHIVE_def ATTR_LONG_NAME_def ATTR_VOLUME_ID_def ATTR_DIRECTORY_def)
  have eo: "entry_ok v own2 dirs ?e" "node v d2 own2 ?e = AFile data"
    using st ff(4,5) at(2) by (auto simp: staged_def)
  have k: "first = 0 \<or> (\<forall>x \<in> entries v d2 own2 dirs - {sl}. entry_cluster (slot_entry x) \<noteq> first)"
    using st by (auto simp: staged_def orphan_def)
  note pe = publish_entry [OF i2 p cs(1) length_short_name nm short_name_not_dot at(1)
      place [folded S] refl eo(1) k]
  show thesis
  proof (rule that [OF pe(1,2)])
    show "view v (slot_write sl ?e d2) own2 dirs = afs_set p ?t (Some (AFile data)) (view v d own dirs)"
      using pe(3) eo(2) st by (simp add: staged_def)
    fix cs' assume fd: "dir_find (dslots v d own p) ?t = Some sl"
      and cl: "own2 (entry_cluster (slot_entry sl)) = Some cs'"
    have "dslots v d2 own2 p = dslots v d own p" using st p by (simp add: staged_def)
    with fd have en: "sl \<in> entries v d2 own2 dirs" using dir_find_entry(1) [OF p] by metis
    then have "first = 0 \<or> entry_cluster (slot_entry sl) \<noteq> first" using st by (auto simp: staged_def orphan_def)
    then have "entry_cluster (slot_entry sl) \<noteq> first" using objectD(6) [OF i2 cl] by auto
    then show "orphan v (slot_write sl ?e d2) own2 dirs (entry_cluster (slot_entry sl))"
      using orphan_old [OF i2 en cl, of _ "{(fst sl, fst (snd sl), ?e)}"] pe(4) ff(4) by simp
  qed
qed

lemma write_file_ok:
  assumes inv: "vol_inv v d own dirs" and r: "resolve_parent v d path = Inr (p, name)"
    and nm: "short_name_83 name ! 0 \<noteq> 0" "short_name_83 name ! 0 \<noteq> 0xE5"
    and nd: "\<forall>k. view v d own dirs p (short_name_83 name) \<noteq> Some (ADir k)"
    and len: "length data < 2 ^ 32"
    and room: "locate_or_free_slot v d p (short_name_83 name) \<noteq> Inl DirFull"
    and sp: "data = [] \<or> div_ceil (length data) (cluster_bytes v) \<le> card (free_set v d)"
  obtains d' own' where "Fat32_write_file v path data d = (Inr (), d')" "vol_inv v d' own' dirs"
    "view v d' own' dirs = afs_set p (short_name_83 name) (Some (AFile data)) (view v d own dirs)"
proof -
  let ?t = "short_name_83 name"
  have p: "p \<in> dirs" by (rule resolve_dir [OF inv r])
  obtain first d2 own2 where st: "write_stage v data d = (Inr first, d2)" "staged v d own dirs data first d2 own2"
    using write_stage_ok [OF inv len sp] by metis
  show thesis
  proof (cases "dir_find (dslots v d own p) ?t")
    case None
    then obtain sl where sl: "free_slot (dslots v d own p) = Some sl"
      using room by (auto simp: locate_slot [OF inv p] split: option.splits)
    obtain d3 where d3:
      "write_dir_entry (fst sl) (fst (snd sl)) ?t ATTR_ARCHIVE first (of_nat (length data)) d2 = (Inr (), d3)"
      "vol_inv v d3 own2 dirs" "view v d3 own2 dirs = afs_set p ?t (Some (AFile data)) (view v d own dirs)"
      by (rule commit_file [OF inv p st(2) nm nd, of sl]) (use None sl in auto)
    have "Fat32_write_file v path data d = (Inr (), d3)"
      using r st(1) d3(1) None sl
      by (simp add: write_file_stages reads_def locate_slot [OF inv p] on_error_def ret_def)
    then show thesis using d3(2,3) by (rule that)
  next
    case (Some sl)
    let ?k = "entry_cluster (slot_entry sl)"
    obtain d3 where d3:
      "write_dir_entry (fst sl) (fst (snd sl)) ?t ATTR_ARCHIVE first (of_nat (length data)) d2 = (Inr (), d3)"
      "vol_inv v d3 own2 dirs" "view v d3 own2 dirs = afs_set p ?t (Some (AFile data)) (view v d own dirs)"
      and orph: "\<And>cs. own2 ?k = Some cs \<Longrightarrow> orphan v d3 own2 dirs ?k"
      by (rule commit_file [OF inv p st(2) nm nd, of sl]) (use Some in auto)
    have w: "Fat32_write_file v path data d =
        (if valid_cluster v ?k then ignoring (free_chain v ?k) else ret ()) d3"
      using r st(1) d3(1) Some by (simp add: write_file_stages reads_def locate_slot [OF inv p] on_error_def)
    have ok: "entry_ok v own dirs (slot_entry sl)"
      by (rule vol_invD(6) [OF inv dir_find_entry(1) [OF p Some]])
    show thesis
    proof (cases "own ?k")
      case None
      then have "?k = 0" using ok not_dir_entry [OF p nd Some] by (auto simp: entry_ok_def Let_def)
      then have "Fat32_write_file v path data d = (Inr (), d3)" using w EOC_invalid(2) [of v] by (simp add: ret_def)
      then show thesis using d3(2,3) by (rule that)
    next
      case (Some cs)
      have "?k \<noteq> first" using st(2) Some by (auto simp: staged_def)
      then have k2: "own2 ?k = Some cs" using st(2) Some by (simp add: staged_def)
      have kd: "?k \<notin> dirs" using ok not_dir_entry [OF p nd \<open>dir_find _ _ = _\<close>] objectD(6) [OF inv Some]
        by (auto simp: entry_ok_def Let_def)
      obtain d4 where d4: "free_chain v ?k d3 = (Inr (), d4)" "vol_inv v d4 (own2(?k := None)) dirs"
        "view v d4 (own2(?k := None)) dirs = view v d3 own2 dirs"
        using release_object [OF d3(2) k2 kd orph [OF k2]] by metis
      have "Fat32_write_file v path data d = (Inr (), d4)"
        using w objectD(5) [OF inv Some] d4(1) by (simp add: ignoring_def)
      then show thesis using d4(2,3) d3(3) that by simp
    qed
  qed
qed

end
