(* ===== verification/Fat_Dirs.thy ===== *)
theory Fat_Dirs
  imports Fat_Ops
begin

text \<open>
  \<open>unlink\<close>, \<open>rmdir\<close> and \<open>mkdir\<close> of \<open>src/fs/fat.rs\<close>: removing a name, removing an empty
  directory, creating a directory that holds nothing but its dot entries.
\<close>

section \<open>Clearing an entry\<close>

lemma clear_entry:
  assumes inv: "vol_inv v d own dirs" and p: "p \<in> dirs"
    and sl: "dir_find (dslots v d own p) (short_name_83 name) = Some sl"
  obtains d' where "clear_dir_entry (fst sl) (fst (snd sl)) d = (Inr (), d')" "vol_inv v d' own dirs"
    "view v d' own dirs = afs_set p (short_name_83 name) None (view v d own dirs)"
    "entries v d' own dirs \<subseteq> entries v d own dirs - {sl}"
    "\<And>c. c \<in> dirs \<Longrightarrow> c \<noteq> p \<Longrightarrow> dslots v d' own c = dslots v d own c"
proof -
  let ?t = "short_name_83 name" and ?e = "(slot_entry sl)[0 := 0xE5]"
  obtain cs where cs: "own p = Some cs" "chain v d p cs" "dslots v d own p = slots v d cs"
    "dir_ok (slots v d cs)" "distinct (map slot_loc (slots v d cs))" by (rule dir_chain [OF inv p])
  note f = vol_invD(1) [OF inv] cs(2)
  have l: "sl \<in> set (live (slots v d cs))" "named ?t sl" using sl dir_find_live by (auto simp: cs(3))
  then have s: "sl \<in> set (slots v d cs)" using live_subset by blast
  have len: "length (slot_entry sl) = DIR_ENTRY_SIZE" by (rule slot_facts [OF f s])
  then have le: "length ?e = DIR_ENTRY_SIZE" and e0: "?e ! 0 = 0xE5" by (simp_all add: DIR_ENTRY_SIZE_def)
  note cf = clear_found [OF cs(4,5) l(1) e0]
  have oth: "\<forall>x \<in> set (live (slots v d cs)) - {sl}. \<not> named ?t x"
    using dir_find_unique [OF cs(4) sl [unfolded cs(3)]] by blast
  let ?d = "slot_write sl ?e d"
  show thesis
  proof (rule that)
    show "clear_dir_entry (fst sl) (fst (snd sl)) d = (Inr (), ?d)" by (rule clear_dir_entry_ok [OF f s])
    show "vol_inv v ?d own dirs"
      by (rule vol_inv_slot(1) [OF inv p cs(1) s le cf(1), where N = "{}"]) (auto simp: cf(2))
    show "entries v ?d own dirs \<subseteq> entries v d own dirs - {sl}"
      using vol_inv_slot(2) [OF inv p cs(1) s le cf(1), where N = "{}"] by (simp add: cf(2))
    show "view v ?d own dirs = afs_set p ?t None (view v d own dirs)"
      using view_slot [OF inv p cs(1) s le cf(1), where N = "{}" and t = ?t] cf(2) oth l(2) by simp
    fix c assume "c \<in> dirs" "c \<noteq> p"
    moreover from this vol_invD(3) [OF inv] obtain cs' where cs': "own c = Some cs'" by blast
    ultimately show "dslots v ?d own c = dslots v d own c"
      using object_unchanged(1) [OF inv cs(1) slot_write_only [OF f s le] cs'] by (simp add: dslots_def cs')
  qed
qed

lemma locate_entry_view:
  assumes inv: "vol_inv v d own dirs" and p: "p \<in> dirs"
  shows "locate_entry v d p name =
    Inr (map_option (\<lambda>sl. (fst sl, fst (snd sl), decode_entry (slot_entry sl)))
      (dir_find (dslots v d own p) (short_name_83 name)))"
proof (rule dir_chain [OF inv p])
  fix cs assume c: "chain v d p cs" and S: "dslots v d own p = slots v d cs"
  show ?thesis unfolding S by (rule locate_entry_ok [OF vol_invD(1) [OF inv] c])
qed

section \<open>\<open>unlink\<close>\<close>

lemma unlink_ok:
  assumes inv: "vol_inv v d own dirs" and r: "resolve_parent v d path = Inr (p, name)"
    and fl: "view v d own dirs p (short_name_83 name) = Some (AFile bs)"
  obtains d' own' where "Fat32_unlink v path d = (Inr (), d')" "vol_inv v d' own' dirs"
    "view v d' own' dirs = afs_set p (short_name_83 name) None (view v d own dirs)"
proof -
  let ?t = "short_name_83 name"
  have p: "p \<in> dirs" by (rule resolve_dir [OF inv r])
  from fl obtain sl where sl: "dir_find (dslots v d own p) ?t = Some sl"
    and nd: "\<not> de_is_dir (decode_entry (slot_entry sl))"
    by (auto simp: view_found [OF p] node_def split: if_splits)
  let ?k = "entry_cluster (slot_entry sl)"
  note en = dir_find_entry(1) [OF p sl]
  have ok: "entry_ok v own dirs (slot_entry sl)" by (rule vol_invD(6) [OF inv en])
  obtain d1 where d1: "clear_dir_entry (fst sl) (fst (snd sl)) d = (Inr (), d1)" "vol_inv v d1 own dirs"
    "view v d1 own dirs = afs_set p ?t None (view v d own dirs)"
    "entries v d1 own dirs \<subseteq> entries v d own dirs - {sl}"
    by (rule clear_entry [OF inv p sl])
  have u: "Fat32_unlink v path d = (if ?k \<noteq> 0 then free_chain v ?k else ret ()) d1"
    using r nd d1(1) by (simp add: Fat32_unlink_def reads_def locate_entry_view [OF inv p] sl)
  show thesis
  proof (cases "own ?k")
    case None
    then have "?k = 0" using ok nd by (auto simp: entry_ok_def Let_def)
    then have "Fat32_unlink v path d = (Inr (), d1)" using u by (simp add: ret_def)
    then show thesis using d1(2,3) by (rule that)
  next
    case (Some cs)
    note k0 = objectD(6) [OF inv Some]
    have kd: "?k \<notin> dirs" using ok nd k0 by (auto simp: entry_ok_def Let_def)
    have "orphan v d1 own dirs ?k" using orphan_old [OF inv en Some, of d1 "{}"] d1(4) by simp
    from release_object [OF d1(2) Some kd this] obtain d2 where
      d2: "free_chain v ?k d1 = (Inr (), d2)" "vol_inv v d2 (own(?k := None)) dirs"
      "view v d2 (own(?k := None)) dirs = view v d1 own dirs" by metis
    have "Fat32_unlink v path d = (Inr (), d2)" using u k0 d2(1) by simp
    then show thesis using d2(2,3) d1(3) that by simp
  qed
qed

section \<open>\<open>rmdir\<close>\<close>

lemma no_names_dots:
  assumes inv: "vol_inv v d own dirs" and k: "k \<in> dirs" and e: "\<forall>t. view v d own dirs k t = None"
  shows "\<forall>sl \<in> set (live (dslots v d own k)). dot_slot sl"
proof
  fix sl assume sl: "sl \<in> set (live (dslots v d own k))"
  let ?t = "take 11 (slot_entry sl)"
  have "dir_find (dslots v d own k) ?t = Some sl"
    using dir_find_Some_iff [OF vol_invD(5) [OF inv k]] sl by (simp add: named_def)
  with spec [OF e, of ?t] k show "dot_slot sl" by (auto simp: view_def split: if_splits)
qed

lemma rmdir_ok:
  assumes inv: "vol_inv v d own dirs" and r: "resolve_parent v d path = Inr (p, name)"
    and dr: "view v d own dirs p (short_name_83 name) = Some (ADir k)"
    and em: "dir_is_empty v d k = Inr True" "\<forall>t. view v d own dirs k t = None"
  obtains d' own' where "Fat32_rmdir v path d = (Inr (), d')" "vol_inv v d' own' (dirs - {k})"
    "view v d' own' (dirs - {k}) = afs_set p (short_name_83 name) None (view v d own dirs)"
proof -
  let ?t = "short_name_83 name"
  have p: "p \<in> dirs" by (rule resolve_dir [OF inv r])
  from dr obtain sl where sl: "dir_find (dslots v d own p) ?t = Some sl"
    and dd: "de_is_dir (decode_entry (slot_entry sl))" "entry_cluster (slot_entry sl) = k"
    by (auto simp: view_found [OF p] node_def split: if_splits)
  note en = dir_find_entry(1) [OF p sl]
  have kd: "k \<in> dirs" "k \<noteq> root_cluster v"
    using vol_invD(6) [OF inv en] dd by (auto simp: entry_ok_def Let_def)
  have kp: "k \<noteq> p" using dr em(2) by auto
  obtain cs where cs: "own k = Some cs" using vol_invD(3) [OF inv] kd(1) by blast
  obtain d1 where d1: "clear_dir_entry (fst sl) (fst (snd sl)) d = (Inr (), d1)" "vol_inv v d1 own dirs"
    "view v d1 own dirs = afs_set p ?t None (view v d own dirs)"
    "entries v d1 own dirs \<subseteq> entries v d own dirs - {sl}"
    "\<And>c. c \<in> dirs \<Longrightarrow> c \<noteq> p \<Longrightarrow> dslots v d1 own c = dslots v d own c"
    using clear_entry [OF inv p sl] by metis
  have orph: "orphan v d1 own dirs k" using orphan_old [OF inv en, of cs d1 "{}"] d1(4) cs dd(2) by simp
  have dots: "\<forall>s \<in> set (live (dslots v d1 own k)). dot_slot s"
    using no_names_dots [OF inv kd(1) em(2)] d1(5) [OF kd(1) kp] by simp
  note dr' = vol_inv_drop_dir [OF d1(2) kd orph dots]
  have vw: "view v d1 own (dirs - {k}) = view v d1 own dirs"
  proof (intro ext)
    fix c t
    have "view v d1 own dirs k t = None" using d1(3) em(2) kp by (simp add: afs_set_def)
    then show "view v d1 own (dirs - {k}) c t = view v d1 own dirs c t" by (cases "c = k") (auto simp: view_def)
  qed
  have "orphan v d1 own (dirs - {k}) k" using orph dr'(2) by (simp add: orphan_def)
  from release_object [OF dr'(1) cs _ this] obtain d2 where
    d2: "free_chain v k d1 = (Inr (), d2)" "vol_inv v d2 (own(k := None)) (dirs - {k})"
    "view v d2 (own(k := None)) (dirs - {k}) = view v d1 own (dirs - {k})" by auto
  have "Fat32_rmdir v path d = (Inr (), d2)"
    using r dd d1(1) em(1) d2(1) by (simp add: Fat32_rmdir_def reads_def locate_entry_view [OF inv p] sl)
  then show thesis using d2(2,3) d1(3) vw that by simp
qed

section \<open>\<open>mkdir\<close>\<close>

lemma zero_sectors_ok:
  assumes "fs_ok v d" "set ss \<subseteq> data_sectors v"
  shows "\<exists>d'. zero_sectors ss d = (Inr (), d') \<and> only_sectors v ss d d' \<and>
    (\<forall>s \<in> set ss. media d' (ucast s) = replicate SECTOR_SIZE 0)"
  using assms
proof (induction ss arbitrary: d)
  case (Cons s ss)
  let ?d = "set_sector (ucast s) (replicate SECTOR_SIZE 0) d"
  have w: "wr s (replicate SECTOR_SIZE 0) d = (Inr (), ?d)"
    using Cons.prems data_sector_bound [OF fs_okD(1) [OF Cons.prems(1)]] by (intro wr_ok [OF Cons.prems(1)]) simp
  have ok: "fs_ok v ?d" by (rule fs_ok_set [OF Cons.prems(1)]) simp
  from Cons.IH [OF ok] Cons.prems(2) obtain d' where
    d': "zero_sectors ss ?d = (Inr (), d')" "only_sectors v ss ?d d'"
    "\<forall>s \<in> set ss. media d' (ucast s) = replicate SECTOR_SIZE 0" by auto
  have "same_device ?d d'" using d'(2) by (simp add: only_sectors_def)
  from same_device_trans [OF same_device_set this] have "only_sectors v (s # ss) d d'"
    using d'(2) by (simp add: only_sectors_def)
  moreover have "media d' (ucast s) = replicate SECTOR_SIZE 0"
    using d'(3) only_sectors_media [OF d'(2), of s] by (cases "s \<in> set ss") auto
  ultimately show ?case using w d'(1,3) by simp
qed (simp add: ret_def)

definition dir_sector :: "Fat32 \<Rightarrow> u32 \<Rightarrow> u32 \<Rightarrow> bytes" where
  "dir_sector v k parent =
     put_at DIR_ENTRY_SIZE (fill_dir_entry (replicate DIR_ENTRY_SIZE 0) (str ''..         '') ATTR_DIRECTORY
       (if parent = root_cluster v then 0 else parent) 0)
      (put_at 0 (fill_dir_entry (replicate DIR_ENTRY_SIZE 0) (str ''.          '') ATTR_DIRECTORY k 0)
        (replicate SECTOR_SIZE 0))"

lemma slice_replicate: "o' + n \<le> m \<Longrightarrow> slice o' n (replicate m z) = replicate n z"
  by (simp add: slice_def)

lemma dot_names: "length (str ''.          '') = 11" "length (str ''..         '') = 11"
  "str ''.          '' ! 0 = 0x2E" "str ''..         '' ! 0 = 0x2E" "str ''.          '' \<noteq> str ''..         ''"
  by code_simp+

lemma dir_sector_slots:
  shows "length (dir_sector v k parent) = SECTOR_SIZE"
    and "slice 0 DIR_ENTRY_SIZE (dir_sector v k parent) =
      fill_dir_entry (replicate DIR_ENTRY_SIZE 0) (str ''.          '') ATTR_DIRECTORY k 0"
    and "slice DIR_ENTRY_SIZE DIR_ENTRY_SIZE (dir_sector v k parent) =
      fill_dir_entry (replicate DIR_ENTRY_SIZE 0) (str ''..         '') ATTR_DIRECTORY
        (if parent = root_cluster v then 0 else parent) 0"
    and "2 \<le> i \<Longrightarrow> i < 16 \<Longrightarrow> slice (DIR_ENTRY_SIZE * i) DIR_ENTRY_SIZE (dir_sector v k parent) = replicate DIR_ENTRY_SIZE 0"
proof -
  let ?e1 = "fill_dir_entry (replicate DIR_ENTRY_SIZE 0) (str ''.          '') ATTR_DIRECTORY k 0"
  let ?e2 = "fill_dir_entry (replicate DIR_ENTRY_SIZE 0) (str ''..         '') ATTR_DIRECTORY
    (if parent = root_cluster v then 0 else parent) 0"
  have l: "length ?e1 = 32" "length ?e2 = 32" using dot_names by (simp_all add: DIR_ENTRY_SIZE_def)
  have D: "DIR_ENTRY_SIZE = 32" "SECTOR_SIZE = 512" by (simp_all add: DIR_ENTRY_SIZE_def SECTOR_SIZE_def)
  show "length (dir_sector v k parent) = SECTOR_SIZE"
    unfolding dir_sector_def using l by (simp add: D)
  show "slice 0 DIR_ENTRY_SIZE (dir_sector v k parent) = ?e1"
    unfolding dir_sector_def using l by (simp add: D slice_put_at_other)
  show "slice DIR_ENTRY_SIZE DIR_ENTRY_SIZE (dir_sector v k parent) = ?e2"
    unfolding dir_sector_def using l by (simp add: D)
  assume i: "2 \<le> i" "i < 16"
  then show "slice (DIR_ENTRY_SIZE * i) DIR_ENTRY_SIZE (dir_sector v k parent) = replicate DIR_ENTRY_SIZE 0"
    unfolding dir_sector_def using l by (simp add: D slice_put_at_other slice_replicate)
qed

lemma init_dir_cluster_ok:
  assumes ok: "fs_ok v d" and k: "valid_cluster v k"
  obtains d' where "init_dir_cluster v k parent d = (Inr (), d')"
    "only_sectors v (cluster_sectors v k) d d'"
    "media d' (ucast (hd (cluster_sectors v k))) = dir_sector v k parent"
    "\<forall>s \<in> set (tl (cluster_sectors v k)). media d' (ucast s) = replicate SECTOR_SIZE 0"
proof -
  have sp: "0 < unat (sectors_per_cluster v)" using fs_okD(1) [OF ok] by (simp add: vol_ok_def unat_gt_0)
  then obtain s0 ss where cs: "cluster_sectors v k = s0 # ss" by (cases "cluster_sectors v k") (auto dest: arg_cong [of _ _ length])
  have s0: "first_sector_of_cluster v k = s0"
    using cs sp by (simp add: cluster_sectors_def upt_conv_Cons)
  have dt: "set (s0 # ss) \<subseteq> data_sectors v" using k cs by (auto simp: data_sectors_def)
  have nn: "s0 \<notin> set ss" using distinct_cluster_sectors [OF fs_okD(1) [OF ok] k] cs by simp
  let ?d = "set_sector (ucast s0) (dir_sector v k parent) d"
  have ok1: "fs_ok v ?d" by (rule fs_ok_set [OF ok dir_sector_slots(1)])
  have w: "wr s0 (dir_sector v k parent) d = (Inr (), ?d)"
    using dt data_sector_bound [OF fs_okD(1) [OF ok]] by (intro wr_ok [OF ok]) simp
  from zero_sectors_ok [OF ok1, of ss] dt obtain d' where d': "zero_sectors ss ?d = (Inr (), d')"
    "only_sectors v ss ?d d'" "\<forall>s \<in> set ss. media d' (ucast s) = replicate SECTOR_SIZE 0" by auto
  have "init_dir_cluster v k parent d = (Inr (), d')"
    using w d'(1) by (simp add: init_dir_cluster_def Let_def cs s0 dir_sector_def slice_put_at_other
        slice_replicate SECTOR_SIZE_def DIR_ENTRY_SIZE_def dot_names)
  moreover have "same_device ?d d'" using d'(2) by (simp add: only_sectors_def)
  from same_device_trans [OF same_device_set this] have "only_sectors v (s0 # ss) d d'"
    using d'(2) by (simp add: only_sectors_def)
  moreover have "media d' (ucast s0) = dir_sector v k parent"
    using only_sectors_media [OF d'(2) nn] by simp
  ultimately show thesis using that d'(3) by (simp add: cs)
qed

lemma new_dir_slots:
  assumes "cluster_sectors v k = s0 # ss" "media d (ucast s0) = dir_sector v k parent"
    and "\<forall>s \<in> set ss. media d (ucast s) = replicate SECTOR_SIZE 0"
  shows "dir_ok (slots v d [k])" and "\<forall>sl \<in> set (live (slots v d [k])). dot_slot sl"
proof -
  let ?e1 = "slice 0 DIR_ENTRY_SIZE (dir_sector v k parent)"
  let ?e2 = "slice DIR_ENTRY_SIZE DIR_ENTRY_SIZE (dir_sector v k parent)"
  define rest where "rest = map (\<lambda>i. (s0, DIR_ENTRY_SIZE * i,
      slice (DIR_ENTRY_SIZE * i) DIR_ENTRY_SIZE (media d (ucast s0)))) [2..<16] @ concat (map (sector_slots d) ss)"
  have "[0..<16] = 0 # 1 # [2..<(16 :: nat)]" by (simp add: upt_conv_Cons numeral_2_eq_2)
  then have S: "slots v d [k] = (s0, 0, ?e1) # (s0, DIR_ENTRY_SIZE, ?e2) # rest"
    using assms(2) by (simp add: slots_def chain_sectors_def assms(1) sector_slots_def rest_def)
  have l: "length (replicate DIR_ENTRY_SIZE (0 :: u8)) = DIR_ENTRY_SIZE" by simp
  have at: "\<not> skipped_attr ATTR_DIRECTORY"
    by (simp add: skipped_attr_def ATTR_DIRECTORY_def ATTR_LONG_NAME_def ATTR_VOLUME_ID_def)
  have e1: "?e1 ! 0 = 0x2E" "?e1 ! 11 = ATTR_DIRECTORY" "take 11 ?e1 = str ''.          ''"
    unfolding dir_sector_slots(2) using fill_fields [OF l dot_names(1)] dot_names(3) by simp_all
  have e2: "?e2 ! 0 = 0x2E" "?e2 ! 11 = ATTR_DIRECTORY" "take 11 ?e2 = str ''..         ''"
    unfolding dir_sector_slots(3) using fill_fields [OF l dot_names(2)] dot_names(4) by simp_all
  have "list_all unused rest"
  proof -
    have "unused (s0, DIR_ENTRY_SIZE * i, slice (DIR_ENTRY_SIZE * i) DIR_ENTRY_SIZE (media d (ucast s0)))"
      if "2 \<le> i" "i < 16" for i
      using dir_sector_slots(4) [OF that] by (simp add: unused_def assms(2) DIR_ENTRY_SIZE_def)
    moreover have "unused sl" if "s \<in> set ss" "sl \<in> set (sector_slots d s)" for s sl
      using that assms(3) by (auto simp: sector_slots_def unused_def slice_replicate DIR_ENTRY_SIZE_def SECTOR_SIZE_def)
    ultimately show ?thesis by (auto simp: rest_def list_all_iff)
  qed
  then have "live rest = []" "list_all unused (dropWhile (\<lambda>sl. \<not> unused sl) rest)"
    using live_all_unused by (auto, cases rest) auto
  moreover have "live_entry ?e1" "live_entry ?e2" using e1 e2 at by (auto simp: live_entry_def)
  ultimately have lv: "live (slots v d [k]) = [(s0, 0, ?e1), (s0, DIR_ENTRY_SIZE, ?e2)]"
    and dw: "list_all unused (dropWhile (\<lambda>sl. \<not> unused sl) (slots v d [k]))"
    unfolding S by (simp_all add: live_new) (simp add: unused_def e1 e2)
  show "dir_ok (slots v d [k])" unfolding dir_ok_def lv using dw e1(3) e2(3) dot_names(5) by simp
  show "\<forall>sl \<in> set (live (slots v d [k])). dot_slot sl" unfolding lv using e1(1) e2(1) by (simp add: dot_slot_def)
qed

lemma fresh_directory:
  assumes inv: "vol_inv v d own dirs" and fr: "free_set v d \<noteq> {}"
  obtains k d1 d2 where "alloc_cluster v d = (Inr k, d1)" "init_dir_cluster v k parent d1 = (Inr (), d2)"
    "fresh_object v d own dirs d2 k [k]" "dir_ok (slots v d2 [k])"
    "\<forall>sl \<in> set (live (slots v d2 [k])). dot_slot sl"
proof (cases rule: alloc_cluster_cases [OF vol_invD(1) [OF inv], case_names found full])
  case (found k)
  note ok = vol_invD(1) [OF inv]
  let ?d = "fat_put v k FAT32_EOC d"
  note ta = table_alloc [OF ok found(2)]
  have k: "valid_cluster v k" using found(2) by (simp add: free_set_def)
  have "chain v ?d k [k]" using k EOC_invalid(1) [OF fs_okD(1) [OF ok]] by (simp add: ta(1))
  then have f: "fresh_object v d own dirs ?d k [k]"
    using found(2) ta by (intro fresh_object_alloc [OF inv ta(2)]) auto
  obtain d2 where d2: "init_dir_cluster v k parent ?d = (Inr (), d2)"
    "only_sectors v (cluster_sectors v k) ?d d2"
    "media d2 (ucast (hd (cluster_sectors v k))) = dir_sector v k parent"
    "\<forall>s \<in> set (tl (cluster_sectors v k)). media d2 (ucast s) = replicate SECTOR_SIZE 0"
    by (rule init_dir_cluster_ok [OF only_table_ok [OF ta(2)] k])
  have "0 < unat (sectors_per_cluster v)" using fs_okD(1) [OF ok] by (simp add: vol_ok_def unat_gt_0)
  then have "cluster_sectors v k = hd (cluster_sectors v k) # tl (cluster_sectors v k)"
    by (cases "cluster_sectors v k") (auto dest: arg_cong [of _ _ length])
  note nd = new_dir_slots [OF this d2(3,4)]
  have "fresh_object v d own dirs d2 k [k]"
    by (rule fresh_object_data [OF f]) (simp add: chain_sectors_def d2(2))
  then show thesis using that [OF found(1) d2(1)] nd by blast
qed (use fr in simp)

lemma mkdir_ok:
  assumes inv: "vol_inv v d own dirs" and r: "resolve_parent v d path = Inr (p, name)"
    and nm: "short_name_83 name ! 0 \<noteq> 0" "short_name_83 name ! 0 \<noteq> 0xE5"
    and nn: "view v d own dirs p (short_name_83 name) = None"
    and room: "locate_or_free_slot v d p (short_name_83 name) \<noteq> Inl DirFull" and fr: "free_set v d \<noteq> {}"
  obtains d' own' k where "Fat32_mkdir v path d = (Inr (), d')" "vol_inv v d' own' (insert k dirs)" "k \<notin> dirs"
    "view v d' own' (insert k dirs) = afs_set p (short_name_83 name) (Some (ADir k)) (view v d own dirs)"
proof -
  let ?t = "short_name_83 name"
  have p: "p \<in> dirs" by (rule resolve_dir [OF inv r])
  have n: "dir_find (dslots v d own p) ?t = None" using nn by (simp add: view_found [OF p])
  then obtain sl where sl: "free_slot (dslots v d own p) = Some sl"
    using room by (auto simp: locate_slot [OF inv p] split: option.splits)
  obtain k d1 d2 where a: "alloc_cluster v d = (Inr k, d1)" "init_dir_cluster v k p d1 = (Inr (), d2)"
    and f: "fresh_object v d own dirs d2 k [k]" and dk: "dir_ok (slots v d2 [k])"
      "\<forall>sl \<in> set (live (slots v d2 [k])). dot_slot sl"
    by (rule fresh_directory [OF inv fr])
  let ?own = "own(k \<mapsto> [k])" and ?D = "insert k dirs"
  have kd: "k \<notin> dirs" and i2: "vol_inv v d2 ?own dirs" and o2: "orphan v d2 ?own dirs k" and k0: "k \<noteq> 0"
    and v2: "view v d2 ?own dirs = view v d own dirs" and ds: "dslots v d2 ?own p = dslots v d own p"
    using f p by (auto simp: fresh_object_def)
  have dsk: "dslots v d2 ?own k = slots v d2 [k]" by (simp add: dslots_def)
  have i3: "vol_inv v d2 ?own ?D" by (rule vol_inv_add_dir [OF i2 _ kd o2 dk]) simp
  have es: "entries v d2 ?own ?D = entries v d2 ?own dirs" by (rule entries_insert) (simp add: dsk dk(2))
  have v3: "view v d2 ?own ?D = view v d2 ?own dirs"
  proof (intro ext)
    fix c t
    have "view v d2 ?own ?D k t = None"
      using dk(2) dir_find_live [of "slots v d2 [k]" t] by (auto simp: view_def dsk split: option.splits)
    then show "view v d2 ?own ?D c t = view v d2 ?own dirs c t" using kd by (cases "c = k") (auto simp: view_def)
  qed
  have p3: "p \<in> ?D" using p by simp
  obtain cs where cs: "?own p = Some cs" "chain v d2 p cs" using dir_chain [OF i3 p3] by metis
  have S: "slots v d2 cs = dslots v d own p" using ds cs(1) by (simp add: dslots_def)
  have sli: "sl \<in> set (slots v d2 cs)" unfolding S using sl by (auto simp: free_slot_def find_Some_iff)
  have len: "length (slot_entry sl) = DIR_ENTRY_SIZE" by (rule slot_facts [OF vol_invD(1) [OF i3] cs(2) sli])
  let ?e = "fill_dir_entry (slot_entry sl) ?t ATTR_DIRECTORY k 0"
  note ff = fill_fields [OF len length_short_name, of name ATTR_DIRECTORY k 0]
  have at: "\<not> skipped_attr ATTR_DIRECTORY" "ATTR_DIRECTORY AND ATTR_DIRECTORY \<noteq> 0"
    by (simp_all add: skipped_attr_def ATTR_DIRECTORY_def ATTR_LONG_NAME_def ATTR_VOLUME_ID_def)
  have kr: "k \<noteq> root_cluster v" using kd vol_invD(2) [OF inv] by auto
  have eo: "entry_ok v ?own ?D ?e" "node v d2 ?own ?e = ADir k"
    using ff(4,5) at(2) kr by (simp_all add: entry_ok_def node_def)
  have ku: "k = 0 \<or> (\<forall>x \<in> entries v d2 ?own ?D - {sl}. entry_cluster (slot_entry x) \<noteq> k)"
    using o2 unfolding es by (auto simp: orphan_def)
  have place: "dir_find (slots v d2 cs) ?t = Some sl \<or>
      dir_find (slots v d2 cs) ?t = None \<and> free_slot (slots v d2 cs) = Some sl"
    unfolding S using n sl by simp
  note pe = publish_entry [OF i3 p3 cs(1) length_short_name nm short_name_not_dot at(1) place refl eo(1) ku]
  have "Fat32_mkdir v path d = (Inr (), slot_write sl ?e d2)"
    using r a pe(1) n sl by (simp add: Fat32_mkdir_def Let_def reads_def locate_slot [OF inv p] on_error_def)
  then show thesis using pe(2,3) eo(2) v3 v2 kd that by simp
qed

end
