(* ===== verification/Demo_Disk.thy ===== *)
theory Demo_Disk
  imports Fat_Dirs
begin

text \<open>
  A small formatted volume on which the theorems about the file system are applied: twelve
  sectors, one sector per cluster, one copy of the table, the root directory in cluster 2 and
  every other cluster free.
\<close>

definition demo_boot :: bytes where
  "demo_boot =
     put_at 44 (le_bytes 4 (2 :: u32)) (put_at 36 (le_bytes 4 (1 :: u32))
      (put_at 32 (le_bytes 4 (12 :: u32)) (put_at 16 [1] (put_at 14 [1, 0] (put_at 13 [1]
       (put_at 11 [0, 2] (replicate 512 0)))))))"

definition demo_fat :: bytes where
  "demo_fat = put_at 8 (le_bytes 4 FAT32_EOC) (replicate 512 0)"

definition demo_disk :: disk where
  "demo_disk = \<lparr>present = True, capacity_sectors = 12,
     media = (\<lambda>lba. if lba = 0 then demo_boot else if lba = 1 then demo_fat else replicate 512 0),
     rd_status = (\<lambda>_. 0), wr_status = (\<lambda>_. 0)\<rparr>"

definition demo_vol :: Fat32 where
  "demo_vol = \<lparr>sectors_per_cluster = 1, fat_start_sector = 1, data_start_sector = 2, root_cluster = 2,
     cluster_count = 10, num_fats = 1, fat_size = 1\<rparr>"

lemma demo_mount: "Fat32_mount demo_disk = Inr demo_vol"
  by code_simp

lemma demo_lengths: "length demo_boot = SECTOR_SIZE" "length demo_fat = SECTOR_SIZE"
  by code_simp+

lemma demo_ok: "fs_ok demo_vol demo_disk"
proof -
  have "vol_ok demo_vol demo_disk"
    by (simp add: vol_ok_def demo_vol_def demo_disk_def)
  moreover have "sectors_ok demo_disk"
    using demo_lengths by (simp add: sectors_ok_def demo_disk_def SECTOR_SIZE_def)
  ultimately show ?thesis by (simp add: fs_ok_def fault_free_def demo_disk_def)
qed

lemma demo_table: "table demo_vol demo_disk 2 = FAT32_EOC"
  by code_simp

lemma demo_dir: "dir_ok (slots demo_vol demo_disk [2])" "live (slots demo_vol demo_disk [2]) = []"
  by code_simp+

definition demo_own :: "u32 \<rightharpoonup> u32 list" where
  "demo_own = [2 \<mapsto> [2]]"

lemma demo_inv: "vol_inv demo_vol demo_disk demo_own {2}"
proof -
  have v: "valid_cluster demo_vol 2" "\<not> valid_cluster demo_vol FAT32_EOC" by code_simp+
  have "FAT32_EOC \<noteq> 0" by code_simp
  with v have "objects_ok demo_vol demo_disk demo_own"
    by (auto simp: objects_ok_def demo_own_def demo_table free_set_def split: if_splits)
  moreover have "entries demo_vol demo_disk demo_own {2} = {}"
    by (simp add: entries_def dslots_def demo_own_def demo_dir(2))
  moreover have "root_cluster demo_vol = 2" by (simp add: demo_vol_def)
  ultimately show ?thesis
    using demo_ok demo_dir(1) by (simp add: vol_inv_def dslots_def demo_own_def refs_def)
qed

end
