(* ===== verification/Fat_Correct.thy ===== *)
theory Fat_Correct
  imports Demo_Disk
begin

text \<open>
  What the file system of \<open>src/fs/fat.rs\<close> promises its callers, stated on its operations: each
  one refines an update of the abstract view, what is written is read back, no operation disturbs
  another file, and an operation that fails leaves every file as it was.
\<close>

section \<open>Updates of the view and paths\<close>

lemma a_walk_set:
  assumes "\<forall>k. V p t \<noteq> Some (ADir k)"
  shows "a_walk V c comps = Inr r \<Longrightarrow> a_walk (afs_set p t n V) c comps = Inr r"
  using assms
proof (induction V c comps rule: a_walk.induct)
  case (3 V c x m rest)
  then obtain k where k: "V c (short_name_83 x) = Some (ADir k)" "a_walk V k (m # rest) = Inr r"
    by (auto split: option.splits anode.splits)
  have "(c, short_name_83 x) \<noteq> (p, t)" using k(1) 3(3) by auto
  then have "afs_set p t n V c (short_name_83 x) = Some (ADir k)" using k(1) by (auto simp: afs_set_def)
  then show ?case using 3(1) [OF k(1) refl k(2) 3(3)] by simp
qed auto

lemma a_resolve_set:
  assumes "\<forall>k. V p t \<noteq> Some (ADir k)" "a_resolve V root path = Inr r"
  shows "a_resolve (afs_set p t n V) root path = Inr r"
proof -
  from assms(2) obtain c m where "a_walk V root (path_components path) = Inr (c, m)" "m \<noteq> []" "r = (c, m)"
    by (auto simp: a_resolve_def rbind_Inr_iff split: if_splits)
  with a_walk_set [where V = V and p = p and t = t, OF assms(1)] show ?thesis by (simp add: a_resolve_def)
qed

lemma a_read_set:
  assumes "\<forall>k. V p (short_name_83 name) \<noteq> Some (ADir k)" "a_resolve V root path = Inr (p, name)"
  shows "a_read (afs_set p (short_name_83 name) n V) root path =
    (case n of None \<Rightarrow> Inl NotFound | Some (ADir _) \<Rightarrow> Inl IsADirectory | Some (AFile bs) \<Rightarrow> Inr bs)"
  using a_resolve_set [where V = V and p = p, OF assms] by (simp add: a_read_def afs_set_def)

lemma a_read_other:
  assumes "\<forall>k. V p t \<noteq> Some (ADir k)" "a_resolve V root path = Inr (p', name')"
    and "(p', short_name_83 name') \<noteq> (p, t)"
  shows "a_read (afs_set p t n V) root path = a_read V root path"
  using a_resolve_set [where V = V and p = p and t = t, OF assms(1,2)] assms(2,3) by (auto simp: a_read_def afs_set_def)

section \<open>The failures of \<open>write_file\<close>\<close>

lemma write_file_errors:
  assumes inv: "vol_inv v d own dirs" and len: "length data < 2 ^ 32"
  shows "resolve_parent v d path = Inl e \<Longrightarrow> Fat32_write_file v path data d = (Inl e, d)"
    and "resolve_parent v d path = Inr (p, name) \<Longrightarrow>
      locate_or_free_slot v d p (short_name_83 name) = Inl DirFull \<Longrightarrow>
      Fat32_write_file v path data d = (Inl DirFull, d)"
    and "resolve_parent v d path = Inr (p, name) \<Longrightarrow>
      locate_or_free_slot v d p (short_name_83 name) \<noteq> Inl DirFull \<Longrightarrow>
      data \<noteq> [] \<Longrightarrow> card (free_set v d) < div_ceil (length data) (cluster_bytes v) \<Longrightarrow>
      \<exists>d'. Fat32_write_file v path data d = (Inl NoSpace, d') \<and> vol_inv v d' own dirs \<and>
        view v d' own dirs = view v d own dirs"
proof -
  show "resolve_parent v d path = Inl e \<Longrightarrow> Fat32_write_file v path data d = (Inl e, d)"
    by (simp add: write_file_stages reads_def)
  show "resolve_parent v d path = Inr (p, name) \<Longrightarrow>
      locate_or_free_slot v d p (short_name_83 name) = Inl DirFull \<Longrightarrow>
      Fat32_write_file v path data d = (Inl DirFull, d)"
    by (simp add: write_file_stages reads_def)
  assume r: "resolve_parent v d path = Inr (p, name)"
    and l: "locate_or_free_slot v d p (short_name_83 name) \<noteq> Inl DirFull"
    and n: "data \<noteq> []" "card (free_set v d) < div_ceil (length data) (cluster_bytes v)"
  have p: "p \<in> dirs" by (rule resolve_dir [OF inv r])
  then obtain x where x: "locate_or_free_slot v d p (short_name_83 name) = Inr x"
    using l by (auto simp: locate_slot [OF inv p] split: option.splits)
  obtain d2 where "write_stage v data d = (Inl NoSpace, d2)" "vol_inv v d2 own dirs"
    "view v d2 own dirs = view v d own dirs" by (rule write_stage_full [OF inv len n])
  then show "\<exists>d'. Fat32_write_file v path data d = (Inl NoSpace, d') \<and> vol_inv v d' own dirs \<and>
        view v d' own dirs = view v d own dirs"
    using r x by (cases x) (simp add: write_file_stages reads_def)
qed

text \<open>A name \<open>write_file\<close> and \<open>mkdir\<close> can store: its first byte is not a marker of the format.\<close>

definition storable :: "bytes \<Rightarrow> bool" where
  "storable name \<longleftrightarrow> short_name_83 name ! 0 \<noteq> 0 \<and> short_name_83 name ! 0 \<noteq> 0xE5"

text \<open>The name a path ends in: storable, and not the name of a directory.\<close>

definition file_target :: "Fat32 \<Rightarrow> disk \<Rightarrow> (u32 \<rightharpoonup> u32 list) \<Rightarrow> u32 set \<Rightarrow> bytes \<Rightarrow> bool" where
  "file_target v d own dirs path \<longleftrightarrow>
     (case resolve_parent v d path of
        Inl _ \<Rightarrow> True
      | Inr (p, name) \<Rightarrow> storable name \<and>
          (case view v d own dirs p (short_name_83 name) of Some (ADir _) \<Rightarrow> False | _ \<Rightarrow> True))"

lemma write_file_cases:
  assumes inv: "vol_inv v d own dirs" and len: "length data < 2 ^ 32" and ft: "file_target v d own dirs path"
  obtains (written) p name d' own' where "resolve_parent v d path = Inr (p, name)"
      "\<forall>k. view v d own dirs p (short_name_83 name) \<noteq> Some (ADir k)"
      "Fat32_write_file v path data d = (Inr (), d')" "vol_inv v d' own' dirs"
      "view v d' own' dirs = afs_set p (short_name_83 name) (Some (AFile data)) (view v d own dirs)"
    | (failed) e d' where "Fat32_write_file v path data d = (Inl e, d')" "vol_inv v d' own dirs"
      "view v d' own dirs = view v d own dirs"
      "resolve_parent v d path = Inl e \<or> e = DirFull \<or>
       e = NoSpace \<and> card (free_set v d) < div_ceil (length data) (cluster_bytes v)"
proof (cases "resolve_parent v d path")
  case (Inl e)
  then show thesis using failed [OF write_file_errors(1) [OF inv len Inl] inv] by simp
next
  case (Inr pn)
  obtain p name where pn: "pn = (p, name)" by (cases pn)
  then have r: "resolve_parent v d path = Inr (p, name)" using Inr by simp
  have nm: "short_name_83 name ! 0 \<noteq> 0" "short_name_83 name ! 0 \<noteq> 0xE5"
    and nd: "\<forall>k. view v d own dirs p (short_name_83 name) \<noteq> Some (ADir k)"
    using ft r by (auto simp: file_target_def storable_def)
  show thesis
  proof (cases "locate_or_free_slot v d p (short_name_83 name) = Inl DirFull")
    case True
    then show thesis using failed [OF write_file_errors(2) [OF inv len r True] inv] by simp
  next
    case room: False
    show thesis
    proof (cases "data = [] \<or> div_ceil (length data) (cluster_bytes v) \<le> card (free_set v d)")
      case True
      obtain d' own' where "Fat32_write_file v path data d = (Inr (), d')" "vol_inv v d' own' dirs"
        "view v d' own' dirs = afs_set p (short_name_83 name) (Some (AFile data)) (view v d own dirs)"
        by (rule write_file_ok [OF inv r nm nd len room True])
      then show thesis using written [OF r nd] by blast
    next
      case False
      then have n: "data \<noteq> []" "card (free_set v d) < div_ceil (length data) (cluster_bytes v)" by auto
      from write_file_errors(3) [OF inv len r room this] obtain d' where
        "Fat32_write_file v path data d = (Inl NoSpace, d')" "vol_inv v d' own dirs"
        "view v d' own dirs = view v d own dirs" by blast
      then show thesis using failed n(2) by blast
    qed
  qed
qed

section \<open>Reading\<close>

text \<open>
  C27: On a volume in order, \<open>read_file\<close> computes exactly what the abstract file system says: the
  path is resolved through the directories of the view, a missing name is \<open>NotFound\<close>, a
  directory \<open>IsADirectory\<close>, a file yields its contents, and no error of another kind arises.
\<close>

theorem read_file_refines:
  assumes "vol_inv v d own dirs"
  shows "Fat32_read_file v d path = a_read (view v d own dirs) (root_cluster v) path"
  by (rule read_file_view [OF assms])

theorem read_file_refines_witness:
  "Fat32_read_file demo_vol demo_disk (str ''/A'') = a_read (view demo_vol demo_disk demo_own {2}) 2 (str ''/A'')"
  using read_file_refines [OF demo_inv, of "str ''/A''"] by (simp add: demo_vol_def)

section \<open>Writing\<close>

text \<open>
  C2: \<open>write_file\<close> refines an update of the abstract view. If it reports success, the volume is
  still in order and its view differs from before at one name only: the file the path names now
  has exactly the given contents. If it fails, the volume is still in order and every file and
  directory is what it was; the error is that of the path, a full directory, or too few free
  clusters for the data.
\<close>

theorem write_file_refines:
  assumes "vol_inv v d own dirs" "length data < 2 ^ 32" "file_target v d own dirs path"
  shows "case Fat32_write_file v path data d of
      (Inr (), d') \<Rightarrow> \<exists>p name own'. resolve_parent v d path = Inr (p, name) \<and> vol_inv v d' own' dirs \<and>
        view v d' own' dirs = afs_set p (short_name_83 name) (Some (AFile data)) (view v d own dirs)
    | (Inl e, d') \<Rightarrow> vol_inv v d' own dirs \<and> view v d' own dirs = view v d own dirs \<and>
        (resolve_parent v d path = Inl e \<or> e = DirFull \<or>
         e = NoSpace \<and> card (free_set v d) < div_ceil (length data) (cluster_bytes v))"
proof (cases rule: write_file_cases [OF assms, case_names written failed])
  case (written p name d' own')
  then show ?thesis unfolding written(3) prod.case sum.case unit.case by blast
next
  case (failed e d')
  then show ?thesis unfolding failed(1) prod.case sum.case by blast
qed

lemma demo_target: "file_target demo_vol demo_disk demo_own {2} (str ''/A'')"
proof -
  have "resolve_parent demo_vol demo_disk (str ''/A'') = Inr (2, str ''A'')" by code_simp
  moreover have "storable (str ''A'')" by code_simp
  moreover have "dir_find (dslots demo_vol demo_disk demo_own 2) t = None" for t
    by (simp add: dslots_def demo_own_def dir_find_def demo_dir(2))
  then have "view demo_vol demo_disk demo_own {2} 2 t = None" for t by (simp add: view_def)
  ultimately show ?thesis by (simp add: file_target_def)
qed

lemma demo_write: "fst (Fat32_write_file demo_vol (str ''/A'') [104, 105] demo_disk) = Inr ()"
  by code_simp

theorem write_file_refines_witness:
  "\<exists>d' own'. Fat32_write_file demo_vol (str ''/A'') [104, 105] demo_disk = (Inr (), d') \<and>
     vol_inv demo_vol d' own' {2}"
proof -
  obtain d' where d': "Fat32_write_file demo_vol (str ''/A'') [104, 105] demo_disk = (Inr (), d')"
    using demo_write by (metis prod.collapse)
  have l: "length [104, 105 :: u8] < 2 ^ 32" by simp
  from write_file_refines [OF demo_inv l demo_target] show ?thesis
    unfolding d' prod.case sum.case unit.case by blast
qed

text \<open>
  C25: What has been written is read back: after a successful \<open>write_file\<close> of \<open>data\<close> to a path,
  \<open>read_file\<close> of the same path returns \<open>data\<close>, whatever the path named before.
\<close>

theorem write_then_read:
  assumes "vol_inv v d own dirs" "length data < 2 ^ 32" "file_target v d own dirs path"
    and "Fat32_write_file v path data d = (Inr (), d')"
  shows "Fat32_read_file v d' path = Inr data"
proof (cases rule: write_file_cases [OF assms(1-3), case_names written failed])
  case (written p name d'' own')
  have r: "a_resolve (view v d own dirs) (root_cluster v) path = Inr (p, name)"
    using written(1) resolve_parent_view [OF assms(1)] by simp
  show ?thesis
    using a_read_set [where V = "view v d own dirs" and p = p, OF written(2) r, of "Some (AFile data)"]
      read_file_view [OF written(4)] written(3,5) assms(4) by simp
next
  case (failed e d'')
  then show ?thesis using assms(4) by simp
qed

theorem write_then_read_witness:
  "\<exists>d'. Fat32_write_file demo_vol (str ''/A'') [104, 105] demo_disk = (Inr (), d') \<and>
     Fat32_read_file demo_vol d' (str ''/A'') = Inr [104, 105]"
proof -
  obtain d' where d': "Fat32_write_file demo_vol (str ''/A'') [104, 105] demo_disk = (Inr (), d')"
    using demo_write by (metis prod.collapse)
  have l: "length [104, 105 :: u8] < 2 ^ 32" by simp
  from write_then_read [OF demo_inv l demo_target d'] d' show ?thesis by blast
qed

text \<open>
  C26: \<open>write_file\<close> disturbs no other file: after it, successful or not, reading any path that
  resolves to a different name of a directory gives the same result as before.
\<close>

theorem write_file_frame:
  assumes "vol_inv v d own dirs" "length data < 2 ^ 32" "file_target v d own dirs path"
    and "resolve_parent v d path = Inr (p, name)" "resolve_parent v d path' = Inr (p', name')"
    and "(p', short_name_83 name') \<noteq> (p, short_name_83 name)"
  shows "Fat32_read_file v (snd (Fat32_write_file v path data d)) path' = Fat32_read_file v d path'"
proof (cases rule: write_file_cases [OF assms(1-3), case_names written failed])
  case (written q n d' own')
  then have q: "q = p" "n = name" using assms(4) by auto
  have r: "a_resolve (view v d own dirs) (root_cluster v) path' = Inr (p', name')"
    using assms(5) resolve_parent_view [OF assms(1)] by simp
  show ?thesis
    using a_read_other [where V = "view v d own dirs" and p = p, OF written(2) [unfolded q] r assms(6), of "Some (AFile data)"]
      read_file_view [OF written(4)] read_file_view [OF assms(1)] written(3,5) q by simp
next
  case (failed e d')
  then show ?thesis using read_file_view [OF failed(2)] read_file_view [OF assms(1)] by simp
qed

theorem write_file_frame_witness:
  "Fat32_read_file demo_vol (snd (Fat32_write_file demo_vol (str ''/A'') [104, 105] demo_disk)) (str ''/B'') =
   Fat32_read_file demo_vol demo_disk (str ''/B'')"
proof -
  have r: "resolve_parent demo_vol demo_disk (str ''/A'') = Inr (2, str ''A'')"
    "resolve_parent demo_vol demo_disk (str ''/B'') = Inr (2, str ''B'')" by code_simp+
  have n: "(2 :: u32, short_name_83 (str ''B'')) \<noteq> (2, short_name_83 (str ''A''))" by code_simp
  have l: "length [104, 105 :: u8] < 2 ^ 32" by simp
  from write_file_frame [OF demo_inv l demo_target r n] show ?thesis .
qed

section \<open>The allocator\<close>

text \<open>
  C3: On a well-formed volume, \<open>alloc_chain n\<close> succeeds exactly when \<open>n\<close> clusters are free. It
  then returns the head of a chain of \<open>n\<close> distinct clusters that were free before and changes no
  other entry of the table and no byte of any cluster. Otherwise it answers \<open>NoSpace\<close> and every
  entry of the table is what it was: the clusters it had already linked are freed again.
\<close>

theorem alloc_chain_correct:
  assumes "fs_ok v d" "n \<noteq> 0"
  shows "case alloc_chain v n d of
      (Inr first, d') \<Rightarrow> unat n \<le> card (free_set v d) \<and> only_table v d d' \<and>
        (\<exists>cs. chain v d' first cs \<and> length cs = unat n \<and> distinct cs \<and> set cs \<subseteq> free_set v d \<and>
          (\<forall>x. x \<notin> set cs \<longrightarrow> table v d' x = table v d x))
    | (Inl e, d') \<Rightarrow> card (free_set v d) < unat n \<and> e = NoSpace \<and> only_table v d d' \<and>
        table v d' = table v d"
proof (cases "unat n \<le> card (free_set v d)")
  case True
  have "0 < unat n" using assms(2) by (simp add: unat_gt_0)
  then obtain d' cs where
    r: "alloc_chain v n d = (Inr (hd cs), d')" "length cs = unat n" "set cs \<subseteq> free_set v d"
    "only_table v d d'" "chain v d' (hd cs) cs" "\<forall>x. x \<notin> set cs \<longrightarrow> table v d' x = table v d x"
    using alloc_chain_ok [OF assms(1) _ True] by metis
  moreover have "distinct cs" by (rule chain_distinct [OF r(5)])
  ultimately show ?thesis unfolding r(1) prod.case sum.case using True by blast
next
  case False
  then obtain d' where "alloc_chain v n d = (Inl NoSpace, d')" "only_table v d d'" "table v d' = table v d"
    using alloc_chain_full [OF assms(1)] by (metis not_le)
  then show ?thesis using False by (simp del: not_le)
qed

theorem alloc_chain_correct_witness:
  "\<exists>d' cs. alloc_chain demo_vol 3 demo_disk = (Inr 3, d') \<and> chain demo_vol d' 3 cs \<and> length cs = 3"
proof -
  have "fst (alloc_chain demo_vol 3 demo_disk) = Inr 3" by code_simp
  then obtain d' where r: "alloc_chain demo_vol 3 demo_disk = (Inr 3, d')" by (metis prod.collapse)
  have n: "(3 :: u32) \<noteq> 0" by simp
  have "\<exists>cs. chain demo_vol d' 3 cs \<and> length cs = unat (3 :: u32)"
    using alloc_chain_correct [OF demo_ok n] unfolding r prod.case sum.case by blast
  with r show ?thesis by simp
qed


section \<open>Removing and creating names\<close>

text \<open>
  C28: \<open>unlink\<close> refines the removal of a name. It succeeds exactly on files, and then the view
  differs at that name only, which is gone; on a missing name, a directory or a bad path it
  reports the error and writes nothing.
\<close>

theorem unlink_refines:
  assumes "vol_inv v d own dirs"
  shows "case Fat32_unlink v path d of
      (Inr (), d') \<Rightarrow> \<exists>p name bs own'. resolve_parent v d path = Inr (p, name) \<and>
        view v d own dirs p (short_name_83 name) = Some (AFile bs) \<and> vol_inv v d' own' dirs \<and>
        view v d' own' dirs = afs_set p (short_name_83 name) None (view v d own dirs)
    | (Inl e, d') \<Rightarrow> d' = d \<and>
        (case resolve_parent v d path of
           Inl e' \<Rightarrow> e = e'
         | Inr (p, name) \<Rightarrow>
             (case view v d own dirs p (short_name_83 name) of
                None \<Rightarrow> e = NotFound
              | Some n \<Rightarrow> (\<exists>k. n = ADir k) \<and> e = IsADirectory))"
proof (cases "resolve_parent v d path")
  case (Inl e)
  then show ?thesis by (simp add: Fat32_unlink_def reads_def)
next
  case (Inr pn)
  obtain p name where pn: "pn = (p, name)" by (cases pn)
  have r: "resolve_parent v d path = Inr (p, name)" using Inr pn by simp
  have p: "p \<in> dirs" by (rule resolve_dir [OF assms r])
  consider (none) "view v d own dirs p (short_name_83 name) = None"
    | (plain) bs where "view v d own dirs p (short_name_83 name) = Some (AFile bs)"
    | (folder) k where "view v d own dirs p (short_name_83 name) = Some (ADir k)"
    by (metis anode.exhaust option.exhaust)
  then show ?thesis
  proof cases
    case none
    then show ?thesis
      using r by (simp add: Fat32_unlink_def reads_def locate_entry_view [OF assms p] view_found [OF p])
  next
    case (plain bs)
    obtain d' own' where u: "Fat32_unlink v path d = (Inr (), d')" "vol_inv v d' own' dirs"
      "view v d' own' dirs = afs_set p (short_name_83 name) None (view v d own dirs)"
      by (rule unlink_ok [OF assms r plain])
    show ?thesis unfolding u(1) prod.case sum.case unit.case using r plain u(2,3) by blast
  next
    case (folder k)
    then obtain sl where "dir_find (dslots v d own p) (short_name_83 name) = Some sl"
      "de_is_dir (decode_entry (slot_entry sl))"
      by (auto simp: view_found [OF p] node_def split: if_splits)
    then show ?thesis
      using r folder by (simp add: Fat32_unlink_def reads_def fail_def locate_entry_view [OF assms p])
  qed
qed

theorem unlink_refines_witness:
  "\<exists>d'. Fat32_unlink demo_vol (str ''/A'') demo_disk = (Inl NotFound, d') \<and> d' = demo_disk"
proof -
  have "fst (Fat32_unlink demo_vol (str ''/A'') demo_disk) = Inl NotFound" by code_simp
  then obtain d' where d': "Fat32_unlink demo_vol (str ''/A'') demo_disk = (Inl NotFound, d')"
    by (metis prod.collapse)
  from unlink_refines [OF demo_inv, of "str ''/A''"] have "d' = demo_disk"
    unfolding d' prod.case sum.case by blast
  with d' show ?thesis by blast
qed

text \<open>
  C29: \<open>mkdir\<close> refines the creation of an empty directory. When it succeeds the name was free, a
  new directory exists under it that holds no name of its own, and nothing else has changed;
  \<open>AlreadyExists\<close> and \<open>DirFull\<close> are reported before anything is written.
\<close>

theorem mkdir_refines:
  assumes "vol_inv v d own dirs" "resolve_parent v d path = Inr (p, name)" "storable name"
  shows "case Fat32_mkdir v path d of
      (Inr (), d') \<Rightarrow> view v d own dirs p (short_name_83 name) = None \<and>
        (\<exists>k own'. k \<notin> dirs \<and> vol_inv v d' own' (insert k dirs) \<and>
          view v d' own' (insert k dirs) =
            afs_set p (short_name_83 name) (Some (ADir k)) (view v d own dirs))
    | (Inl e, d') \<Rightarrow> d' = d \<and>
        (if view v d own dirs p (short_name_83 name) \<noteq> None then e = AlreadyExists
         else e = DirFull \<or> e = NoSpace \<and> free_set v d = {})"
proof -
  note inv = assms(1) and r = assms(2)
  have p: "p \<in> dirs" by (rule resolve_dir [OF inv r])
  show ?thesis
  proof (cases "dir_find (dslots v d own p) (short_name_83 name)")
    case (Some sl)
    then show ?thesis
      using r by (simp add: Fat32_mkdir_def Let_def reads_def fail_def locate_slot [OF inv p] view_found [OF p])
  next
    case None
    then have nn: "view v d own dirs p (short_name_83 name) = None" by (simp add: view_found [OF p])
    consider "locate_or_free_slot v d p (short_name_83 name) = Inl DirFull"
      | x :: slot where "locate_or_free_slot v d p (short_name_83 name) = Inr (fst x, fst (snd x), None)"
        "free_set v d = {}"
      | "locate_or_free_slot v d p (short_name_83 name) \<noteq> Inl DirFull" "free_set v d \<noteq> {}"
      using None
      by (cases "free_slot (dslots v d own p)"; cases "free_set v d = {}") (auto simp: locate_slot [OF inv p])
    then show ?thesis
    proof cases
      case 1
      then show ?thesis using r nn by (simp add: Fat32_mkdir_def Let_def reads_def)
    next
      case (2 x)
      from alloc_cluster_cases [OF vol_invD(1) [OF inv]] 2(2) have "alloc_cluster v d = (Inl NoSpace, d)"
        by (metis empty_iff)
      then show ?thesis using r nn 2 by (simp add: Fat32_mkdir_def Let_def reads_def)
    next
      case 3
      have nm: "short_name_83 name ! 0 \<noteq> 0" "short_name_83 name ! 0 \<noteq> 0xE5"
        using assms(3) by (auto simp: storable_def)
      obtain d' own' k where m: "Fat32_mkdir v path d = (Inr (), d')" "vol_inv v d' own' (insert k dirs)"
        "k \<notin> dirs"
        "view v d' own' (insert k dirs) = afs_set p (short_name_83 name) (Some (ADir k)) (view v d own dirs)"
        by (rule mkdir_ok [OF inv r nm nn 3])
      show ?thesis unfolding m(1) prod.case sum.case unit.case using nn m(2-4) by blast
    qed
  qed
qed

theorem mkdir_refines_witness:
  "\<exists>d' k own'. Fat32_mkdir demo_vol (str ''/D'') demo_disk = (Inr (), d') \<and> k \<noteq> 2 \<and>
     vol_inv demo_vol d' own' {k, 2}"
proof -
  have r: "resolve_parent demo_vol demo_disk (str ''/D'') = Inr (2, str ''D'')" by code_simp
  have s: "storable (str ''D'')" by code_simp
  have "fst (Fat32_mkdir demo_vol (str ''/D'') demo_disk) = Inr ()" by code_simp
  then obtain d' where d': "Fat32_mkdir demo_vol (str ''/D'') demo_disk = (Inr (), d')" by (metis prod.collapse)
  from mkdir_refines [OF demo_inv r s] obtain k own' where "k \<notin> {2}" "vol_inv demo_vol d' own' (insert k {2})"
    unfolding d' prod.case sum.case unit.case by blast
  with d' show ?thesis by blast
qed

text \<open>
  \<open>rmdir\<close> decides by the printed names of the entries whether a directory is empty. A name whose
  8.3 form prints as a dot name escapes it (\<open>rmdir_loses_file\<close> below), so the refinement asks that
  the check is exact on the directory in question.
\<close>

definition empty_check_exact :: "Fat32 \<Rightarrow> disk \<Rightarrow> (u32 \<rightharpoonup> u32 list) \<Rightarrow> u32 set \<Rightarrow> u32 \<Rightarrow> bool" where
  "empty_check_exact v d own dirs k \<longleftrightarrow>
     (dir_is_empty v d k = Inr True \<longrightarrow> (\<forall>t. view v d own dirs k t = None))"

lemma dir_is_empty_Inr:
  assumes "vol_inv v d own dirs" "k \<in> dirs"
  obtains b where "dir_is_empty v d k = Inr b"
proof (rule dir_chain [OF assms])
  fix cs assume "chain v d k cs"
  from list_dir_ok [OF vol_invD(1) [OF assms(1)] this] that show thesis by (simp add: dir_is_empty_def)
qed



section \<open>Where the code falls short\<close>

text \<open>
  A name whose first byte is \<open>0xE5\<close> (the UTF-8 form of the code points U+5000 to U+5FFF begins with
  it) is stored as a deleted entry: the write succeeds and the file cannot be found.
\<close>

lemma deleted_marker_name_lost:
  "fst (Fat32_write_file demo_vol (str ''/'' @ [0xE5, 0x80, 0x80]) [104] demo_disk) = Inr ()"
  "Fat32_read_file demo_vol (snd (Fat32_write_file demo_vol (str ''/'' @ [0xE5, 0x80, 0x80]) [104] demo_disk))
     (str ''/'' @ [0xE5, 0x80, 0x80]) = Inl NotFound"
  by code_simp+

text \<open>
  A name whose base is cut in the middle of a character and whose extension is a dot prints as
  \<open>..\<close>, so \<open>dir_is_empty\<close> overlooks it and \<open>rmdir\<close> removes a directory that still holds a file.
\<close>

definition hidden_path :: bytes where
  "hidden_path = str ''/D/'' @ [97, 0xD0, 0xB6, 0xD0, 0xB6, 0xD0, 0xB6, 0xD0, 0xB6] @ str ''..''"

lemma rmdir_loses_file:
  "let d1 = snd (Fat32_mkdir demo_vol (str ''/D'') demo_disk);
       d2 = snd (Fat32_write_file demo_vol hidden_path [104] d1)
   in Fat32_read_file demo_vol d2 hidden_path = Inr [104] \<and>
      fst (Fat32_rmdir demo_vol (str ''/D'') d2) = Inr ()"
  by code_simp

text \<open>
  \<open>write_file\<close> to a path that names a directory does not refuse: the directory's entry becomes a
  file's and its cluster is freed, so what it held is lost.
\<close>

lemma write_over_directory:
  "let d1 = snd (Fat32_mkdir demo_vol (str ''/D'') demo_disk);
       d2 = snd (Fat32_write_file demo_vol (str ''/D/F'') [104] d1);
       r = Fat32_write_file demo_vol (str ''/D'') [105] d2
   in Fat32_read_file demo_vol d2 (str ''/D/F'') = Inr [104] \<and> fst r = Inr () \<and>
      Fat32_read_file demo_vol (snd r) (str ''/D/F'') = Inl NotADirectory"
  by code_simp

end
