(* ===== verification/Frame.thy ===== *)
theory Frame
  imports Ferros_Prelude
begin

text \<open>
  The physical frame allocator, \<open>src/mm/frame.rs\<close>: a cursor over the usable frames of the boot
  memory map, and in front of it a list of released frames whose links are kept in the first word
  of the frames themselves. Physical memory is a map from addresses of 64-bit words to their
  values. The lemmas give the contract of a frame provider: a frame is never handed out while
  somebody holds it.
\<close>

section \<open>Definitions\<close>

type_synonym pmem = "u64 \<Rightarrow> u64"

record MemoryRegion =
  start_addr :: u64
  end_addr :: u64
  region_usable :: bool

record BootInfoFrameAllocator =
  memory_map :: "MemoryRegion list"
  cursor_next :: nat
  free_list :: "u64 option"

definition FREE_LIST_END :: u64 where
  "FREE_LIST_END = 0"

text \<open>\<open>PhysFrame::containing_address\<close>: the frame is named by its start address.\<close>

definition containing_address :: "u64 \<Rightarrow> u64" where
  "containing_address a = a AND NOT 0xFFF"

definition frame_init :: "MemoryRegion list \<Rightarrow> BootInfoFrameAllocator" where
  "frame_init mm = \<lparr>memory_map = mm, cursor_next = 0, free_list = None\<rparr>"

text \<open>The walk of \<open>free_list_len\<close>: without a bound, so \<open>None\<close> stands for not returning.\<close>

partial_function (option) free_list_walk :: "pmem \<Rightarrow> u64 option \<Rightarrow> nat \<Rightarrow> nat option" where
  "free_list_walk m node len =
     (case node of
        None \<Rightarrow> Some len
      | Some addr \<Rightarrow> free_list_walk m (if m addr \<noteq> FREE_LIST_END then Some (m addr) else None) (len + 1))"

definition free_list_len :: "pmem \<Rightarrow> BootInfoFrameAllocator \<Rightarrow> nat option" where
  "free_list_len m a = free_list_walk m (free_list a) 0"

text \<open>\<open>(start..end).step_by(4096)\<close>.\<close>

definition step_by_4096 :: "u64 \<Rightarrow> u64 \<Rightarrow> u64 list" where
  "step_by_4096 s e =
     (if e \<le> s then [] else map (\<lambda>i. s + 4096 * of_nat i) [0..<(unat e - unat s + 4095) div 4096])"

definition usable_frames :: "BootInfoFrameAllocator \<Rightarrow> u64 list" where
  "usable_frames a =
     map containing_address
       (concat (map (\<lambda>r. step_by_4096 (start_addr r) (end_addr r)) (filter region_usable (memory_map a))))"

text \<open>
  The scan of \<open>allocate_contiguous\<close>: \<open>offset\<close> numbers the frames from the cursor; the run so far
  starts at \<open>run_start\<close>/\<open>run_offset\<close>.
\<close>

fun contiguous_scan ::
  "nat \<Rightarrow> u64 list \<Rightarrow> nat \<Rightarrow> u64 option \<Rightarrow> u64 option \<Rightarrow> nat \<Rightarrow> nat \<Rightarrow> (u64 option \<times> nat) option" where
  "contiguous_scan count [] offset prev run_start run_offset run_len = None"
| "contiguous_scan count (frame # fs) offset prev run_start run_offset run_len =
     (let contiguous = (case prev of None \<Rightarrow> False | Some p \<Rightarrow> frame = p + 4096);
          (rs, ro, rl) = (if contiguous then (run_start, run_offset, run_len + 1) else (Some frame, offset, 1))
      in if rl = count then Some (rs, ro)
         else contiguous_scan count fs (offset + 1) (Some frame) rs ro rl)"

definition allocate_contiguous :: "nat \<Rightarrow> BootInfoFrameAllocator \<Rightarrow> u64 option \<times> BootInfoFrameAllocator" where
  "allocate_contiguous count a =
     (if count = 0 then (None, a)
      else
        (case contiguous_scan count (drop (cursor_next a) (usable_frames a)) 0 None None 0 0 of
           None \<Rightarrow> (None, a)
         | Some (rs, ro) \<Rightarrow> (rs, a\<lparr>cursor_next := cursor_next a + ro + count\<rparr>)))"

text \<open>State of the allocator together with the memory its links live in.\<close>

type_synonym frames = "BootInfoFrameAllocator \<times> pmem"

definition allocate_frame :: "frames \<Rightarrow> u64 option \<times> frames" where
  "allocate_frame s =
     (case s of (a, m) \<Rightarrow>
        (case free_list a of
           Some head \<Rightarrow>
             (let nxt = m head
              in (Some (containing_address head),
                  (a\<lparr>free_list := (if nxt \<noteq> FREE_LIST_END then Some nxt else None)\<rparr>, m)))
         | None \<Rightarrow>
             (let us = usable_frames a
              in (if cursor_next a < length us then Some (us ! cursor_next a) else None,
                  (a\<lparr>cursor_next := cursor_next a + 1\<rparr>, m)))))"

definition deallocate_frame :: "u64 \<Rightarrow> frames \<Rightarrow> frames" where
  "deallocate_frame frame s =
     (case s of (a, m) \<Rightarrow>
        (let prev_head = (case free_list a of None \<Rightarrow> FREE_LIST_END | Some p \<Rightarrow> p)
         in (a\<lparr>free_list := Some frame\<rparr>, m(frame := prev_head))))"

text \<open>\<open>FRAME_ALLOC\<close>, \<open>install\<close> and \<open>with_global\<close>.\<close>

definition install :: "BootInfoFrameAllocator \<Rightarrow> BootInfoFrameAllocator option \<Rightarrow> BootInfoFrameAllocator option" where
  "install allocator g = Some allocator"

definition global_installed :: "BootInfoFrameAllocator option \<Rightarrow> bool" where
  "global_installed g \<longleftrightarrow> g \<noteq> None"

definition with_global ::
  "(frames \<Rightarrow> 'r \<times> frames) \<Rightarrow> BootInfoFrameAllocator option \<times> pmem \<Rightarrow> 'r option \<times> BootInfoFrameAllocator option \<times> pmem" where
  "with_global f s =
     (case s of
        (None, m) \<Rightarrow> (None, (None, m))
      | (Some a, m) \<Rightarrow> (case f (a, m) of (r, (a', m')) \<Rightarrow> (Some r, (Some a', m'))))"

section \<open>The contract of a frame provider\<close>

text \<open>
  \<open>inv s held\<close>: \<open>held\<close> are the frames handed out and not given back. Allocation hands out a frame
  nobody holds; giving back a held frame is always possible.
\<close>

locale frame_provider =
  fixes alloc :: "'s \<Rightarrow> 'f option \<times> 's"
    and dealloc :: "'f \<Rightarrow> 's \<Rightarrow> 's"
    and inv :: "'s \<Rightarrow> 'f set \<Rightarrow> bool"
  assumes alloc_Some: "inv s held \<Longrightarrow> alloc s = (Some f, s') \<Longrightarrow> f \<notin> held \<and> inv s' (insert f held)"
    and alloc_None: "inv s held \<Longrightarrow> alloc s = (None, s') \<Longrightarrow> inv s' held"
    and dealloc_held: "inv s held \<Longrightarrow> f \<in> held \<Longrightarrow> inv (dealloc f s) (held - {f})"
begin

fun alloc_many :: "nat \<Rightarrow> 's \<Rightarrow> 'f list \<times> 's" where
  "alloc_many 0 s = ([], s)"
| "alloc_many (Suc n) s =
     (case alloc s of
        (None, s') \<Rightarrow> ([], s')
      | (Some f, s') \<Rightarrow> (case alloc_many n s' of (fs, s'') \<Rightarrow> (f # fs, s'')))"

lemma alloc_many_fresh:
  "inv s held \<Longrightarrow> alloc_many n s = (fs, s') \<Longrightarrow>
   distinct fs \<and> set fs \<inter> held = {} \<and> inv s' (held \<union> set fs)"
proof (induction n arbitrary: s held fs s')
  case (Suc n)
  show ?case
  proof (cases "alloc s")
    case (Pair r s1)
    show ?thesis
    proof (cases r)
      case None
      with Suc.prems Pair show ?thesis by (auto simp: alloc_None)
    next
      case (Some f)
      obtain gs where gs: "alloc_many n s1 = (gs, s')" "fs = f # gs"
        using Suc.prems(2) Pair Some by (auto split: prod.splits)
      have f: "f \<notin> held" "inv s1 (insert f held)" using alloc_Some Suc.prems(1) Pair Some by blast+
      from Suc.IH [OF f(2) gs(1)] f(1) gs(2) show ?thesis by auto
    qed
  qed
qed auto

lemma dealloc_all:
  "inv s held \<Longrightarrow> distinct fs \<Longrightarrow> set fs \<subseteq> held \<Longrightarrow> inv (fold dealloc fs s) (held - set fs)"
proof (induction fs arbitrary: s held)
  case (Cons f fs)
  then have "inv (dealloc f s) (held - {f})" by (simp add: dealloc_held)
  from Cons.IH [OF this] Cons.prems(2,3) have "inv (fold dealloc fs (dealloc f s)) (held - {f} - set fs)"
    by auto
  then show ?case by (simp add: Diff_insert2 [symmetric])
qed simp

end

section \<open>The released frames form a list in memory\<close>

fun free_path :: "pmem \<Rightarrow> u64 option \<Rightarrow> u64 list \<Rightarrow> bool" where
  "free_path m node [] \<longleftrightarrow> node = None"
| "free_path m node (f # fs) \<longleftrightarrow>
     node = Some f \<and> f \<noteq> FREE_LIST_END \<and> free_path m (if m f \<noteq> FREE_LIST_END then Some (m f) else None) fs"

text \<open>What the boot memory map guarantees: no frame is listed twice and frame 0 is not usable.\<close>

definition map_ok :: "BootInfoFrameAllocator \<Rightarrow> bool" where
  "map_ok a \<longleftrightarrow> distinct (usable_frames a) \<and> FREE_LIST_END \<notin> set (usable_frames a)"

definition frames_inv :: "frames \<Rightarrow> u64 set \<Rightarrow> bool" where
  "frames_inv s held \<longleftrightarrow>
     (case s of (a, m) \<Rightarrow> map_ok a \<and>
        (\<exists>fs. free_path m (free_list a) fs \<and> distinct fs \<and> set fs \<inter> held = {} \<and>
           set fs \<union> held \<subseteq> set (take (cursor_next a) (usable_frames a))))"

lemma containing_idem [simp]: "containing_address (containing_address a) = containing_address a"
  by (rule bit_word_eqI) (auto simp: containing_address_def bit_simps)

lemma usable_aligned: "f \<in> set (usable_frames a) \<Longrightarrow> containing_address f = f"
  by (auto simp: usable_frames_def)

lemma usable_frames_upd [simp]:
  "usable_frames (a\<lparr>free_list := x\<rparr>) = usable_frames a"
  "usable_frames (a\<lparr>cursor_next := n\<rparr>) = usable_frames a"
  by (simp_all add: usable_frames_def)

lemma map_ok_upd [simp]: "map_ok (a\<lparr>free_list := x\<rparr>) = map_ok a" "map_ok (a\<lparr>cursor_next := n\<rparr>) = map_ok a"
  by (simp_all add: map_ok_def)

lemma free_path_cong:
  "free_path m node fs \<Longrightarrow> (\<And>f. f \<in> set fs \<Longrightarrow> m' f = m f) \<Longrightarrow> free_path m' node fs"
  by (induction fs arbitrary: node) auto

text \<open>Taking the head of the list hands out a frame of the list.\<close>

lemma allocate_listed:
  assumes "frames_inv (a, m) held" "free_list a = Some head"
  shows "allocate_frame (a, m) = (Some head, (a\<lparr>free_list := (if m head \<noteq> FREE_LIST_END then Some (m head) else None)\<rparr>, m))"
    and "head \<notin> held"
    and "frames_inv (a\<lparr>free_list := (if m head \<noteq> FREE_LIST_END then Some (m head) else None)\<rparr>, m) (insert head held)"
proof -
  from assms obtain fs where fs: "free_path m (Some head) fs" "distinct fs" "set fs \<inter> held = {}"
    "set fs \<union> held \<subseteq> set (take (cursor_next a) (usable_frames a))" and ok: "map_ok a"
    by (auto simp: frames_inv_def)
  then obtain gs where gs: "fs = head # gs" "free_path m (if m head \<noteq> FREE_LIST_END then Some (m head) else None) gs"
    by (cases fs) auto
  have "head \<in> set (usable_frames a)" using fs(4) gs(1) by (auto dest: in_set_takeD)
  then show "allocate_frame (a, m) =
      (Some head, (a\<lparr>free_list := (if m head \<noteq> FREE_LIST_END then Some (m head) else None)\<rparr>, m))"
    using assms(2) by (simp add: allocate_frame_def Let_def usable_aligned)
  show "head \<notin> held" using fs(3) gs(1) by auto
  show "frames_inv (a\<lparr>free_list := (if m head \<noteq> FREE_LIST_END then Some (m head) else None)\<rparr>, m) (insert head held)"
    using fs gs ok by (auto simp: frames_inv_def intro!: exI [of _ gs])
qed

lemma take_Suc_set: "n < length xs \<Longrightarrow> set (take (Suc n) xs) = insert (xs ! n) (set (take n xs))"
  by (simp add: take_Suc_conv_app_nth)

lemma nth_not_in_take: "distinct xs \<Longrightarrow> n < length xs \<Longrightarrow> xs ! n \<notin> set (take n xs)"
  by (metis distinct_take id_take_nth_drop not_distinct_conv_prefix take_Suc_conv_app_nth)

lemma allocate_fresh:
  assumes "frames_inv (a, m) held" "free_list a = None" "cursor_next a < length (usable_frames a)"
  shows "allocate_frame (a, m) = (Some (usable_frames a ! cursor_next a), (a\<lparr>cursor_next := cursor_next a + 1\<rparr>, m))"
    and "usable_frames a ! cursor_next a \<notin> held"
    and "frames_inv (a\<lparr>cursor_next := cursor_next a + 1\<rparr>, m) (insert (usable_frames a ! cursor_next a) held)"
proof -
  let ?f = "usable_frames a ! cursor_next a"
  from assms have ok: "map_ok a" and h: "held \<subseteq> set (take (cursor_next a) (usable_frames a))"
    by (auto simp: frames_inv_def)
  show "allocate_frame (a, m) = (Some ?f, (a\<lparr>cursor_next := cursor_next a + 1\<rparr>, m))"
    using assms(2,3) by (simp add: allocate_frame_def Let_def)
  show nh: "?f \<notin> held" using nth_not_in_take [OF _ assms(3)] ok h by (auto simp: map_ok_def)
  show "frames_inv (a\<lparr>cursor_next := cursor_next a + 1\<rparr>, m) (insert ?f held)"
    using ok h assms(2) take_Suc_set [OF assms(3)] by (auto simp: frames_inv_def intro!: exI [of _ "[]"])
qed

lemma allocate_empty:
  assumes "frames_inv (a, m) held" "free_list a = None" "length (usable_frames a) \<le> cursor_next a"
  shows "allocate_frame (a, m) = (None, (a\<lparr>cursor_next := cursor_next a + 1\<rparr>, m))"
    and "frames_inv (a\<lparr>cursor_next := cursor_next a + 1\<rparr>, m) held"
  using assms by (auto simp: allocate_frame_def Let_def frames_inv_def)

lemma deallocate_inv:
  assumes "frames_inv s held" "f \<in> held"
  shows "frames_inv (deallocate_frame f s) (held - {f})"
proof -
  obtain a m where s: "s = (a, m)" by (cases s)
  from assms obtain fs where fs: "free_path m (free_list a) fs" "distinct fs" "set fs \<inter> held = {}"
    "set fs \<union> held \<subseteq> set (take (cursor_next a) (usable_frames a))" and ok: "map_ok a"
    by (auto simp: frames_inv_def s)
  let ?m = "m(f := (case free_list a of None \<Rightarrow> FREE_LIST_END | Some p \<Rightarrow> p))"
  have ff: "f \<notin> set fs" using fs(3) assms(2) by auto
  have nz: "f \<noteq> FREE_LIST_END" using fs(4) assms(2) ok by (auto simp: map_ok_def dest: in_set_takeD)
  have "free_path ?m (free_list a) fs" by (rule free_path_cong [OF fs(1)]) (use ff in auto)
  moreover have "p \<noteq> FREE_LIST_END" if "free_list a = Some p" for p
    using fs(1) that by (cases fs) auto
  ultimately have "free_path ?m (Some f) (f # fs)" using nz by (auto split: option.splits)
  moreover have "set (f # fs) \<inter> (held - {f}) = {}" "distinct (f # fs)" using fs ff by auto
  moreover have "set (f # fs) \<union> (held - {f}) \<subseteq> set (take (cursor_next a) (usable_frames a))"
    using fs(4) assms(2) by auto
  ultimately have "frames_inv (a\<lparr>free_list := Some f\<rparr>, ?m) (held - {f})"
    unfolding frames_inv_def prod.case using ok
    by (intro conjI exI [of _ "f # fs"]) simp_all
  then show ?thesis by (simp add: s deallocate_frame_def Let_def)
qed

lemma frames_inv_cases:
  assumes "frames_inv (a, m) held"
  obtains (listed) head where "free_list a = Some head"
    | (fresh) "free_list a = None" "cursor_next a < length (usable_frames a)"
    | (exhausted) "free_list a = None" "length (usable_frames a) \<le> cursor_next a"
  by (cases "free_list a"; cases "cursor_next a < length (usable_frames a)") auto

interpretation frames: frame_provider allocate_frame deallocate_frame frames_inv
proof unfold_locales
  fix s held f s' assume i: "frames_inv s held" and r: "allocate_frame s = (Some f, s')"
  obtain a m where s: "s = (a, m)" by (cases s)
  from i [unfolded s] show "f \<notin> held \<and> frames_inv s' (insert f held)"
  proof (cases rule: frames_inv_cases)
    case (listed head)
    from allocate_listed [OF i [unfolded s] listed] r show ?thesis by (auto simp: s)
  next
    case fresh
    from allocate_fresh [OF i [unfolded s] fresh] r show ?thesis by (auto simp: s)
  next
    case exhausted
    from allocate_empty [OF i [unfolded s] exhausted] r show ?thesis by (simp add: s)
  qed
next
  fix s held s' assume i: "frames_inv s held" and r: "allocate_frame s = (None, s')"
  obtain a m where s: "s = (a, m)" by (cases s)
  from i [unfolded s] show "frames_inv s' held"
  proof (cases rule: frames_inv_cases)
    case (listed head)
    from allocate_listed [OF i [unfolded s] listed] r show ?thesis by (auto simp: s)
  next
    case fresh
    from allocate_fresh [OF i [unfolded s] fresh] r show ?thesis by (auto simp: s)
  next
    case exhausted
    from allocate_empty [OF i [unfolded s] exhausted] r show ?thesis by (simp add: s)
  qed
qed (rule deallocate_inv)

section \<open>Holders write into their frames\<close>

text \<open>Whatever the holders write into the frames they hold, the links of the free frames stay.\<close>

lemma frames_inv_write:
  assumes "frames_inv (a, m) held" "\<And>x. containing_address x \<notin> held \<Longrightarrow> m' x = m x"
  shows "frames_inv (a, m') held"
proof -
  from assms(1) obtain fs where fs: "free_path m (free_list a) fs" "distinct fs" "set fs \<inter> held = {}"
    "set fs \<union> held \<subseteq> set (take (cursor_next a) (usable_frames a))" and ok: "map_ok a"
    by (auto simp: frames_inv_def)
  have "m' f = m f" if "f \<in> set fs" for f
  proof -
    have "f \<in> set (usable_frames a)" using fs(4) that by (auto dest: in_set_takeD)
    then show ?thesis using assms(2) [of f] fs(3) that by (auto simp: usable_aligned)
  qed
  from free_path_cong [OF fs(1) this] fs ok show ?thesis by (auto simp: frames_inv_def)
qed

section \<open>Contiguous runs\<close>

lemma contiguous_scan_ok:
  assumes "contiguous_scan count fs offset prev run_start run_offset run_len = Some (rs, ro)"
    and "whole = pre @ fs" "offset = length pre" "run_offset + run_len = offset" "0 < count"
    and "prev = (if pre = [] then None else Some (last pre))" "pre = [] \<longrightarrow> run_len = 0"
    and "pre \<noteq> [] \<longrightarrow> 0 < run_len" "0 < run_len \<longrightarrow> (\<exists>s. run_start = Some s \<and>
      (\<forall>i < run_len. whole ! (run_offset + i) = s + of_nat (4096 * i)))"
  shows "\<exists>s. rs = Some s \<and> ro + count \<le> length whole \<and> (\<forall>i < count. whole ! (ro + i) = s + of_nat (4096 * i))"
  using assms
proof (induction count fs offset prev run_start run_offset run_len arbitrary: pre rule: contiguous_scan.induct)
  case (2 count frame fs offset prev run_start run_offset run_len)
  let ?c = "case prev of None \<Rightarrow> False | Some p \<Rightarrow> frame = p + 4096"
  define rs' ro' rl' where "rs' = (if ?c then run_start else Some frame)"
    and "ro' = (if ?c then run_offset else offset)" and "rl' = (if ?c then run_len + 1 else 1)"
  have at: "whole ! offset = frame" using 2(3,4) by (simp add: nth_append)
  have run: "\<exists>s. rs' = Some s \<and> (\<forall>i < rl'. whole ! (ro' + i) = s + of_nat (4096 * i))"
  proof (cases ?c)
    case True
    then have pre: "pre \<noteq> []" and fr: "frame = last pre + 4096" using 2(7) by (auto split: if_splits)
    with 2(9) have rl: "0 < run_len" by simp
    with 2(10) obtain s where s: "run_start = Some s" "\<forall>i < run_len. whole ! (run_offset + i) = s + of_nat (4096 * i)"
      by blast
    have "last pre = whole ! (run_offset + (run_len - 1))"
      using pre 2(3,4,5) rl by (simp add: last_conv_nth nth_append)
    also have "\<dots> = s + of_nat (4096 * (run_len - 1))" by (rule s(2) [rule_format]) (use rl in simp)
    finally have "frame = s + of_nat (4096 * (run_len - 1)) + 4096" using fr by simp
    also have "\<dots> = s + of_nat (4096 * run_len)" using rl by (cases run_len) (simp_all add: algebra_simps)
    finally have "whole ! (run_offset + run_len) = s + of_nat (4096 * run_len)" using at 2(5) by simp
    with s(2) have "\<forall>i < run_len + 1. whole ! (run_offset + i) = s + of_nat (4096 * i)"
      by (metis Suc_eq_plus1 less_Suc_eq)
    with True s(1) show ?thesis by (simp add: rs'_def ro'_def rl'_def)
  next
    case False
    then show ?thesis using at by (simp add: rs'_def ro'_def rl'_def)
  qed
  have eq: "contiguous_scan count (frame # fs) offset prev run_start run_offset run_len =
      (if rl' = count then Some (rs', ro') else contiguous_scan count fs (offset + 1) (Some frame) rs' ro' rl')"
    by (simp add: Let_def rs'_def ro'_def rl'_def)
  have sum: "ro' + rl' = offset + 1" using 2(5) by (simp add: ro'_def rl'_def)
  show ?case
  proof (cases "rl' = count")
    case True
    then have "rs = rs'" "ro = ro'" using 2(2) unfolding eq by simp_all
    moreover have "ro' + count \<le> length whole" using sum True 2(3,4) by simp
    ultimately show ?thesis using run True by blast
  next
    case False
    then have r: "contiguous_scan count fs (offset + 1) (Some frame) rs' ro' rl' = Some (rs, ro)"
      using 2(2) unfolding eq by simp
    have pos: "0 < rl'" by (simp add: rl'_def)
    have t: "(rs', ro', rl') = (if ?c then (run_start, run_offset, run_len + 1) else (Some frame, offset, 1))"
      by (simp only: rs'_def ro'_def rl'_def split: if_split) simp
    show ?thesis
    proof (rule 2(1) [OF refl t refl refl False r])
      show "whole = (pre @ [frame]) @ fs" using 2(3) by simp
    qed (use sum run pos 2(4,6) in simp_all)
  qed
qed simp

lemma allocate_contiguous_ok:
  assumes "allocate_contiguous count a = (Some f, a')"
  obtains ro where "cursor_next a' = cursor_next a + ro + count" "a' = a\<lparr>cursor_next := cursor_next a'\<rparr>"
    "cursor_next a' \<le> length (usable_frames a)"
    "\<forall>i < count. usable_frames a ! (cursor_next a + ro + i) = f + of_nat (4096 * i)"
proof -
  from assms obtain ro where c: "count \<noteq> 0"
    "contiguous_scan count (drop (cursor_next a) (usable_frames a)) 0 None None 0 0 = Some (Some f, ro)"
    "a' = a\<lparr>cursor_next := cursor_next a + ro + count\<rparr>"
    by (auto simp: allocate_contiguous_def split: if_splits option.splits prod.splits)
  from contiguous_scan_ok [OF c(2), of "drop (cursor_next a) (usable_frames a)" "[]"] c(1)
  have r: "ro + count \<le> length (usable_frames a) - cursor_next a"
    "\<forall>i < count. drop (cursor_next a) (usable_frames a) ! (ro + i) = f + of_nat (4096 * i)"
    by auto
  show thesis
  proof (rule that [of ro])
    show "cursor_next a' \<le> length (usable_frames a)" using r(1) c(1,3) by auto
    show "\<forall>i < count. usable_frames a ! (cursor_next a + ro + i) = f + of_nat (4096 * i)"
      using r by (simp add: add.assoc)
  qed (use c(3) in simp_all)
qed

section \<open>Every run of the allocator\<close>

text \<open>
  A state of the machine: the allocator, the memory, and who holds what. Holders allocate, take
  runs for devices, write into what they hold and give back what they hold.
\<close>

definition run_frames :: "u64 \<Rightarrow> nat \<Rightarrow> u64 set" where
  "run_frames f n = (\<lambda>i. f + of_nat (4096 * i)) ` {..<n}"

inductive frame_step :: "frames \<times> u64 set \<Rightarrow> frames \<times> u64 set \<Rightarrow> bool" where
  step_alloc: "allocate_frame s = (Some f, s') \<Longrightarrow> frame_step (s, held) (s', insert f held)"
| step_none: "allocate_frame s = (None, s') \<Longrightarrow> frame_step (s, held) (s', held)"
| step_free: "f \<in> held \<Longrightarrow> frame_step (s, held) (deallocate_frame f s, held - {f})"
| step_run: "allocate_contiguous n a = (Some f, a') \<Longrightarrow>
    frame_step ((a, m), held) ((a', m), held \<union> run_frames f n)"
| step_write: "containing_address x \<in> held \<Longrightarrow> frame_step ((a, m), held) ((a, m(x := w)), held)"

inductive_cases frame_stepE: "frame_step c c'"

lemma frames_inv_run:
  assumes i: "frames_inv (a, m) held" and r: "allocate_contiguous n a = (Some f, a')"
  shows "frames_inv (a', m) (held \<union> run_frames f n)" and "run_frames f n \<inter> held = {}"
proof -
  obtain ro where ro: "cursor_next a' = cursor_next a + ro + n" "a' = a\<lparr>cursor_next := cursor_next a'\<rparr>"
    "cursor_next a' \<le> length (usable_frames a)"
    "\<forall>i < n. usable_frames a ! (cursor_next a + ro + i) = f + of_nat (4096 * i)"
    using allocate_contiguous_ok [OF r] by blast
  from i obtain fs where fs: "free_path m (free_list a) fs" "distinct fs" "set fs \<inter> held = {}"
    "set fs \<union> held \<subseteq> set (take (cursor_next a) (usable_frames a))" and ok: "map_ok a"
    by (auto simp: frames_inv_def)
  have u: "usable_frames a' = usable_frames a" "free_list a' = free_list a" "map_ok a'"
    using ok by (subst ro(2), simp)+
  have rf: "x \<in> set (take (cursor_next a') (usable_frames a)) \<and> x \<notin> set (take (cursor_next a) (usable_frames a))"
    if "x \<in> run_frames f n" for x
  proof -
    from that obtain j where j: "j < n" "x = usable_frames a ! (cursor_next a + ro + j)"
      using ro(4) by (auto simp: run_frames_def)
    then have lt: "cursor_next a + ro + j < cursor_next a'" using ro(1) by simp
    have "x \<in> set (take (cursor_next a') (usable_frames a))"
      using lt ro(3) j(2) by (auto simp: in_set_conv_nth intro!: exI [of _ "cursor_next a + ro + j"])
    moreover have "x \<noteq> usable_frames a ! q" if "q < cursor_next a" for q
      using ok that lt ro(3) j(2) by (auto simp: map_ok_def nth_eq_iff_index_eq)
    then have "x \<notin> set (take (cursor_next a) (usable_frames a))" by (auto simp: in_set_conv_nth)
    ultimately show ?thesis ..
  qed
  show dj: "run_frames f n \<inter> held = {}" using rf fs(4) by blast
  have "set (take (cursor_next a) (usable_frames a)) \<subseteq> set (take (cursor_next a') (usable_frames a))"
    using ro(1) by (intro set_take_subset_set_take) simp
  then have "set fs \<union> (held \<union> run_frames f n) \<subseteq> set (take (cursor_next a') (usable_frames a'))"
    using fs(4) rf u(1) by auto
  moreover have "set fs \<inter> (held \<union> run_frames f n) = {}" using fs(3,4) rf by blast
  ultimately show "frames_inv (a', m) (held \<union> run_frames f n)"
    unfolding frames_inv_def prod.case u(2) using u(3) fs(1,2) by blast
qed

lemma frame_step_inv: "frame_step c c' \<Longrightarrow> frames_inv (fst c) (snd c) \<Longrightarrow> frames_inv (fst c') (snd c')"
proof (induction rule: frame_step.induct)
  case (step_alloc s f s' held)
  then show ?case using frames.alloc_Some by simp
next
  case (step_none s s' held)
  then show ?case using frames.alloc_None by simp
next
  case (step_free f held s)
  then show ?case using frames.dealloc_held by simp
next
  case (step_run n a f a' m held)
  then show ?case using frames_inv_run(1) by simp
next
  case (step_write x held a m w)
  then have "frames_inv (a, m(x := w)) held" 
    by (intro frames_inv_write [of a m held "m(x := w)"]) (simp_all, metis)
  then show ?case by simp
qed

lemma frame_init_sel [simp]: "cursor_next (frame_init mm) = 0" "free_list (frame_init mm) = None"
  by (simp_all add: frame_init_def)

lemma frames_inv_init: "map_ok (frame_init mm) \<Longrightarrow> frames_inv (frame_init mm, m) {}"
  by (auto simp: frames_inv_def intro!: exI [of _ "[]"])

lemma frame_reachable_inv:
  assumes "frame_step\<^sup>*\<^sup>* ((frame_init mm, m), {}) c" "map_ok (frame_init mm)"
  shows "frames_inv (fst c) (snd c)"
  using assms(1)
proof (induction rule: rtranclp_induct)
  case base
  then show ?case using frames_inv_init [OF assms(2)] by simp
next
  case (step c c')
  then show ?case using frame_step_inv by blast
qed

section \<open>Properties\<close>

definition demo_map :: "MemoryRegion list" where
  "demo_map = [\<lparr>start_addr = 0, end_addr = 0x1000, region_usable = False\<rparr>,
    \<lparr>start_addr = 0x1000, end_addr = 0x3000, region_usable = True\<rparr>,
    \<lparr>start_addr = 0x5000, end_addr = 0x8000, region_usable = True\<rparr>]"

lemma demo_usable: "usable_frames (frame_init demo_map) = [0x1000, 0x2000, 0x5000, 0x6000, 0x7000]"
  by (simp add: usable_frames_def demo_map_def frame_init_def step_by_4096_def containing_address_def upt_rec)

lemma demo_map_ok: "map_ok (frame_init demo_map)"
  by (simp add: map_ok_def demo_usable FREE_LIST_END_def)

text \<open>
  C4: The allocator never hands out a frame somebody holds. In every state reachable from boot by
  allocations, contiguous allocations, releases of held frames and arbitrary writes of holders
  into their own frames, the frame the next allocation returns, and every frame of the next
  contiguous run, is held by nobody.
\<close>

theorem frame_never_shared:
  assumes "map_ok (frame_init mm)" "frame_step\<^sup>*\<^sup>* ((frame_init mm, m0), {}) ((a, m), held)"
  shows "(case fst (allocate_frame (a, m)) of None \<Rightarrow> True | Some f \<Rightarrow> f \<notin> held) \<and>
    (case fst (allocate_contiguous n a) of None \<Rightarrow> True | Some f \<Rightarrow> run_frames f n \<inter> held = {})"
proof -
  have i: "frames_inv (a, m) held" using frame_reachable_inv [OF assms(2,1)] by simp
  have "f \<notin> held" if "fst (allocate_frame (a, m)) = Some f" for f
    using frames.alloc_Some [OF i, of f "snd (allocate_frame (a, m))"] that by (metis prod.collapse)
  moreover have "run_frames f n \<inter> held = {}" if "fst (allocate_contiguous n a) = Some f" for f
    using frames_inv_run(2) [OF i, of n f "snd (allocate_contiguous n a)"] that by (metis prod.collapse)
  ultimately show ?thesis by (auto split: option.splits)
qed

theorem frame_never_shared_witness:
  "\<exists>a m. frame_step\<^sup>*\<^sup>* ((frame_init demo_map, \<lambda>_. 0), {}) ((a, m), {0x1000}) \<and>
     fst (allocate_frame (a, m)) = Some 0x2000 \<and> 0x2000 \<notin> {0x1000 :: u64}"
proof -
  let ?a = "frame_init demo_map" and ?m = "\<lambda>_ :: u64. 0 :: u64"
  let ?b = "?a\<lparr>cursor_next := 1\<rparr>"
  have "allocate_frame (?a, ?m) = (Some 0x1000, (?b, ?m))"
    by (simp add: allocate_frame_def Let_def demo_usable)
  from step_alloc [OF this, of "{}"]
  have st: "frame_step\<^sup>*\<^sup>* ((?a, ?m), {}) ((?b, ?m), {0x1000})" by blast
  have f: "fst (allocate_frame (?b, ?m)) = Some 0x2000"
    by (simp add: allocate_frame_def Let_def demo_usable)
  from frame_never_shared [OF demo_map_ok st, of 1] f have "0x2000 \<notin> {0x1000 :: u64}" by simp
  with st f show ?thesis by blast
qed

text \<open>
  C39: A released frame is reused first: allocating right after releasing \<open>f\<close> returns \<open>f\<close> and
  leaves the allocator in the state it had before the release.
\<close>

theorem free_then_alloc:
  assumes "frames_inv (a, m) held" "f \<in> held"
  shows "\<exists>m'. allocate_frame (deallocate_frame f (a, m)) = (Some f, (a, m')) \<and> (\<forall>x. x \<noteq> f \<longrightarrow> m' x = m x)"
proof -
  have u: "f \<in> set (usable_frames a)" using assms by (auto simp: frames_inv_def dest: in_set_takeD)
  have p: "p \<noteq> FREE_LIST_END" if "free_list a = Some p" for p
  proof -
    from assms(1) obtain fs where "free_path m (free_list a) fs" by (auto simp: frames_inv_def)
    with that show ?thesis by (cases fs) auto
  qed
  show ?thesis
    using p by (cases "free_list a")
      (auto simp: allocate_frame_def deallocate_frame_def Let_def usable_aligned [OF u])
qed

theorem free_then_alloc_witness:
  "\<exists>m'. allocate_frame (deallocate_frame 0x1000 ((frame_init demo_map)\<lparr>cursor_next := 1\<rparr>, \<lambda>_. 0)) =
     (Some 0x1000, ((frame_init demo_map)\<lparr>cursor_next := 1\<rparr>, m'))"
proof -
  have "frames_inv ((frame_init demo_map)\<lparr>cursor_next := 1\<rparr>, \<lambda>_. 0) {0x1000}"
    using demo_map_ok by (auto simp: frames_inv_def demo_usable intro!: exI [of _ "[]"])
  from free_then_alloc [OF this] show ?thesis by blast
qed



end
