(* ===== verification/Context.thy ===== *)
theory Context
  imports Ferros_Prelude
begin

text \<open>
  Context switching of \<open>src/arch/x86_64/context.rs\<close>. The part of the processor the code saves and
  restores is the record \<open>cpu\<close>; kernel memory is read and written in aligned 64-bit words. The
  assembly of \<open>ferros_switch_context\<close> and of the two trampolines is translated instruction by
  instruction. A thread that is switched away and later switched back finds its registers, its
  stack and its FPU state; a new user thread enters ring 3 at its entry point.
\<close>

section \<open>Processor and memory\<close>

type_synonym kmem = "u64 \<Rightarrow> u64"

record cpu =
  rsp :: u64
  rbp :: u64
  rbx :: u64
  r12 :: u64
  r13 :: u64
  r14 :: u64
  r15 :: u64
  rip :: u64
  reg_cs :: u64
  reg_ss :: u64
  rflags :: u64
  fpu_regs :: "u8 list"
  msr_fs_base :: u64
  tss_rsp0 :: u64
  syscall_stack :: u64
  active_cr3 :: u64

definition push64 :: "u64 \<Rightarrow> 'a cpu_scheme \<times> kmem \<Rightarrow> 'a cpu_scheme \<times> kmem" where
  "push64 v s = (case s of (c, m) \<Rightarrow> (c\<lparr>rsp := rsp c - 8\<rparr>, m(rsp c - 8 := v)))"

definition pop64 :: "(u64 \<Rightarrow> 'a cpu_scheme \<Rightarrow> 'a cpu_scheme) \<Rightarrow> 'a cpu_scheme \<times> kmem \<Rightarrow> 'a cpu_scheme \<times> kmem" where
  "pop64 set_reg s = (case s of (c, m) \<Rightarrow> (set_reg (m (rsp c)) (c\<lparr>rsp := rsp c + 8\<rparr>), m))"

section \<open>The FPU area\<close>

definition new_clean :: "u8 list" where
  "new_clean = put_at 24 (le_bytes 4 (0x1F80 :: u32)) (put_at 0 (le_bytes 2 (0x037F :: u16)) (replicate 512 0))"

definition fpu_save_current :: "cpu \<Rightarrow> u8 list" where
  "fpu_save_current c = fpu_regs c"

definition fxsave :: "cpu \<Rightarrow> u8 list" where
  "fxsave c = fpu_regs c"

definition fxrstor :: "u8 list \<Rightarrow> cpu \<Rightarrow> cpu" where
  "fxrstor area c = c\<lparr>fpu_regs := area\<rparr>"

section \<open>Switching\<close>

text \<open>The first component of the result is what \<open>mov [rdi], rsp\<close> stores through \<open>old_rsp\<close>.\<close>

definition switch_save :: "'a cpu_scheme \<times> kmem \<Rightarrow> 'a cpu_scheme \<times> kmem" where
  "switch_save s =
     push64 (r15 (fst s)) (push64 (r14 (fst s)) (push64 (r13 (fst s)) (push64 (r12 (fst s))
       (push64 (rbx (fst s)) (push64 (rbp (fst s)) s)))))"

definition switch_restore :: "'a cpu_scheme \<times> kmem \<Rightarrow> 'a cpu_scheme \<times> kmem" where
  "switch_restore s =
     pop64 (\<lambda>v c. c\<lparr>rip := v\<rparr>) (pop64 (\<lambda>v c. c\<lparr>rbp := v\<rparr>) (pop64 (\<lambda>v c. c\<lparr>rbx := v\<rparr>)
       (pop64 (\<lambda>v c. c\<lparr>r12 := v\<rparr>) (pop64 (\<lambda>v c. c\<lparr>r13 := v\<rparr>) (pop64 (\<lambda>v c. c\<lparr>r14 := v\<rparr>)
         (pop64 (\<lambda>v c. c\<lparr>r15 := v\<rparr>) s))))))"

definition switch_context :: "u64 \<Rightarrow> 'a cpu_scheme \<times> kmem \<Rightarrow> u64 \<times> 'a cpu_scheme \<times> kmem" where
  "switch_context new_rsp s =
     (case switch_save s of (c, m) \<Rightarrow> (rsp c, switch_restore (c\<lparr>rsp := new_rsp\<rparr>, m)))"

text \<open>\<open>set_syscall_stack\<close> of \<open>src/arch/x86_64/syscall.rs\<close>.\<close>

definition set_syscall_stack :: "u64 \<Rightarrow> cpu \<Rightarrow> cpu" where
  "set_syscall_stack ktop c = c\<lparr>syscall_stack := ktop AND NOT 0xF\<rparr>"

text \<open>
  \<open>switch_task\<close>: FPU state out and in, the kernel stack for interrupts and for \<open>syscall\<close>, the FS
  base, the address space, and the switch itself. The two results are what is stored through
  \<open>old_rsp\<close> and \<open>old_fpu\<close>.
\<close>

definition switch_task :: "u64 \<Rightarrow> u64 \<Rightarrow> u64 \<Rightarrow> u64 \<Rightarrow> u8 list \<Rightarrow> cpu \<times> kmem \<Rightarrow> (u64 \<times> u8 list) \<times> cpu \<times> kmem" where
  "switch_task new_rsp next_cr3 next_rsp0 next_fs_base next_fpu s =
     (case s of (c, m) \<Rightarrow>
        (let old_fpu = fxsave c;
             c = fxrstor next_fpu c;
             c = c\<lparr>tss_rsp0 := next_rsp0\<rparr>;
             c = c\<lparr>msr_fs_base := next_fs_base\<rparr>;
             c = (if next_rsp0 \<noteq> 0 then set_syscall_stack next_rsp0 c else c);
             c = (if next_cr3 \<noteq> active_cr3 c then c\<lparr>active_cr3 := next_cr3\<rparr> else c)
         in (case switch_context new_rsp (c, m) of (old_rsp, s') \<Rightarrow> ((old_rsp, old_fpu), s'))))"

section \<open>Stacks of new threads\<close>

text \<open>\<open>tramp\<close> is the address of the trampoline, \<open>entry\<close> of the thread function.\<close>

fun write_down :: "u64 list \<Rightarrow> u64 \<Rightarrow> kmem \<Rightarrow> u64 \<times> kmem" where
  "write_down [] sp m = (sp, m)"
| "write_down (v # vs) sp m = write_down vs (sp - 8) (m(sp - 8 := v))"

definition init_thread_stack :: "u64 \<Rightarrow> u64 \<Rightarrow> u64 \<Rightarrow> kmem \<Rightarrow> u64 \<times> kmem" where
  "init_thread_stack tramp stack_top entry m = write_down (tramp # replicate 5 0 @ [entry]) stack_top m"

definition init_user_thread_stack :: "u64 \<Rightarrow> u64 \<Rightarrow> u64 \<Rightarrow> u64 \<Rightarrow> u64 \<Rightarrow> u64 \<Rightarrow> kmem \<Rightarrow> u64 \<times> kmem" where
  "init_user_thread_stack tramp kstack_top entry user_stack_top user_cs user_ss m =
     write_down [tramp, 0, 0, user_ss, user_cs, user_stack_top, entry] kstack_top m"

text \<open>The trampolines: \<open>sti; call r15\<close>, and the \<open>iretq\<close> frame of a user thread.\<close>

definition thread_trampoline :: "cpu \<times> kmem \<Rightarrow> cpu \<times> kmem" where
  "thread_trampoline s =
     (case s of (c, m) \<Rightarrow>
        (case push64 (rip c) (c\<lparr>rflags := rflags c OR 0x200\<rparr>, m) of (c', m') \<Rightarrow> (c'\<lparr>rip := r15 c'\<rparr>, m')))"

definition iretq :: "cpu \<times> kmem \<Rightarrow> cpu \<times> kmem" where
  "iretq s =
     (case s of (c, m) \<Rightarrow>
        (c\<lparr>rip := m (rsp c), reg_cs := m (rsp c + 8), rflags := m (rsp c + 16),
           rsp := m (rsp c + 24), reg_ss := m (rsp c + 32)\<rparr>, m))"

definition user_thread_trampoline :: "cpu \<times> kmem \<Rightarrow> cpu \<times> kmem" where
  "user_thread_trampoline s =
     iretq (push64 (r15 (fst s)) (push64 (r13 (fst s)) (push64 0x202 (push64 (r14 (fst s))
       (push64 (r12 (fst s)) s)))))"

definition current_address_space :: "cpu \<Rightarrow> u64" where
  "current_address_space c = active_cr3 c"

section \<open>What a saved context holds\<close>

text \<open>The words a switch leaves on the stack of the thread it suspends.\<close>

definition frame_words :: "u64 \<Rightarrow> u64 set" where
  "frame_words sp = {sp, sp + 8, sp + 16, sp + 24, sp + 32, sp + 40, sp + 48}"

definition saved_at :: "u64 \<Rightarrow> cpu \<Rightarrow> u64 \<Rightarrow> kmem \<Rightarrow> bool" where
  "saved_at sp c ret_addr m \<longleftrightarrow>
     m sp = r15 c \<and> m (sp + 8) = r14 c \<and> m (sp + 16) = r13 c \<and> m (sp + 24) = r12 c \<and>
     m (sp + 32) = rbx c \<and> m (sp + 40) = rbp c \<and> m (sp + 48) = ret_addr"

lemma switch_save_eq:
  "switch_save (c, m) =
     (c\<lparr>rsp := rsp c - 48\<rparr>,
      m(rsp c - 8 := rbp c, rsp c - 16 := rbx c, rsp c - 24 := r12 c, rsp c - 32 := r13 c,
        rsp c - 40 := r14 c, rsp c - 48 := r15 c))"
  by (simp add: switch_save_def push64_def)

lemma switch_restore_eq:
  "switch_restore (c, m) =
     (c\<lparr>r15 := m (rsp c), r14 := m (rsp c + 8), r13 := m (rsp c + 16), r12 := m (rsp c + 24),
        rbx := m (rsp c + 32), rbp := m (rsp c + 40), rip := m (rsp c + 48), rsp := rsp c + 56\<rparr>, m)"
  by (simp add: switch_restore_def pop64_def add.assoc)

lemma diff_ne_diff: "(x :: u64) - a = x - b \<longleftrightarrow> a = b"
  by simp

lemma word_shift_ne: "(x :: u64) - a = x - b + c \<longleftrightarrow> b = a + c"
  by (auto simp: algebra_simps)

lemma saved_by_switch:
  "saved_at (rsp c - 48) c (m (rsp c)) (snd (switch_save (c, m)))"
  by (simp add: saved_at_def switch_save_eq)

lemma saved_at_cong: "saved_at sp c a m \<Longrightarrow> \<forall>x \<in> frame_words sp. m' x = m x \<Longrightarrow> saved_at sp c a m'"
  by (simp add: saved_at_def frame_words_def)

lemma switch_context_regs:
  assumes "switch_context sp (c, m) = (old, (c', m'))"
    and "frame_words sp \<inter> (\<lambda>k. rsp c - 8 * k) ` {1, 2, 3, 4, 5, 6} = {}" and "saved_at sp d a m"
  shows "r15 c' = r15 d" "r14 c' = r14 d" "r13 c' = r13 d" "r12 c' = r12 d" "rbx c' = rbx d" "rbp c' = rbp d"
    "rip c' = a" "rsp c' = sp + 56" "old = rsp c - 48" "fpu_regs c' = fpu_regs c"
    "msr_fs_base c' = msr_fs_base c" "active_cr3 c' = active_cr3 c" "tss_rsp0 c' = tss_rsp0 c"
proof -
  have "rsp c - 8 * k \<notin> frame_words sp" if "k \<in> {1, 2, 3, 4, 5, 6}" for k
    using assms(2) that by blast
  from this [of 1] this [of 2] this [of 3] this [of 4] this [of 5] this [of 6]
  have "\<forall>x \<in> frame_words sp. snd (switch_save (c, m)) x = m x"
    by (auto simp: switch_save_eq)
  from saved_at_cong [OF assms(3) this] have s: "saved_at sp d a (snd (switch_save (c, m)))" .
  have e: "switch_context sp (c, m) = (rsp c - 48, switch_restore (c\<lparr>rsp := sp\<rparr>, snd (switch_save (c, m))))"
    by (simp add: switch_context_def switch_save_eq)
  from assms(1) have old: "old = rsp c - 48" and c': "c' = fst (switch_restore (c\<lparr>rsp := sp\<rparr>, snd (switch_save (c, m))))"
    unfolding e by (metis fst_conv snd_conv)+
  show "r15 c' = r15 d" "r14 c' = r14 d" "r13 c' = r13 d" "r12 c' = r12 d" "rbx c' = rbx d" "rbp c' = rbp d"
    "rip c' = a" "rsp c' = sp + 56" "fpu_regs c' = fpu_regs c"
    "msr_fs_base c' = msr_fs_base c" "active_cr3 c' = active_cr3 c" "tss_rsp0 c' = tss_rsp0 c"
    using s unfolding c' saved_at_def switch_restore_eq by simp_all
  show "old = rsp c - 48" by (rule old)
qed

section \<open>Properties\<close>

text \<open>
  C10: A context switch loses nothing. A thread that switches away through \<open>switch_task\<close> and is
  switched back later -- whatever the processor did in between, as long as the seven words its
  registers were saved in were left alone -- continues with its callee-saved registers, its stack
  pointer, its return address and its FPU state, in its own address space with its own FS base.
\<close>

theorem switch_away_and_back:
  assumes away: "switch_task sp1 cr1 k1 fs1 fpu1 (c, m) = ((saved_rsp, saved_fpu), s1)"
    and resumed: "switch_task saved_rsp cr2 k2 fs2 saved_fpu (c2, m2) = (olds, (c3, m3))"
    and kept: "\<forall>x \<in> frame_words saved_rsp. m2 x = snd s1 x"
    and apart: "frame_words saved_rsp \<inter> (\<lambda>k. rsp c2 - 8 * k) ` {1, 2, 3, 4, 5, 6} = {}"
  shows "r15 c3 = r15 c \<and> r14 c3 = r14 c \<and> r13 c3 = r13 c \<and> r12 c3 = r12 c \<and> rbx c3 = rbx c \<and>
    rbp c3 = rbp c \<and> rip c3 = m (rsp c) \<and> rsp c3 = rsp c + 8 \<and> fpu_regs c3 = fpu_regs c \<and>
    active_cr3 c3 = cr2 \<and> msr_fs_base c3 = fs2 \<and> tss_rsp0 c3 = k2"
proof -
  define prep where "prep r0 cr fs fp d =
    (let d = fxrstor fp d; d = d\<lparr>tss_rsp0 := r0\<rparr>; d = d\<lparr>msr_fs_base := fs\<rparr>;
         d = (if r0 \<noteq> 0 then set_syscall_stack r0 d else d)
     in if cr \<noteq> active_cr3 d then d\<lparr>active_cr3 := cr\<rparr> else d)" for r0 cr :: u64 and fs fp and d :: cpu
  have prep [simp]: "rsp (prep r0 cr fs fp d) = rsp d" "fpu_regs (prep r0 cr fs fp d) = fp"
    "active_cr3 (prep r0 cr fs fp d) = cr" "msr_fs_base (prep r0 cr fs fp d) = fs" "tss_rsp0 (prep r0 cr fs fp d) = r0"
    "saved_at sp (prep r0 cr fs fp d) a m = saved_at sp d a m" for r0 cr fs fp d sp a m
    by (simp_all add: prep_def Let_def fxrstor_def saved_at_def set_syscall_stack_def)
  have st: "switch_task sp cr r0 fs fp (d, m) =
      (case switch_context sp (prep r0 cr fs fp d, m) of (o', s') \<Rightarrow> ((o', fpu_regs d), s'))" for sp cr r0 fs fp d m
    by (simp add: switch_task_def Let_def prep_def fxsave_def)
  let ?d = "prep k1 cr1 fs1 fpu1 c"
  have 1: "saved_rsp = rsp c - 48" "saved_fpu = fpu_regs c" "snd s1 = snd (switch_save (?d, m))"
    using away by (auto simp: st switch_context_def switch_save_eq switch_restore_eq)
  from saved_by_switch [of ?d m] have "saved_at saved_rsp c (m (rsp c)) (snd s1)" using 1 by simp
  from saved_at_cong [OF this kept] have s2: "saved_at saved_rsp c (m (rsp c)) m2" .
  obtain o' where sc: "switch_context saved_rsp (prep k2 cr2 fs2 saved_fpu c2, m2) = (o', (c3, m3))"
    using resumed by (auto simp: st split: prod.splits)
  from switch_context_regs [OF sc _ s2] apart show ?thesis by (simp add: 1)
qed

theorem switch_away_and_back_witness:
  "let c = \<lparr>rsp = 0x1000, rbp = 1, rbx = 2, r12 = 3, r13 = 4, r14 = 5, r15 = 6, rip = 0, reg_cs = 8, reg_ss = 16,
       rflags = 2, fpu_regs = [7], msr_fs_base = 9, tss_rsp0 = 0, syscall_stack = 0, active_cr3 = 0x3000\<rparr>;
       m = (\<lambda>_. 0)(0x1000 := 42);
       r1 = switch_task 0x2000 0x4000 0x2800 0 [8] (c, m);
       c3 = fst (snd (switch_task (fst (fst r1)) 0x3000 0x1800 9 (snd (fst r1)) (snd r1)))
   in rip c3 = 42 \<and> rbp c3 = 1 \<and> fpu_regs c3 = [7] \<and> msr_fs_base c3 = 9 \<and> rsp c3 = 0x1008"
proof -
  let ?c = "\<lparr>rsp = 0x1000, rbp = 1, rbx = 2, r12 = 3, r13 = 4, r14 = 5, r15 = 6, rip = 0, reg_cs = 8, reg_ss = 16,
       rflags = 2, fpu_regs = [7], msr_fs_base = 9, tss_rsp0 = 0, syscall_stack = 0, active_cr3 = 0x3000\<rparr> :: cpu"
  let ?m = "(\<lambda>_. 0)(0x1000 := 42) :: kmem"
  obtain sr sf c2 m2 where r1: "switch_task 0x2000 0x4000 0x2800 0 [8] (?c, ?m) = ((sr, sf), (c2, m2))"
    by (metis prod.collapse)
  have v: "sr = 0xFD0" "rsp c2 = 0x2038"
    using r1 by (auto simp: switch_task_def Let_def switch_context_def switch_save_eq switch_restore_eq fxrstor_def set_syscall_stack_def)
  obtain o2 c3 m3 where r2: "switch_task sr 0x3000 0x1800 9 sf (c2, m2) = (o2, (c3, m3))"
    by (metis prod.collapse)
  from switch_away_and_back [OF r1 r2] v show ?thesis
    by (simp add: r1 r2 [unfolded v] Let_def frame_words_def)
qed

text \<open>
  C24: The first switch to a new user process enters ring 3 as requested. After
  \<open>init_user_thread_stack\<close>, switching to the returned stack pointer goes to the user trampoline,
  whose \<open>iretq\<close> continues at the entry point, on the user stack, with the user selectors and with
  interrupts enabled -- so the process can be preempted.
\<close>

theorem new_user_thread_enters_ring3:
  assumes init: "init_user_thread_stack tramp ktop entry ustack ucs uss m0 = (sp, m1)"
    and switch: "switch_context sp (c, m1) = (old, s')"
    and apart: "frame_words sp \<inter> (\<lambda>k. rsp c - 8 * k) ` {1, 2, 3, 4, 5, 6} = {}"
  shows "rip (fst s') = tramp \<and>
    (let u = fst (user_thread_trampoline s')
     in rip u = entry \<and> rsp u = ustack \<and> reg_cs u = ucs \<and> reg_ss u = uss \<and> rflags u = 0x202)"
proof -
  have sp: "sp = ktop - 56" and s: "saved_at sp \<lparr>rsp = 0, rbp = 0, rbx = 0, r12 = uss, r13 = ucs, r14 = ustack, r15 = entry,
      rip = 0, reg_cs = 0, reg_ss = 0, rflags = 0, fpu_regs = [], msr_fs_base = 0, tss_rsp0 = 0, syscall_stack = 0,
      active_cr3 = 0\<rparr> tramp m1"
    using init by (auto simp: init_user_thread_stack_def saved_at_def)
  obtain c' m' where s': "s' = (c', m')" by (cases s')
  from switch_context_regs [OF switch [unfolded s'] apart s] show ?thesis
    by (simp add: s' user_thread_trampoline_def iretq_def push64_def Let_def)
qed

theorem new_user_thread_enters_ring3_witness:
  "let (sp, m1) = init_user_thread_stack 0xAAA 0x8000 0x400000 0x7FF000 0x33 0x2B (\<lambda>_. 0);
       c = \<lparr>rsp = 0x1000, rbp = 1, rbx = 2, r12 = 3, r13 = 4, r14 = 5, r15 = 6, rip = 0, reg_cs = 8, reg_ss = 16,
         rflags = 2, fpu_regs = [7], msr_fs_base = 9, tss_rsp0 = 0, syscall_stack = 0, active_cr3 = 0x3000\<rparr>
   in rip (fst (user_thread_trampoline (snd (switch_context sp (c, m1))))) = 0x400000"
proof -
  obtain sp m1 where i: "init_user_thread_stack 0xAAA 0x8000 0x400000 0x7FF000 0x33 0x2B (\<lambda>_. 0) = (sp, m1)"
    by (metis prod.collapse)
  let ?c = "\<lparr>rsp = 0x1000, rbp = 1, rbx = 2, r12 = 3, r13 = 4, r14 = 5, r15 = 6, rip = 0, reg_cs = 8, reg_ss = 16,
         rflags = 2, fpu_regs = [7], msr_fs_base = 9, tss_rsp0 = 0, syscall_stack = 0, active_cr3 = 0x3000\<rparr> :: cpu"
  obtain old s' where sw: "switch_context sp (?c, m1) = (old, s')" by (metis prod.collapse)
  have "sp = 0x7FC8" using i by (simp add: init_user_thread_stack_def)
  then have "frame_words sp \<inter> (\<lambda>k. rsp ?c - 8 * k) ` {1, 2, 3, 4, 5, 6} = {}" by (simp add: frame_words_def)
  from new_user_thread_enters_ring3 [OF i sw this] show ?thesis by (simp add: i sw Let_def)
qed

end
