(* ===== verification/Threads.thy ===== *)
theory Threads
  imports Context
begin

text \<open>
  The scheduler of \<open>src/sched/thread.rs\<close>: threads and processes, round-robin switching, exit,
  signals, \<open>wait\<close>, blocking on input and on pipes, and the collection of finished threads. The
  statics of the file and the processor form the state \<open>mach\<close>; a panic is the error value of the
  effect, with its message. The code runs each of these operations with interrupts disabled, so
  every operation is one step; a blocking operation ends its step by switching away, and is run
  again when the thread is next chosen.
\<close>

section \<open>Data\<close>

datatype State = Runnable | Blocked | Zombie | Dead | Reaped

datatype BlockReason = BlockNone | BlockChild | BlockStdin | BlockPipe

text \<open>\<open>stack\<close> is the address of the boxed kernel stack, \<open>cr3\<close> the root of the address space.\<close>

record Thread =
  pid :: u32
  parent :: u32
  exit_status :: "i32 option"
  term_signal :: "u8 option"
  pending_signals :: u64
  thread_rsp :: u64
  stack :: "u64 option"
  cr3 :: "u64 option"
  kernel_stack_top :: u64
  fs_base :: u64
  fpu :: "u8 list"
  state :: State
  blocked_on :: BlockReason

record Scheduler =
  threads :: "Thread list"
  current :: nat
  kernel_cr3 :: u64

record mach =
  SCHEDULER :: "Scheduler option"
  NEXT_PID :: u32
  PREEMPTION_ENABLED :: bool
  STDIN_BLOCKS :: u64
  mcpu :: cpu
  mmem :: kmem

type_synonym 'a kern = "(mach, string, 'a) eff"

text \<open>What an operation that may leave its thread for good, or for a while, does.\<close>

datatype 'a reply = Return 'a | Away

definition STACK_SIZE :: u64 where
  "STACK_SIZE = 4096 * 4"

section \<open>Access to the scheduler\<close>

text \<open>\<open>guard.as_mut().expect("scheduler not initialized")\<close>.\<close>

definition sched_expect :: "Scheduler kern" where
  "sched_expect s = (case SCHEDULER s of None \<Rightarrow> (Inl ''scheduler not initialized'', s) | Some sc \<Rightarrow> (Inr sc, s))"

definition sched_put :: "Scheduler \<Rightarrow> unit kern" where
  "sched_put sc s = (Inr (), s\<lparr>SCHEDULER := Some sc\<rparr>)"

definition current_thread :: "Scheduler \<Rightarrow> Thread" where
  "current_thread sc = threads sc ! current sc"

definition upd_thread :: "nat \<Rightarrow> (Thread \<Rightarrow> Thread) \<Rightarrow> Scheduler \<Rightarrow> Scheduler" where
  "upd_thread i f sc = sc\<lparr>threads := (threads sc)[i := f (threads sc ! i)]\<rparr>"

definition init_sched :: "unit kern" where
  "init_sched s =
     (Inr (), s\<lparr>SCHEDULER := Some \<lparr>
        threads = [\<lparr>pid = 0, parent = 0, exit_status = None, term_signal = None, pending_signals = 0,
          thread_rsp = 0, stack = None, cr3 = None, kernel_stack_top = 0, fs_base = 0, fpu = new_clean,
          state = Runnable, blocked_on = BlockNone\<rparr>],
        current = 0, kernel_cr3 = current_address_space (mcpu s)\<rparr>\<rparr>)"

definition current_fs_base :: "mach \<Rightarrow> u64" where
  "current_fs_base s = (case SCHEDULER s of None \<Rightarrow> 0 | Some sc \<Rightarrow> fs_base (current_thread sc))"

definition set_current_fs_base :: "u64 \<Rightarrow> unit kern" where
  "set_current_fs_base fs s =
     (case SCHEDULER s of
        None \<Rightarrow> (Inr (), s)
      | Some sc \<Rightarrow> (Inr (), s\<lparr>SCHEDULER := Some (upd_thread (current sc) (\<lambda>t. t\<lparr>fs_base := fs\<rparr>) sc)\<rparr>))"

definition get_kernel_cr3 :: "u64 kern" where
  "get_kernel_cr3 = ebind sched_expect (\<lambda>sc. ret (kernel_cr3 sc))"

definition current_pid :: "mach \<Rightarrow> u32" where
  "current_pid s = (case SCHEDULER s of None \<Rightarrow> 0 | Some sc \<Rightarrow> pid (current_thread sc))"

definition current_ppid :: "mach \<Rightarrow> u32" where
  "current_ppid s = (case SCHEDULER s of None \<Rightarrow> 0 | Some sc \<Rightarrow> parent (current_thread sc))"

definition exec_replace_cr3 :: "u64 \<Rightarrow> u64 kern" where
  "exec_replace_cr3 new =
     ebind sched_expect (\<lambda>sc.
       case cr3 (current_thread sc) of
         None \<Rightarrow> fail ''exec on a kernel thread (no address space)''
       | Some old \<Rightarrow>
           ebind (sched_put (upd_thread (current sc) (\<lambda>t. t\<lparr>cr3 := Some new, fs_base := 0\<rparr>) sc)) (\<lambda>_. ret old))"

section \<open>New threads\<close>

definition push_thread :: "Thread \<Rightarrow> unit kern" where
  "push_thread t = ebind sched_expect (\<lambda>sc. sched_put (sc\<lparr>threads := threads sc @ [t]\<rparr>))"

definition fetch_pid :: "u32 kern" where
  "fetch_pid s = (Inr (NEXT_PID s), s\<lparr>NEXT_PID := NEXT_PID s + 1\<rparr>)"

text \<open>\<open>base\<close> is the address of the freshly boxed stack, \<open>tramp\<close> that of the thread trampoline.\<close>

definition spawn :: "u64 \<Rightarrow> u64 \<Rightarrow> u64 \<Rightarrow> unit kern" where
  "spawn tramp base entry s =
     (let ktop = (base + STACK_SIZE) AND NOT 0xF;
          (sp, m) = init_thread_stack tramp ktop entry (mmem s);
          s = s\<lparr>mmem := m\<rparr>;
          par = current_pid s
      in ebind fetch_pid (\<lambda>p. push_thread
           \<lparr>pid = p, parent = par, exit_status = None, term_signal = None, pending_signals = 0,
            thread_rsp = sp, stack = Some base, cr3 = None, kernel_stack_top = ktop, fs_base = 0,
            fpu = new_clean, state = Runnable, blocked_on = BlockNone\<rparr>) s)"

definition add_user_task :: "u64 \<Rightarrow> u64 \<Rightarrow> u64 \<Rightarrow> u64 \<Rightarrow> u64 \<Rightarrow> u32 kern" where
  "add_user_task sp root ktop kstack fs s =
     (let par = current_pid s
      in ebind fetch_pid (\<lambda>p. ebind (push_thread
           \<lparr>pid = p, parent = par, exit_status = None, term_signal = None, pending_signals = 0,
            thread_rsp = sp, stack = Some kstack, cr3 = Some root, kernel_stack_top = ktop, fs_base = fs,
            fpu = fpu_save_current (mcpu s), state = Runnable, blocked_on = BlockNone\<rparr>) (\<lambda>_. ret p)) s)"

definition start_preemption :: "unit kern" where
  "start_preemption s = (Inr (), s\<lparr>PREEMPTION_ENABLED := True\<rparr>)"

definition stop_preemption :: "unit kern" where
  "stop_preemption s = (Inr (), s\<lparr>PREEMPTION_ENABLED := False\<rparr>)"

section \<open>Switching\<close>

text \<open>The first runnable thread strictly after the current one, in a circle.\<close>

definition next_runnable :: "Scheduler \<Rightarrow> nat option" where
  "next_runnable sc =
     (let len = length (threads sc)
      in List.find (\<lambda>c. state (threads sc ! c) = Runnable) (map (\<lambda>i. (current sc + i) mod len) [1..<len]))"

definition switch_to_next :: "bool kern" where
  "switch_to_next s =
     (case SCHEDULER s of
        None \<Rightarrow> (Inr False, s)
      | Some sc \<Rightarrow>
          (case next_runnable sc of
             Some n \<Rightarrow>
               (let t = threads sc ! n;
                    next_cr3 = (case cr3 t of None \<Rightarrow> kernel_cr3 sc | Some f \<Rightarrow> f);
                    ((old_rsp, old_fpu), (c', m')) =
                      switch_task (thread_rsp t) next_cr3 (kernel_stack_top t) (fs_base t) (fpu t) (mcpu s, mmem s);
                    sc' = upd_thread (current sc) (\<lambda>t. t\<lparr>thread_rsp := old_rsp, fpu := old_fpu\<rparr>) sc
                in (Inr True, s\<lparr>SCHEDULER := Some (sc'\<lparr>current := n\<rparr>), mcpu := c', mmem := m'\<rparr>))
           | None \<Rightarrow>
               if state (current_thread sc) = Runnable then (Inr False, s)
               else (Inl ''no runnable task to switch to'', s)))"

definition yield_now :: "unit kern" where
  "yield_now = ebind switch_to_next (\<lambda>_. ret ())"

definition on_timer_tick :: "unit kern" where
  "on_timer_tick s = (if PREEMPTION_ENABLED s then ebind switch_to_next (\<lambda>_. ret ()) s else (Inr (), s))"

section \<open>Termination\<close>

text \<open>Wakes the first thread with the given pid that is blocked in \<open>wait\<close>.\<close>

fun wake_waiting_parent :: "u32 \<Rightarrow> Thread list \<Rightarrow> Thread list" where
  "wake_waiting_parent p [] = []"
| "wake_waiting_parent p (t # ts) =
     (if pid t = p \<and> state t = Blocked \<and> blocked_on t = BlockChild then t\<lparr>state := Runnable\<rparr> # ts
      else t # wake_waiting_parent p ts)"

definition terminate :: "Scheduler \<Rightarrow> nat \<Rightarrow> i32 \<Rightarrow> u8 option \<Rightarrow> Scheduler" where
  "terminate sc idx status signal =
     (let p = pid (threads sc ! idx);
          ts = (threads sc)[idx := (threads sc ! idx)\<lparr>exit_status := Some status, term_signal := signal, state := Zombie\<rparr>];
          ts = map (\<lambda>t. if parent t = p then t\<lparr>parent := 0\<rparr> else t) ts;
          parent_pid = parent (ts ! idx);
          ts = (if parent_pid \<noteq> 0 then wake_waiting_parent parent_pid ts else ts)
      in sc\<lparr>threads := ts\<rparr>)"

text \<open>The thread that called does not come back; coming back would be a panic.\<close>

definition leave_forever :: "string \<Rightarrow> 'a reply kern" where
  "leave_forever msg = ebind switch_to_next (\<lambda>switched. if switched then ret Away else fail msg)"

definition exit_current_inner :: "i32 \<Rightarrow> u8 option \<Rightarrow> unit reply kern" where
  "exit_current_inner status signal =
     ebind sched_expect (\<lambda>sc.
     ebind (sched_put (terminate sc (current sc) status signal)) (\<lambda>_.
     leave_forever ''exit_current returned to a dead task''))"

definition exit_current :: "i32 \<Rightarrow> unit reply kern" where
  "exit_current status = exit_current_inner status None"

definition exit_current_killed :: "u8 \<Rightarrow> unit reply kern" where
  "exit_current_killed sig = exit_current_inner (128 + uint sig) (Some sig)"

section \<open>Signals\<close>

definition default_terminates :: "u8 \<Rightarrow> bool" where
  "default_terminates sig \<longleftrightarrow> sig \<notin> {17, 18, 19, 20, 21, 22, 23, 28}"

datatype SignalOutcome = Delivered | NoSuchProcess

fun is_alive :: "State \<Rightarrow> bool" where
  "is_alive Runnable = True"
| "is_alive Blocked = True"
| "is_alive Zombie = False"
| "is_alive Dead = False"
| "is_alive Reaped = False"

text \<open>\<open>iter().position(p)\<close>.\<close>

fun position :: "('a \<Rightarrow> bool) \<Rightarrow> 'a list \<Rightarrow> nat option" where
  "position P [] = None"
| "position P (x # xs) = (if P x then Some 0 else map_option Suc (position P xs))"

definition signal :: "u32 \<Rightarrow> u8 \<Rightarrow> SignalOutcome reply kern" where
  "signal target_pid sig =
     ebind sched_expect (\<lambda>sc.
       case position (\<lambda>t. pid t = target_pid \<and> cr3 t \<noteq> None \<and> is_alive (state t)) (threads sc) of
         None \<Rightarrow> ret (Return NoSuchProcess)
       | Some idx \<Rightarrow>
           if sig = 0 then ret (Return Delivered)
           else if 64 < sig then fail ''attempt to shift left with overflow''
           else
             (let sc = upd_thread idx (\<lambda>t. t\<lparr>pending_signals := pending_signals t OR push_bit (unat sig - 1) 1\<rparr>) sc
              in if default_terminates sig
                 then ebind (sched_put (terminate sc idx (128 + uint sig) (Some sig))) (\<lambda>_.
                        if idx = current sc then leave_forever ''signal terminated self but returned''
                        else ret (Return Delivered))
                 else ebind (sched_put sc) (\<lambda>_. ret (Return Delivered))))"

section \<open>Waiting for children\<close>

datatype WaitResult = Collected u32 i32 "u8 option" | WouldBlock | NoChildren

text \<open>\<open>want_pid as u32\<close> keeps the low 32 bits.\<close>

definition is_mine :: "u32 \<Rightarrow> i64 \<Rightarrow> Thread \<Rightarrow> bool" where
  "is_mine cur_pid want_pid t \<longleftrightarrow> parent t = cur_pid \<and> (want_pid > 0 \<longrightarrow> pid t = word_of_int want_pid)"

definition try_collect_or_block :: "i64 \<Rightarrow> WaitResult kern" where
  "try_collect_or_block want_pid =
     ebind sched_expect (\<lambda>sc.
       let mine = is_mine (pid (current_thread sc)) want_pid
       in case position (\<lambda>t. mine t \<and> state t = Zombie) (threads sc) of
            Some i \<Rightarrow>
              (let t = threads sc ! i
               in ebind (sched_put (upd_thread i (\<lambda>t. t\<lparr>state := Dead\<rparr>) sc)) (\<lambda>_.
                    ret (Collected (pid t) (case exit_status t of None \<Rightarrow> 0 | Some c \<Rightarrow> c) (term_signal t))))
          | None \<Rightarrow>
              if \<exists>t \<in> set (threads sc). mine t \<and> is_alive (state t)
              then ebind (sched_put (upd_thread (current sc) (\<lambda>t. t\<lparr>state := Blocked, blocked_on := BlockChild\<rparr>) sc))
                     (\<lambda>_. ret WouldBlock)
              else ret NoChildren)"

text \<open>One round of the loop of \<open>wait_current\<close>; \<open>Away\<close> is the round that switches to another thread
  and is followed by another round when this thread is chosen again.\<close>

definition wait_current :: "i64 \<Rightarrow> (u32 \<times> i32 \<times> u8 option) option reply kern" where
  "wait_current want_pid =
     ebind (try_collect_or_block want_pid) (\<lambda>r.
       case r of
         Collected p status sig \<Rightarrow> ret (Return (Some (p, status, sig)))
       | NoChildren \<Rightarrow> ret (Return None)
       | WouldBlock \<Rightarrow> ebind switch_to_next (\<lambda>_. ret Away))"

section \<open>Blocking on input and on pipes\<close>

definition block_current :: "BlockReason \<Rightarrow> unit kern" where
  "block_current why =
     ebind sched_expect (\<lambda>sc.
       sched_put (upd_thread (current sc) (\<lambda>t. t\<lparr>state := Blocked, blocked_on := why\<rparr>) sc))"

definition block_current_on_stdin :: "unit kern" where
  "block_current_on_stdin =
     ebind (block_current BlockStdin) (\<lambda>_.
     ebind (\<lambda>s. (Inr (), s\<lparr>STDIN_BLOCKS := STDIN_BLOCKS s + 1\<rparr>)) (\<lambda>_.
     ebind switch_to_next (\<lambda>_. ret ())))"

definition block_current_on_pipe :: "unit kern" where
  "block_current_on_pipe = ebind (block_current BlockPipe) (\<lambda>_. ebind switch_to_next (\<lambda>_. ret ()))"

definition wake_blocked :: "BlockReason \<Rightarrow> unit kern" where
  "wake_blocked why s =
     (case SCHEDULER s of
        None \<Rightarrow> (Inr (), s)
      | Some sc \<Rightarrow>
          (Inr (), s\<lparr>SCHEDULER := Some (sc\<lparr>threads :=
             map (\<lambda>t. if state t = Blocked \<and> blocked_on t = why then t\<lparr>state := Runnable\<rparr> else t) (threads sc)\<rparr>)\<rparr>))"

definition wake_stdin_readers :: "unit kern" where
  "wake_stdin_readers = wake_blocked BlockStdin"

definition wake_pipe_waiters :: "unit kern" where
  "wake_pipe_waiters = wake_blocked BlockPipe"

section \<open>Collecting finished threads\<close>

definition collectable :: "Thread \<Rightarrow> bool" where
  "collectable t \<longleftrightarrow> state t = Dead \<or> state t = Zombie \<and> parent t = 0"

type_synonym corpse = "u64 option \<times> u64 option"

definition reap_thread :: "nat \<Rightarrow> nat \<Rightarrow> Thread \<Rightarrow> Thread" where
  "reap_thread cur i t = (if i \<noteq> cur \<and> collectable t then t\<lparr>cr3 := None, stack := None, state := Reaped\<rparr> else t)"

text \<open>The first phase of \<open>reap\<close>, under the lock: the corpses taken and the threads that remain.\<close>

definition reap_corpses :: "corpse list kern" where
  "reap_corpses s =
     (case SCHEDULER s of
        None \<Rightarrow> (Inr [], s)
      | Some sc \<Rightarrow>
          (let its = enumerate 0 (threads sc)
           in (Inr (map (\<lambda>(i, t). (cr3 t, stack t)) (filter (\<lambda>(i, t). i \<noteq> current sc \<and> collectable t) its)),
               s\<lparr>SCHEDULER := Some (sc\<lparr>threads := map (\<lambda>(i, t). reap_thread (current sc) i t) its\<rparr>)\<rparr>)))"

end
