(* ===== verification/Sched_Inv.thy ===== *)
theory Sched_Inv
  imports Threads
begin

text \<open>
  The scheduler's invariant and that every operation keeps it. \<open>W\<close> is a ghost: for a process
  inside \<open>wait4\<close>, the child it waits for. The invariant says among other things that a process
  sleeping in \<open>wait4\<close> has a living child that will wake it and no finished child it missed, that
  every thread's parent is alive or is the kernel, and that thread 0 can always run.
\<close>

section \<open>The invariant\<close>

type_synonym waits = "u32 \<Rightarrow> i64 option"

definition missed_wakeup :: "waits \<Rightarrow> Thread list \<Rightarrow> nat \<Rightarrow> bool" where
  "missed_wakeup W ts i \<longleftrightarrow> state (ts ! i) = Blocked \<and> blocked_on (ts ! i) = BlockChild \<and>
     \<not> (\<exists>w. W (pid (ts ! i)) = Some w \<and>
         (\<exists>j < length ts. is_mine (pid (ts ! i)) w (ts ! j) \<and> is_alive (state (ts ! j))) \<and>
         (\<forall>j < length ts. is_mine (pid (ts ! i)) w (ts ! j) \<longrightarrow> state (ts ! j) \<noteq> Zombie))"

definition parent_ok :: "Thread list \<Rightarrow> Thread \<Rightarrow> bool" where
  "parent_ok ts t \<longleftrightarrow> parent t = 0 \<or> (\<exists>j < length ts. pid (ts ! j) = parent t \<and> is_alive (state (ts ! j)))"

definition kernel_ok :: "Thread list \<Rightarrow> bool" where
  "kernel_ok ts \<longleftrightarrow> ts \<noteq> [] \<and> pid (ts ! 0) = 0 \<and> cr3 (ts ! 0) = None \<and> state (ts ! 0) = Runnable \<and>
     (\<forall>i < length ts. cr3 (ts ! i) = None \<longrightarrow> state (ts ! i) = Runnable \<or> state (ts ! i) = Reaped)"

definition pids_ok :: "u32 \<Rightarrow> Thread list \<Rightarrow> bool" where
  "pids_ok np ts \<longleftrightarrow> (\<forall>i < length ts. pid (ts ! i) < np) \<and>
     (\<forall>i < length ts. \<forall>j < length ts. pid (ts ! i) = pid (ts ! j) \<longrightarrow> i = j)"

definition threads_inv :: "u32 \<Rightarrow> waits \<Rightarrow> Thread list \<Rightarrow> bool" where
  "threads_inv np W ts \<longleftrightarrow> kernel_ok ts \<and> pids_ok np ts \<and> (\<forall>i < length ts. parent_ok ts (ts ! i)) \<and>
     (\<forall>i < length ts. state (ts ! i) = Zombie \<longrightarrow> exit_status (ts ! i) \<noteq> None) \<and>
     (\<forall>i < length ts. \<not> missed_wakeup W ts i)"

definition sched_inv :: "mach \<Rightarrow> waits \<Rightarrow> bool" where
  "sched_inv s W \<longleftrightarrow> (\<exists>sc. SCHEDULER s = Some sc \<and> current sc < length (threads sc) \<and>
     state (current_thread sc) = Runnable \<and> threads_inv (NEXT_PID s) W (threads sc))"

text \<open>The part of a thread the invariant speaks about.\<close>

definition core :: "Thread \<Rightarrow> u32 \<times> u32 \<times> bool \<times> bool \<times> State \<times> BlockReason" where
  "core t = (pid t, parent t, exit_status t = None, cr3 t = None, state t, blocked_on t)"

lemma core_nth:
  assumes "map core ts = map core us" "i < length ts"
  shows "pid (ts ! i) = pid (us ! i)" "parent (ts ! i) = parent (us ! i)" "(exit_status (ts ! i) = None) = (exit_status (us ! i) = None)"
    "(cr3 (ts ! i) = None) = (cr3 (us ! i) = None)" "state (ts ! i) = state (us ! i)" "blocked_on (ts ! i) = blocked_on (us ! i)"
proof -
  have "length ts = length us" using assms(1) by (metis length_map)
  then have "core (ts ! i) = core (us ! i)" using assms by (metis nth_map)
  then show "pid (ts ! i) = pid (us ! i)" "parent (ts ! i) = parent (us ! i)" "(exit_status (ts ! i) = None) = (exit_status (us ! i) = None)"
    "(cr3 (ts ! i) = None) = (cr3 (us ! i) = None)" "state (ts ! i) = state (us ! i)" "blocked_on (ts ! i) = blocked_on (us ! i)"
    by (auto simp: core_def)
qed

lemma threads_inv_cong:
  assumes "map core ts = map core us" "threads_inv np W ts"
  shows "threads_inv np W us"
proof -
  have l: "length us = length ts" using assms(1) by (metis length_map)
  note c = core_nth [OF assms(1)]
  have k: "kernel_ok us"
    using assms(2) c [of 0] c l unfolding threads_inv_def kernel_ok_def by (metis length_greater_0_conv)
  have p: "pids_ok np us" using assms(2) c l unfolding threads_inv_def pids_ok_def by metis
  have par: "\<forall>i < length us. parent_ok us (us ! i)"
    using assms(2) c l unfolding threads_inv_def parent_ok_def by metis
  have z: "\<forall>i < length us. state (us ! i) = Zombie \<longrightarrow> exit_status (us ! i) \<noteq> None"
    using assms(2) c l unfolding threads_inv_def by metis
  have "missed_wakeup W us i = missed_wakeup W ts i" if "i < length us" for i
    using that by (simp add: missed_wakeup_def is_mine_def c l cong: conj_cong)
  then show ?thesis using assms(2) k p par z l unfolding threads_inv_def by simp
qed

lemma core_update:
  assumes "\<And>t. core (f t) = core t"
  shows "map core (ts[i := f (ts ! i)]) = map core ts"
  using assms by (cases "i < length ts") (simp_all add: map_update list_update_same_conv list_update_beyond)

lemma threads_inv_upd:
  "threads_inv np W ts \<Longrightarrow> (\<And>t. core (f t) = core t) \<Longrightarrow> threads_inv np W (ts[i := f (ts ! i)])"
  using threads_inv_cong core_update by metis

section \<open>Switching\<close>

lemma next_runnable_first:
  assumes "next_runnable sc = Some n"
  obtains i where "1 \<le> i" "i < length (threads sc)" "n = (current sc + i) mod length (threads sc)"
    "state (threads sc ! n) = Runnable"
    "\<forall>k. 1 \<le> k \<and> k < i \<longrightarrow> state (threads sc ! ((current sc + k) mod length (threads sc))) \<noteq> Runnable"
proof -
  let ?l = "length (threads sc)"
  from assms obtain i where i: "i < ?l - 1" "n = (current sc + Suc i) mod ?l" "state (threads sc ! n) = Runnable"
    "\<forall>j < i. state (threads sc ! ((current sc + Suc j) mod ?l)) \<noteq> Runnable"
    by (auto simp: next_runnable_def Let_def find_Some_iff)
  show thesis
  proof (rule that [of "Suc i"])
    show "\<forall>k. 1 \<le> k \<and> k < Suc i \<longrightarrow> state (threads sc ! ((current sc + k) mod ?l)) \<noteq> Runnable"
      using i(4) by (metis Suc_le_D Suc_less_eq One_nat_def)
  qed (use i in auto)
qed

lemma next_runnable_Some:
  assumes "next_runnable sc = Some n" "current sc < length (threads sc)"
  shows "n < length (threads sc)" "n \<noteq> current sc" "state (threads sc ! n) = Runnable"
proof -
  let ?l = "length (threads sc)"
  obtain i where i: "1 \<le> i" "i < ?l" "n = (current sc + i) mod ?l" "state (threads sc ! n) = Runnable"
    by (rule next_runnable_first [OF assms(1)])
  show "n < ?l" unfolding i(3) by (rule mod_less_divisor) (use assms(2) in auto)
  show "n \<noteq> current sc" using i(1-3) assms(2) by (cases "current sc + i < ?l") (auto simp: mod_if)
  show "state (threads sc ! n) = Runnable" by (rule i(4))
qed

lemma cyclic_reach:
  fixes j cur len :: nat
  assumes "j < len" "cur < len" "j \<noteq> cur"
  obtains i where "1 \<le> i" "i < len" "(cur + i) mod len = j"
proof (cases "cur < j")
  case True
  with assms show thesis by (intro that [of "j - cur"]) auto
next
  case False
  with assms have "(cur + (len - cur + j)) mod len = j" by (simp add: add.commute)
  with False assms show thesis by (intro that [of "len - cur + j"]) auto
qed

lemma next_runnable_None:
  assumes "next_runnable sc = None" "current sc < length (threads sc)" "j < length (threads sc)" "j \<noteq> current sc"
  shows "state (threads sc ! j) \<noteq> Runnable"
proof -
  obtain i where "1 \<le> i" "i < length (threads sc)" "(current sc + i) mod length (threads sc) = j"
    by (rule cyclic_reach [OF assms(3,2,4)])
  moreover have "state (threads sc ! ((current sc + i) mod length (threads sc))) \<noteq> Runnable"
    if "1 \<le> i" "i < length (threads sc)" for i
    using assms(1) that by (auto simp: next_runnable_def Let_def find_None_iff)
  ultimately show ?thesis by blast
qed

definition ready :: "mach \<Rightarrow> waits \<Rightarrow> Scheduler \<Rightarrow> bool" where
  "ready s W sc \<longleftrightarrow> SCHEDULER s = Some sc \<and> current sc < length (threads sc) \<and> threads_inv (NEXT_PID s) W (threads sc)"

lemma sched_inv_ready: "sched_inv s W \<Longrightarrow> \<exists>sc. ready s W sc \<and> state (current_thread sc) = Runnable"
  by (auto simp: sched_inv_def ready_def)

lemma sched_invI: "ready s W sc \<Longrightarrow> state (current_thread sc) = Runnable \<Longrightarrow> sched_inv s W"
  by (auto simp: sched_inv_def ready_def)

lemma ready_zero:
  assumes "ready s W sc"
  shows "0 < length (threads sc)" "state (threads sc ! 0) = Runnable" "cr3 (threads sc ! 0) = None" "pid (threads sc ! 0) = 0"
  using assms by (auto simp: ready_def threads_inv_def kernel_ok_def)

text \<open>Switching never fails, ends in a runnable thread, and leaves a thread that cannot run.\<close>

lemma switch_to_next_ok:
  assumes "ready s W sc"
  obtains b s' where "switch_to_next s = (Inr b, s')" "sched_inv s' W" "NEXT_PID s' = NEXT_PID s"
    "state (current_thread sc) \<noteq> Runnable \<Longrightarrow> b"
proof (cases "next_runnable sc")
  case None
  have cur: "state (current_thread sc) = Runnable"
  proof (cases "current sc = 0")
    case True
    with ready_zero [OF assms] show ?thesis by (simp add: current_thread_def)
  next
    case False
    with next_runnable_None [OF None, of 0] ready_zero [OF assms] assms show ?thesis by (simp add: ready_def)
  qed
  with None assms have "switch_to_next s = (Inr False, s)" by (simp add: switch_to_next_def ready_def)
  with cur assms show thesis by (intro that) (auto intro: sched_invI)
next
  case (Some n)
  have s: "SCHEDULER s = Some sc" and c: "current sc < length (threads sc)"
    and inv: "threads_inv (NEXT_PID s) W (threads sc)" using assms by (auto simp: ready_def)
  note n = next_runnable_Some [OF Some c]
  obtain r f c' m' where sw: "switch_task (thread_rsp (threads sc ! n)) (case cr3 (threads sc ! n) of None \<Rightarrow> kernel_cr3 sc | Some f \<Rightarrow> f)
      (kernel_stack_top (threads sc ! n)) (fs_base (threads sc ! n)) (fpu (threads sc ! n)) (mcpu s, mmem s) = ((r, f), (c', m'))"
    by (metis prod.collapse)
  let ?g = "\<lambda>t. t\<lparr>thread_rsp := r, fpu := f\<rparr>"
  let ?s = "s\<lparr>SCHEDULER := Some ((upd_thread (current sc) ?g sc)\<lparr>current := n\<rparr>), mcpu := c', mmem := m'\<rparr>"
  have "switch_to_next s = (Inr True, ?s)"
    by (simp add: switch_to_next_def s Some Let_def sw)
  moreover have "threads_inv (NEXT_PID s) W ((threads sc)[current sc := ?g (threads sc ! current sc)])"
    by (rule threads_inv_upd [OF inv]) (simp add: core_def)
  then have "sched_inv ?s W"
    using n by (simp add: sched_inv_def upd_thread_def current_thread_def nth_list_update)
  ultimately show thesis by (intro that [of True ?s]) simp_all
qed

section \<open>Adding threads\<close>

lemma is_mine_fields: "pid t = pid u \<Longrightarrow> parent t = parent u \<Longrightarrow> is_mine p w t = is_mine p w u"
  by (simp add: is_mine_def)

lemma threads_inv_push:
  assumes inv: "threads_inv np W ts" and np: "np < np + 1" and t: "pid t = np" "state t = Runnable" "parent_ok ts t"
  shows "threads_inv (np + 1) W (ts @ [t])"
proof -
  have old: "(ts @ [t]) ! i = ts ! i" if "i < length ts" for i using that by (simp add: nth_append)
  have k: "kernel_ok (ts @ [t])"
    using inv t(2) by (auto simp: threads_inv_def kernel_ok_def nth_append less_Suc_eq)
  have lt: "\<forall>i < length ts. pid (ts ! i) < np" using inv by (simp add: threads_inv_def pids_ok_def)
  have p: "pids_ok (np + 1) (ts @ [t])"
    using inv t(1) np lt by (auto simp: threads_inv_def pids_ok_def nth_append less_Suc_eq)
  have par: "parent_ok (ts @ [t]) u" if "parent_ok ts u" for u
    using that old by (auto simp: parent_ok_def) (metis less_SucI old)
  have "\<not> missed_wakeup W (ts @ [t]) i" if "i < length ts" for i
  proof -
    have "\<not> missed_wakeup W ts i" using inv that by (simp add: threads_inv_def)
    with that old t(2) show ?thesis
      unfolding missed_wakeup_def by (auto simp: less_Suc_eq nth_append)
  qed
  moreover have "\<not> missed_wakeup W (ts @ [t]) (length ts)" using t(2) by (simp add: missed_wakeup_def)
  ultimately show ?thesis
    using k p par t inv by (auto simp: threads_inv_def less_Suc_eq nth_append)
qed

section \<open>Termination\<close>

lemma wake_waiting_parent_map:
  "distinct (map pid ts) \<Longrightarrow> wake_waiting_parent p ts =
     map (\<lambda>t. if pid t = p \<and> state t = Blocked \<and> blocked_on t = BlockChild then t\<lparr>state := Runnable\<rparr> else t) ts"
proof (induction ts)
  case (Cons t ts)
  have "map (\<lambda>t. if pid t = p \<and> state t = Blocked \<and> blocked_on t = BlockChild then t\<lparr>state := Runnable\<rparr> else t) ts = ts"
    if "pid t = p" using Cons.prems that by (intro map_idI) (metis distinct.simps(2) image_eqI list.set_map list.simps(9))
  with Cons show ?case by auto
qed simp

lemma pids_distinct: "pids_ok np ts \<Longrightarrow> distinct (map pid ts)"
  by (auto simp: pids_ok_def distinct_conv_nth)

text \<open>Who inherits: the parent that \<open>terminate\<close> wakes.\<close>

definition heir :: "Thread list \<Rightarrow> nat \<Rightarrow> u32" where
  "heir ts idx = (if parent (ts ! idx) = pid (ts ! idx) then 0 else parent (ts ! idx))"

lemma terminate_nth:
  fixes sc :: Scheduler
  defines "ts \<equiv> threads sc" and "us idx status sig \<equiv> threads (terminate sc idx status sig)"
  assumes "pids_ok np ts" "idx < length ts" "i < length ts"
  shows "length (us idx status sig) = length ts" "pid (us idx status sig ! i) = pid (ts ! i)"
    "cr3 (us idx status sig ! i) = cr3 (ts ! i)" "blocked_on (us idx status sig ! i) = blocked_on (ts ! i)"
    "parent (us idx status sig ! i) = (if parent (ts ! i) = pid (ts ! idx) then 0 else parent (ts ! i))"
    "exit_status (us idx status sig ! i) = (if i = idx then Some status else exit_status (ts ! i))"
    "state (us idx status sig ! i) =
      (if i = idx then Zombie
       else if heir ts idx \<noteq> 0 \<and> pid (ts ! i) = heir ts idx \<and> state (ts ! i) = Blocked \<and> blocked_on (ts ! i) = BlockChild
       then Runnable else state (ts ! i))"
proof -
  let ?z = "ts[idx := (ts ! idx)\<lparr>exit_status := Some status, term_signal := sig, state := Zombie\<rparr>]"
  let ?m = "map (\<lambda>t. if parent t = pid (ts ! idx) then t\<lparr>parent := 0\<rparr> else t) ?z"
  have mp: "map pid ?m = map pid ts"
    using assms(4) by (intro nth_equalityI) (auto simp: nth_list_update)
  have h: "parent (?m ! idx) = heir ts idx" using assms(4) by (simp add: heir_def)
  have u: "us idx status sig = (if heir ts idx \<noteq> 0 then map (\<lambda>t. if pid t = heir ts idx \<and> state t = Blocked \<and>
      blocked_on t = BlockChild then t\<lparr>state := Runnable\<rparr> else t) ?m else ?m)"
    using wake_waiting_parent_map [of ?m] pids_distinct [OF assms(3)] h
    unfolding us_def terminate_def ts_def [symmetric] Let_def mp by simp
  show "length (us idx status sig) = length ts" "pid (us idx status sig ! i) = pid (ts ! i)"
    "cr3 (us idx status sig ! i) = cr3 (ts ! i)" "blocked_on (us idx status sig ! i) = blocked_on (ts ! i)"
    "parent (us idx status sig ! i) = (if parent (ts ! i) = pid (ts ! idx) then 0 else parent (ts ! i))"
    "exit_status (us idx status sig ! i) = (if i = idx then Some status else exit_status (ts ! i))"
    "state (us idx status sig ! i) =
      (if i = idx then Zombie
       else if heir ts idx \<noteq> 0 \<and> pid (ts ! i) = heir ts idx \<and> state (ts ! i) = Blocked \<and> blocked_on (ts ! i) = BlockChild
       then Runnable else state (ts ! i))"
    unfolding u using assms(4,5) by (auto simp: nth_list_update)
qed

lemma terminate_inv:
  assumes inv: "threads_inv np W (threads sc)" and idx: "idx < length (threads sc)" "cr3 (threads sc ! idx) \<noteq> None"
    "is_alive (state (threads sc ! idx))"
  shows "threads_inv np W (threads (terminate sc idx status sig))"
proof -
  let ?ts = "threads sc" and ?us = "threads (terminate sc idx status sig)"
  have pk: "pids_ok np ?ts" using inv by (simp add: threads_inv_def)
  have l: "length ?us = length ?ts" using terminate_nth(1) [OF pk idx(1) idx(1)] .
  note u = terminate_nth(2-) [OF pk idx(1)]
  have uniq: "i = j" if "i < length ?ts" "j < length ?ts" "pid (?ts ! i) = pid (?ts ! j)" for i j
    using pk that by (auto simp: pids_ok_def)
  have i0: "idx \<noteq> 0" "0 < length ?ts" using inv idx unfolding threads_inv_def kernel_ok_def by (metis, simp)
  have k: "kernel_ok ?us"
    using inv i0 l idx(2) by (auto simp: threads_inv_def kernel_ok_def u)
  have p: "pids_ok np ?us" using pk by (auto simp: pids_ok_def u l)
  have nz: "pid (?ts ! idx) \<noteq> 0" using uniq [of idx 0] i0 idx(1) inv by (auto simp: threads_inv_def kernel_ok_def)
  have par: "parent_ok ?us (?us ! i)" if i: "i < length ?ts" for i
  proof (cases "parent (?ts ! i) = pid (?ts ! idx) \<or> parent (?ts ! i) = 0")
    case True
    then show ?thesis using i by (auto simp: parent_ok_def u)
  next
    case False
    then obtain j where j: "j < length ?ts" "pid (?ts ! j) = parent (?ts ! i)" "is_alive (state (?ts ! j))"
      using inv i by (auto simp: threads_inv_def parent_ok_def)
    then have "j \<noteq> idx" using False by auto
    then have "is_alive (state (?us ! j))" using j by (simp add: u)
    then show ?thesis using j i False l by (auto simp: parent_ok_def u)
  qed
  have "\<not> missed_wakeup W ?us i" if i: "i < length ?ts" for i
  proof
    assume "missed_wakeup W ?us i"
    then have b: "state (?us ! i) = Blocked" "blocked_on (?us ! i) = BlockChild" by (auto simp: missed_wakeup_def)
    then have bt: "i \<noteq> idx" "state (?ts ! i) = Blocked" "blocked_on (?ts ! i) = BlockChild"
      and nh: "\<not> (heir ?ts idx \<noteq> 0 \<and> pid (?ts ! i) = heir ?ts idx)"
      using i by (auto simp: u split: if_splits)
    have ni: "pid (?ts ! i) \<noteq> 0" using uniq [of i 0] i i0 inv bt(2) by (auto simp: threads_inv_def kernel_ok_def)
    have np': "parent (?ts ! idx) \<noteq> pid (?ts ! i)"
      using nh ni uniq [of i idx] i idx(1) bt(1) by (auto simp: heir_def split: if_splits)
    have same: "is_mine (pid (?ts ! i)) w (?us ! j) = is_mine (pid (?ts ! i)) w (?ts ! j)" if "j < length ?ts" for w j
      using that ni uniq [of i idx] i idx(1) bt(1) by (auto simp: is_mine_def u)
    have nm: "\<not> is_mine (pid (?ts ! i)) w (?ts ! idx)" for w using np' by (simp add: is_mine_def)
    have st: "is_alive (state (?us ! j)) = is_alive (state (?ts ! j))" "(state (?us ! j) = Zombie) = (state (?ts ! j) = Zombie)"
      if "j < length ?ts" "j \<noteq> idx" for j using that by (auto simp: u)
    from inv i bt obtain w j where w: "W (pid (?ts ! i)) = Some w" "j < length ?ts" "is_mine (pid (?ts ! i)) w (?ts ! j)"
      "is_alive (state (?ts ! j))" "\<forall>j < length ?ts. is_mine (pid (?ts ! i)) w (?ts ! j) \<longrightarrow> state (?ts ! j) \<noteq> Zombie"
      unfolding threads_inv_def missed_wakeup_def by blast
    have "\<exists>j < length ?us. is_mine (pid (?us ! i)) w (?us ! j) \<and> is_alive (state (?us ! j))"
      using w(2,3,4) nm st(1) same l i u(1) by metis
    moreover have "\<forall>j < length ?us. is_mine (pid (?us ! i)) w (?us ! j) \<longrightarrow> state (?us ! j) \<noteq> Zombie"
      using w(5) nm st(2) same l i u(1) by metis
    ultimately show False using \<open>missed_wakeup W ?us i\<close> w(1) i u(1) unfolding missed_wakeup_def by metis
  qed
  moreover have "\<forall>i < length ?us. state (?us ! i) = Zombie \<longrightarrow> exit_status (?us ! i) \<noteq> None"
    using inv l by (auto simp: threads_inv_def u split: if_splits)
  ultimately show ?thesis using k p par l by (simp add: threads_inv_def)
qed

section \<open>Changes of state that keep the living and add no zombie\<close>

definition waiting :: "Thread \<Rightarrow> bool" where
  "waiting t \<longleftrightarrow> state t = Blocked \<and> blocked_on t = BlockChild"

definition milder :: "Thread \<Rightarrow> Thread \<Rightarrow> bool" where
  "milder t u \<longleftrightarrow> pid u = pid t \<and> parent u = parent t \<and> exit_status u = exit_status t \<and>
     (state u = Zombie \<longrightarrow> state t = Zombie) \<and> (is_alive (state t) \<longrightarrow> is_alive (state u)) \<and> (waiting u \<longrightarrow> waiting t) \<and>
     (cr3 u = None \<longrightarrow> state u = Reaped \<or> cr3 t = None \<and> state u = state t) \<and>
     (cr3 t = None \<and> state t = Runnable \<longrightarrow> cr3 u = None \<and> state u = Runnable)"

lemma threads_inv_milder:
  assumes inv: "threads_inv np W ts" and l: "length us = length ts" and m: "\<And>i. i < length ts \<Longrightarrow> milder (ts ! i) (us ! i)"
  shows "threads_inv np W us"
proof -
  have f: "pid (us ! i) = pid (ts ! i)" "parent (us ! i) = parent (ts ! i)" "exit_status (us ! i) = exit_status (ts ! i)"
    "state (us ! i) = Zombie \<Longrightarrow> state (ts ! i) = Zombie" "is_alive (state (ts ! i)) \<Longrightarrow> is_alive (state (us ! i))"
    "waiting (us ! i) \<Longrightarrow> waiting (ts ! i)" if "i < length ts" for i
    using m [OF that] by (auto simp: milder_def)
  have k0: "kernel_ok ts" using inv by (simp add: threads_inv_def)
  have "kernel_ok us"
    unfolding kernel_ok_def
  proof (intro conjI allI impI)
    have 0: "0 < length ts" using k0 by (simp add: kernel_ok_def)
    then show "us \<noteq> []" using l by auto
    show "pid (us ! 0) = 0" "cr3 (us ! 0) = None" "state (us ! 0) = Runnable"
      using k0 m [OF 0] by (auto simp: kernel_ok_def milder_def)
    fix i assume "i < length us" "cr3 (us ! i) = None"
    with k0 m [of i] l show "state (us ! i) = Runnable \<or> state (us ! i) = Reaped"
      by (auto simp: kernel_ok_def milder_def)
  qed
  moreover have "pids_ok np us" using inv f(1) l unfolding threads_inv_def pids_ok_def by metis
  moreover have "parent_ok us (us ! i)" if i: "i < length ts" for i
  proof -
    have "parent_ok ts (ts ! i)" using inv i by (simp add: threads_inv_def)
    then show ?thesis using f(1,2,5) i l unfolding parent_ok_def by metis
  qed
  moreover have "\<not> missed_wakeup W us i" if i: "i < length ts" for i
  proof
    assume mu: "missed_wakeup W us i"
    then have "waiting (ts ! i)" using f(6) [OF i] by (simp add: missed_wakeup_def waiting_def)
    then obtain w where w: "W (pid (ts ! i)) = Some w"
      "\<exists>j < length ts. is_mine (pid (ts ! i)) w (ts ! j) \<and> is_alive (state (ts ! j))"
      "\<forall>j < length ts. is_mine (pid (ts ! i)) w (ts ! j) \<longrightarrow> state (ts ! j) \<noteq> Zombie"
      using inv i unfolding threads_inv_def missed_wakeup_def waiting_def by blast
    have im: "is_mine p w (us ! j) = is_mine p w (ts ! j)" if "j < length ts" for p j
      by (rule is_mine_fields) (use f(1,2) that in simp_all)
    have "\<exists>j < length us. is_mine (pid (us ! i)) w (us ! j) \<and> is_alive (state (us ! j))"
      using w(2) im f(1) [OF i] f(5) l by metis
    moreover have "\<forall>j < length us. is_mine (pid (us ! i)) w (us ! j) \<longrightarrow> state (us ! j) \<noteq> Zombie"
      using w(3) im f(1) [OF i] f(4) l by metis
    ultimately show False using mu w(1) f(1) [OF i] unfolding missed_wakeup_def by metis
  qed
  moreover have "\<forall>i < length us. state (us ! i) = Zombie \<longrightarrow> exit_status (us ! i) \<noteq> None"
    using inv f(3,4) l unfolding threads_inv_def by metis
  ultimately show ?thesis using l by (simp add: threads_inv_def)
qed

lemma milder_refl [simp]: "milder t t"
  by (auto simp: milder_def)

lemma threads_inv_set:
  assumes "threads_inv np W ts" "milder (ts ! i) u"
  shows "threads_inv np W (ts[i := u])"
proof (cases "i < length ts")
  case True
  show ?thesis by (rule threads_inv_milder [OF assms(1)]) (use assms(2) True in \<open>auto simp: nth_list_update\<close>)
qed (use assms in \<open>simp add: list_update_beyond\<close>)

lemma threads_inv_ghost:
  assumes "threads_inv np W ts" "\<And>i. i < length ts \<Longrightarrow> waiting (ts ! i) \<Longrightarrow> V (pid (ts ! i)) = W (pid (ts ! i))"
  shows "threads_inv np V ts"
  using assms unfolding threads_inv_def missed_wakeup_def waiting_def by metis

text \<open>Going to sleep in \<open>wait\<close>: the scan of the children and the change of state are one step.\<close>

lemma threads_inv_sleep:
  assumes inv: "threads_inv np W ts" and i: "i < length ts" "cr3 (ts ! i) \<noteq> None" "state (ts ! i) = Runnable"
    and alive: "\<exists>t \<in> set ts. is_mine (pid (ts ! i)) w t \<and> is_alive (state t)"
    and none: "\<forall>t \<in> set ts. is_mine (pid (ts ! i)) w t \<longrightarrow> state t \<noteq> Zombie"
  shows "threads_inv np (W(pid (ts ! i) := Some w)) (ts[i := (ts ! i)\<lparr>state := Blocked, blocked_on := BlockChild\<rparr>])"
proof -
  let ?V = "W(pid (ts ! i) := Some w)" and ?us = "ts[i := (ts ! i)\<lparr>state := Blocked, blocked_on := BlockChild\<rparr>]"
  have uniq: "j = k" if "j < length ts" "k < length ts" "pid (ts ! j) = pid (ts ! k)" for j k
    using inv that by (auto simp: threads_inv_def pids_ok_def)
  have "pid (ts ! j) \<noteq> pid (ts ! i)" if "j < length ts" "waiting (ts ! j)" for j
    using uniq that i by (metis State.distinct(1) waiting_def)
  then have V: "threads_inv np ?V ts" by (intro threads_inv_ghost [OF inv]) simp
  have us: "pid (?us ! j) = pid (ts ! j)" "parent (?us ! j) = parent (ts ! j)" "exit_status (?us ! j) = exit_status (ts ! j)"
    "cr3 (?us ! j) = cr3 (ts ! j)" "is_alive (state (?us ! j)) = is_alive (state (ts ! j))"
    "(state (?us ! j) = Zombie) = (state (ts ! j) = Zombie)"
    "j \<noteq> i \<Longrightarrow> ?us ! j = ts ! j" "length ?us = length ts" if "j < length ts" for j
    using that i by (auto simp: nth_list_update)
  have im: "is_mine p v (?us ! j) = is_mine p v (ts ! j)" if "j < length ts" for p v j
    by (rule is_mine_fields) (use us(1,2) that in simp_all)
  have i0: "i \<noteq> 0" using V i(2) by (metis threads_inv_def kernel_ok_def)
  have kt: "kernel_ok ts" using V by (simp add: threads_inv_def)
  have "cr3 (?us ! j) = None \<longrightarrow> state (?us ! j) = Runnable \<or> state (?us ! j) = Reaped" if "j < length ts" for j
    using kt us(4,7) [OF that] i(2) that by (metis kernel_ok_def)
  then have "kernel_ok ?us" using kt i0 by (simp add: kernel_ok_def)
  moreover have "pids_ok np ?us" using V us(1) by (auto simp: threads_inv_def pids_ok_def)
  moreover have "parent_ok ?us (?us ! j)" if "j < length ts" for j
    using V that us(1,2,5) unfolding threads_inv_def parent_ok_def by (metis length_list_update)
  moreover have "\<forall>j < length ts. state (?us ! j) = Zombie \<longrightarrow> exit_status (?us ! j) \<noteq> None"
    using V us(3,6) unfolding threads_inv_def by metis
  moreover have "\<not> missed_wakeup ?V ?us j" if j: "j < length ts" for j
  proof (cases "j = i")
    case True
    from alive obtain k where "k < length ts" "is_mine (pid (ts ! i)) w (ts ! k)" "is_alive (state (ts ! k))"
      by (metis in_set_conv_nth)
    then have "\<exists>k < length ?us. is_mine (pid (?us ! j)) w (?us ! k) \<and> is_alive (state (?us ! k))"
      using im us(1,5) True i(1) by auto
    moreover have "\<forall>k < length ?us. is_mine (pid (?us ! j)) w (?us ! k) \<longrightarrow> state (?us ! k) \<noteq> Zombie"
      using none im us(1,6) True i(1) by (metis length_list_update nth_mem)
    ultimately show ?thesis using True i(1) unfolding missed_wakeup_def by auto
  next
    case False
    then have "\<not> missed_wakeup ?V ts j" using V j by (simp add: threads_inv_def)
    moreover have "missed_wakeup ?V ?us j = missed_wakeup ?V ts j"
      unfolding missed_wakeup_def using us(7) [OF j False] by (simp add: im us(5,6) cong: conj_cong)
    ultimately show ?thesis by simp
  qed
  ultimately show ?thesis by (simp add: threads_inv_def)
qed

end
