(* ===== verification/Sched_Correct.thy ===== *)
theory Sched_Correct
  imports Sched_Inv
begin

text \<open>
  Every run of the scheduler: the operations as events, a step relation over them, and what holds
  in every reachable state. Processes make system calls; kernel threads only run, are preempted,
  create threads and collect finished ones.
\<close>

section \<open>Operations keep the invariant\<close>

text \<open>An operation that does not panic and ends in the invariant again.\<close>

definition keeps :: "'a kern \<Rightarrow> mach \<Rightarrow> waits \<Rightarrow> ('a \<Rightarrow> waits) \<Rightarrow> bool" where
  "keeps m s W V \<longleftrightarrow> (\<exists>x s'. m s = (Inr x, s') \<and> sched_inv s' (V x))"

lemma keepsI: "m s = (Inr x, s') \<Longrightarrow> sched_inv s' (V x) \<Longrightarrow> keeps m s W V"
  by (auto simp: keeps_def)

lemma ready_put:
  "ready s W sc \<Longrightarrow> length (threads sc') = length (threads sc) \<Longrightarrow> current sc' = current sc \<Longrightarrow>
   threads_inv (NEXT_PID s) V (threads sc') \<Longrightarrow> ready (s\<lparr>SCHEDULER := Some sc'\<rparr>) V sc'"
  by (simp add: ready_def)

lemma upd_thread_sel [simp]:
  "threads (upd_thread i f sc) = (threads sc)[i := f (threads sc ! i)]" "current (upd_thread i f sc) = current sc"
  by (simp_all add: upd_thread_def)

lemma terminate_current [simp]: "current (terminate sc idx st sg) = current sc"
  by (simp add: terminate_def Let_def)

lemma terminate_length: "threads_inv np W (threads sc) \<Longrightarrow> idx < length (threads sc) \<Longrightarrow>
  length (threads (terminate sc idx st sg)) = length (threads sc)"
  using terminate_nth(1) [of np sc idx idx] by (simp add: threads_inv_def)

lemma ready_expect: "ready s W sc \<Longrightarrow> sched_expect s = (Inr sc, s)"
  by (simp add: ready_def sched_expect_def)

lemma keeps_yield: "sched_inv s W \<Longrightarrow> keeps yield_now s W (\<lambda>_. W)"
proof -
  assume "sched_inv s W"
  then obtain sc where r: "ready s W sc" using sched_inv_ready by blast
  obtain b s' where "switch_to_next s = (Inr b, s')" "sched_inv s' W"
    by (rule switch_to_next_ok [OF r])
  then show ?thesis by (intro keepsI [of _ _ "()" s']) (simp_all add: yield_now_def ret_def)
qed

lemma keeps_tick: "sched_inv s W \<Longrightarrow> keeps on_timer_tick s W (\<lambda>_. W)"
  using keeps_yield [of s W] by (auto simp: on_timer_tick_def keeps_def yield_now_def)

text \<open>Leaving a thread that can no longer run.\<close>

lemma leave_forever_ok:
  assumes "ready s W sc" "state (current_thread sc) \<noteq> Runnable"
  obtains s' where "leave_forever msg s = (Inr Away, s')" "sched_inv s' W"
proof -
  obtain b s' where b: "switch_to_next s = (Inr b, s')" "sched_inv s' W" "b"
    by (rule switch_to_next_ok [OF assms(1)]) (use assms(2) in blast)
  then show thesis by (intro that [of s']) (simp_all add: leave_forever_def ret_def)
qed

lemma keeps_exit:
  assumes "sched_inv s W" "SCHEDULER s = Some sc" "cr3 (current_thread sc) \<noteq> None"
  shows "keeps (exit_current_inner status sig) s W (\<lambda>_. W)"
proof -
  have r: "ready s W sc" and run: "state (current_thread sc) = Runnable"
    using sched_inv_ready [OF assms(1)] assms(2) by (auto simp: ready_def)
  let ?sc = "terminate sc (current sc) status sig"
  have c: "current sc < length (threads sc)" and inv: "threads_inv (NEXT_PID s) W (threads sc)"
    using r by (auto simp: ready_def)
  have inv': "threads_inv (NEXT_PID s) W (threads ?sc)"
    by (rule terminate_inv [OF inv c]) (use assms(3) run in \<open>simp_all add: current_thread_def\<close>)
  then have r': "ready (s\<lparr>SCHEDULER := Some ?sc\<rparr>) W ?sc"
    using r c terminate_length [OF inv c] by (intro ready_put [OF r]) simp_all
  have "state (current_thread ?sc) = Zombie"
    using terminate_nth(7) [of "NEXT_PID s" sc "current sc" "current sc"] inv c
    by (simp add: current_thread_def threads_inv_def)
  then obtain s' where "leave_forever ''exit_current returned to a dead task'' (s\<lparr>SCHEDULER := Some ?sc\<rparr>) = (Inr (Away :: unit reply), s')"
    "sched_inv s' W" by (metis State.distinct(3) leave_forever_ok [OF r'])
  then show ?thesis
    by (intro keepsI) (simp_all add: exit_current_inner_def ready_expect [OF r] sched_put_def)
qed

lemma position_Some: "position P xs = Some i \<Longrightarrow> i < length xs \<and> P (xs ! i)"
  by (induction P xs arbitrary: i rule: position.induct) (auto split: if_splits)

lemma position_None: "position P xs = None \<longleftrightarrow> (\<forall>x \<in> set xs. \<not> P x)"
  by (induction P xs rule: position.induct) auto

lemma keeps_signal:
  assumes "sched_inv s W" "sig \<le> 64"
  shows "keeps (signal target sig) s W (\<lambda>_. W)"
proof -
  obtain sc where r: "ready s W sc" and run: "state (current_thread sc) = Runnable"
    using sched_inv_ready [OF assms(1)] by blast
  have c: "current sc < length (threads sc)" and inv: "threads_inv (NEXT_PID s) W (threads sc)"
    using r by (auto simp: ready_def)
  let ?P = "\<lambda>t. pid t = target \<and> cr3 t \<noteq> None \<and> is_alive (state t)"
  show ?thesis
  proof (cases "position ?P (threads sc)")
    case None
    then show ?thesis using assms(1)
      by (intro keepsI) (simp_all add: signal_def ready_expect [OF r] ret_def)
  next
    case (Some i)
    then have i: "i < length (threads sc)" "cr3 (threads sc ! i) \<noteq> None" "is_alive (state (threads sc ! i))"
      using position_Some [OF Some] by auto
    let ?f = "\<lambda>t. t\<lparr>pending_signals := pending_signals t OR push_bit (unat sig - 1) 1\<rparr>"
    let ?sc = "upd_thread i ?f sc"
    have inv1: "threads_inv (NEXT_PID s) W (threads ?sc)"
      using threads_inv_upd [OF inv, of ?f i] by (simp add: core_def)
    let ?tc = "terminate ?sc i (128 + uint sig) (Some sig)"
    have inv2: "threads_inv (NEXT_PID s) W (threads ?tc)"
      using i by (intro terminate_inv [OF inv1]) simp_all
    have r1: "ready (s\<lparr>SCHEDULER := Some ?sc\<rparr>) W ?sc" by (rule ready_put [OF r]) (use inv1 in simp_all)
    have r2: "ready (s\<lparr>SCHEDULER := Some ?tc\<rparr>) W ?tc"
      by (rule ready_put [OF r]) (use inv2 terminate_length [OF inv1] i in simp_all)
    have st: "state (threads ?tc ! j) = (if j = i then Zombie else state (threads ?tc ! j))" if "j < length (threads sc)" for j
      using terminate_nth(7) [of "NEXT_PID s" ?sc i j] inv1 i that by (simp add: threads_inv_def)
    have run1: "state (current_thread ?sc) = Runnable" using run c by (cases "i = current sc") (simp_all add: current_thread_def)
    have run2: "state (current_thread ?tc) = Runnable" if "i \<noteq> current sc"
      using terminate_nth(7) [of "NEXT_PID s" ?sc i "current sc"] inv1 i c that run1
      by (simp add: threads_inv_def current_thread_def)
    have n64: "(64 < sig) = False" using assms(2) by simp
    have sg: "signal target sig s =
      (if sig = 0 then (Inr (Return Delivered), s)
       else if default_terminates sig then
         (if i = current sc then leave_forever ''signal terminated self but returned'' (s\<lparr>SCHEDULER := Some ?tc\<rparr>)
          else (Inr (Return Delivered), s\<lparr>SCHEDULER := Some ?tc\<rparr>))
       else (Inr (Return Delivered), s\<lparr>SCHEDULER := Some ?sc\<rparr>))"
      by (simp add: n64 signal_def ready_expect [OF r] Some Let_def sched_put_def ret_def fail_def ebind_def del: not_None_eq)
    show ?thesis
    proof (cases "sig \<noteq> 0 \<and> default_terminates sig \<and> i = current sc")
      case True
      then have "state (current_thread ?tc) = Zombie" using st [OF c] by (simp add: current_thread_def)
      then obtain s' where "leave_forever ''signal terminated self but returned'' (s\<lparr>SCHEDULER := Some ?tc\<rparr>) = (Inr (Away :: SignalOutcome reply), s')"
        "sched_inv s' W" by (metis State.distinct(3) leave_forever_ok [OF r2])
      with True sg show ?thesis by (intro keepsI) simp_all
    next
      case False
      then show ?thesis
        using sg assms(1) sched_invI [OF r1 run1] sched_invI [OF r2 run2]
        by (cases "sig = 0"; cases "default_terminates sig") (auto intro!: keepsI)
    qed
  qed
qed

lemma keeps_wait:
  assumes "sched_inv s W" "SCHEDULER s = Some sc" "cr3 (current_thread sc) \<noteq> None"
  shows "keeps (wait_current want) s W
    (\<lambda>r. W(current_pid s := (case r of Return _ \<Rightarrow> None | Away \<Rightarrow> Some want)))"
proof -
  have r: "ready s W sc" and run: "state (current_thread sc) = Runnable"
    using sched_inv_ready [OF assms(1)] assms(2) by (auto simp: ready_def)
  have c: "current sc < length (threads sc)" and inv: "threads_inv (NEXT_PID s) W (threads sc)"
    using r by (auto simp: ready_def)
  let ?p = "pid (current_thread sc)"
  have p: "current_pid s = ?p" by (simp add: current_pid_def assms(2))
  have uniq: "i = current sc" if "i < length (threads sc)" "pid (threads sc ! i) = ?p" for i
    using inv that c by (auto simp: threads_inv_def pids_ok_def current_thread_def)
  have "pid (threads sc ! i) \<noteq> ?p" if "i < length (threads sc)" "waiting (threads sc ! i)" for i
    using uniq that run by (metis State.distinct(1) waiting_def current_thread_def)
  then have ghost: "threads_inv (NEXT_PID s) (W(?p := x)) (threads sc)" for x
    by (intro threads_inv_ghost [OF inv]) simp
  let ?Z = "\<lambda>t. is_mine ?p want t \<and> state t = Zombie"
  show ?thesis
  proof (cases "position ?Z (threads sc)")
    case (Some i)
    then have i: "i < length (threads sc)" "state (threads sc ! i) = Zombie" using position_Some [OF Some] by auto
    let ?sc = "upd_thread i (\<lambda>t. t\<lparr>state := Dead\<rparr>) sc"
    have "i \<noteq> current sc" using i(2) run by (auto simp: current_thread_def)
    then have run': "state (current_thread ?sc) = Runnable" using run c by (simp add: current_thread_def)
    have nk: "cr3 (threads sc ! i) \<noteq> None" using inv i by (auto simp: threads_inv_def kernel_ok_def)
    have "threads_inv (NEXT_PID s) (W(?p := None)) (threads ?sc)"
      using threads_inv_set [OF ghost, of i "(threads sc ! i)\<lparr>state := Dead\<rparr>" None] i nk
      by (simp add: milder_def waiting_def)
    then have "ready (s\<lparr>SCHEDULER := Some ?sc\<rparr>) (W(?p := None)) ?sc" by (intro ready_put [OF r]) simp_all
    from sched_invI [OF this run'] show ?thesis
      by (intro keepsI, simp add: wait_current_def try_collect_or_block_def ready_expect [OF r] Some Let_def
        sched_put_def ret_def ebind_def) (simp add: p)
  next
    case None
    then have none: "\<forall>t \<in> set (threads sc). is_mine ?p want t \<longrightarrow> state t \<noteq> Zombie" by (simp add: position_None)
    let ?A = "\<exists>t \<in> set (threads sc). is_mine ?p want t \<and> is_alive (state t)"
    show ?thesis
    proof (cases ?A)
      case False
      have "sched_inv s (W(?p := None))"
        by (rule sched_invI [OF _ run]) (use r ghost in \<open>simp add: ready_def\<close>)
      then show ?thesis
        by (intro keepsI, simp add: False wait_current_def try_collect_or_block_def ready_expect [OF r] None Let_def
          sched_put_def ret_def ebind_def) (simp add: p)
    next
      case True
      let ?sc = "upd_thread (current sc) (\<lambda>t. t\<lparr>state := Blocked, blocked_on := BlockChild\<rparr>) sc"
      let ?V = "W(?p := Some want)"
      have "threads_inv (NEXT_PID s) ?V (threads ?sc)"
        using threads_inv_sleep [OF inv c, of want] assms(3) run True none by (simp add: current_thread_def)
      then have r': "ready (s\<lparr>SCHEDULER := Some ?sc\<rparr>) ?V ?sc" by (intro ready_put [OF r]) simp_all
      obtain b s' where "switch_to_next (s\<lparr>SCHEDULER := Some ?sc\<rparr>) = (Inr b, s')" "sched_inv s' ?V"
        by (rule switch_to_next_ok [OF r'])
      with True show ?thesis
        by (intro keepsI [where x = Away], simp add: wait_current_def try_collect_or_block_def ready_expect [OF r] None Let_def
          sched_put_def ret_def ebind_def) (simp add: p)
    qed
  qed
qed

lemma keeps_block:
  assumes "sched_inv s W" "SCHEDULER s = Some sc" "cr3 (current_thread sc) \<noteq> None" "why \<noteq> BlockChild"
  obtains s1 s' b where "block_current why s = (Inr (), s1)" "switch_to_next (s1\<lparr>STDIN_BLOCKS := n\<rparr>) = (Inr b, s')" "sched_inv s' W"
proof -
  have r: "ready s W sc" and run: "state (current_thread sc) = Runnable"
    using sched_inv_ready [OF assms(1)] assms(2) by (auto simp: ready_def)
  let ?f = "\<lambda>t. t\<lparr>state := Blocked, blocked_on := why\<rparr>"
  let ?sc = "upd_thread (current sc) ?f sc"
  have "threads_inv (NEXT_PID s) W (threads ?sc)"
    using threads_inv_set [of "NEXT_PID s" W "threads sc" "current sc" "?f (current_thread sc)"] r run assms(3,4)
    by (simp add: ready_def milder_def waiting_def current_thread_def)
  then have "ready (s\<lparr>SCHEDULER := Some ?sc, STDIN_BLOCKS := n\<rparr>) W ?sc" using r by (simp add: ready_def)
  then obtain b s' where "switch_to_next (s\<lparr>SCHEDULER := Some ?sc, STDIN_BLOCKS := n\<rparr>) = (Inr b, s')" "sched_inv s' W"
    by (rule switch_to_next_ok)
  then show thesis
    by (intro that [of "s\<lparr>SCHEDULER := Some ?sc\<rparr>" b s']) (simp_all add: block_current_def ready_expect [OF r] sched_put_def)
qed

lemma keeps_block_stdin:
  assumes "sched_inv s W" "SCHEDULER s = Some sc" "cr3 (current_thread sc) \<noteq> None"
  shows "keeps block_current_on_stdin s W (\<lambda>_. W)"
proof -
  obtain s1 s' b where k: "block_current BlockStdin s = (Inr (), s1)"
    "switch_to_next (s1\<lparr>STDIN_BLOCKS := STDIN_BLOCKS s + 1\<rparr>) = (Inr b, s')" "sched_inv s' W"
    by (rule keeps_block [OF assms, of BlockStdin "STDIN_BLOCKS s + 1"]) (simp, blast)
  have "STDIN_BLOCKS s1 = STDIN_BLOCKS s"
    using k(1) assms(2) by (auto simp: block_current_def sched_expect_def sched_put_def)
  with k show ?thesis by (intro keepsI) (simp_all add: block_current_on_stdin_def ret_def)
qed

lemma keeps_block_pipe:
  assumes "sched_inv s W" "SCHEDULER s = Some sc" "cr3 (current_thread sc) \<noteq> None"
  shows "keeps block_current_on_pipe s W (\<lambda>_. W)"
proof -
  obtain s1 s' b where k: "block_current BlockPipe s = (Inr (), s1)"
    "switch_to_next (s1\<lparr>STDIN_BLOCKS := STDIN_BLOCKS s\<rparr>) = (Inr b, s')" "sched_inv s' W"
    by (rule keeps_block [OF assms, of BlockPipe "STDIN_BLOCKS s"]) (simp, blast)
  have "s1\<lparr>STDIN_BLOCKS := STDIN_BLOCKS s\<rparr> = s1"
    using k(1) assms(2) by (auto simp: block_current_def sched_expect_def sched_put_def)
  with k show ?thesis by (intro keepsI) (simp_all add: block_current_on_pipe_def ret_def)
qed

lemma keeps_wake:
  assumes "sched_inv s W" "why \<noteq> BlockChild"
  shows "keeps (wake_blocked why) s W (\<lambda>_. W)"
proof -
  obtain sc where r: "ready s W sc" and run: "state (current_thread sc) = Runnable"
    using sched_inv_ready [OF assms(1)] by blast
  let ?f = "\<lambda>t. if state t = Blocked \<and> blocked_on t = why then t\<lparr>state := Runnable\<rparr> else t"
  let ?sc = "sc\<lparr>threads := map ?f (threads sc)\<rparr>"
  have inv: "threads_inv (NEXT_PID s) W (threads sc)" using r by (simp add: ready_def)
  have "milder (threads sc ! i) (?f (threads sc ! i))" if "i < length (threads sc)" for i
    using inv that by (auto simp: milder_def waiting_def threads_inv_def kernel_ok_def)
  then have "threads_inv (NEXT_PID s) W (threads ?sc)" by (intro threads_inv_milder [OF inv]) simp_all
  then have r': "ready (s\<lparr>SCHEDULER := Some ?sc\<rparr>) W ?sc" by (intro ready_put [OF r]) simp_all
  have "state (current_thread ?sc) = Runnable" using run r by (simp add: current_thread_def ready_def)
  from sched_invI [OF r' this] r show ?thesis by (intro keepsI) (simp_all add: wake_blocked_def ready_def)
qed

lemma keeps_push:
  assumes "sched_inv s W" "NEXT_PID s < NEXT_PID s + 1" "pid t = NEXT_PID s" "state t = Runnable" "parent t = current_pid s"
  obtains s' where "push_thread t (s\<lparr>NEXT_PID := NEXT_PID s + 1\<rparr>) = (Inr (), s')" "sched_inv s' W"
proof -
  obtain sc where r: "ready s W sc" and run: "state (current_thread sc) = Runnable"
    using sched_inv_ready [OF assms(1)] by blast
  have inv: "threads_inv (NEXT_PID s) W (threads sc)" and c: "current sc < length (threads sc)"
    and s: "SCHEDULER s = Some sc" using r by (auto simp: ready_def)
  have "parent_ok (threads sc) t"
    using assms(5) c run by (auto simp: parent_ok_def current_pid_def s current_thread_def intro!: exI [of _ "current sc"])
  from threads_inv_push [OF inv assms(2-4) this]
  have "threads_inv (NEXT_PID s + 1) W (threads sc @ [t])" .
  then have "sched_inv (s\<lparr>NEXT_PID := NEXT_PID s + 1, SCHEDULER := Some (sc\<lparr>threads := threads sc @ [t]\<rparr>)\<rparr>) W"
    using c run by (simp add: sched_inv_def current_thread_def nth_append)
  then show thesis by (intro that) (simp_all add: push_thread_def sched_expect_def s sched_put_def)
qed

lemma keeps_spawn:
  assumes "sched_inv s W" "NEXT_PID s < NEXT_PID s + 1"
  shows "keeps (spawn tramp base entry) s W (\<lambda>_. W)"
proof -
  obtain sp m where i: "init_thread_stack tramp ((base + STACK_SIZE) AND NOT 0xF) entry (mmem s) = (sp, m)" by (metis prod.collapse)
  let ?s = "s\<lparr>mmem := m\<rparr>"
  have inv: "sched_inv ?s W" "NEXT_PID ?s < NEXT_PID ?s + 1" using assms by (simp_all add: sched_inv_def)
  let ?t = "\<lparr>pid = NEXT_PID s, parent = current_pid ?s, exit_status = None, term_signal = None, pending_signals = 0,
    thread_rsp = sp, stack = Some base, cr3 = None, kernel_stack_top = (base + STACK_SIZE) AND NOT 0xF, fs_base = 0,
    fpu = new_clean, state = Runnable, blocked_on = BlockNone\<rparr> :: Thread"
  obtain s' where "push_thread ?t (?s\<lparr>NEXT_PID := NEXT_PID ?s + 1\<rparr>) = (Inr (), s')" "sched_inv s' W"
    by (rule keeps_push [OF inv, of ?t]) simp_all
  then show ?thesis by (intro keepsI) (simp_all add: spawn_def Let_def i [simplified] ebind_def fetch_pid_def)
qed

lemma keeps_add_user:
  assumes "sched_inv s W" "NEXT_PID s < NEXT_PID s + 1"
  shows "keeps (add_user_task sp root ktop kst fs) s W (\<lambda>_. W)"
proof -
  let ?t = "\<lparr>pid = NEXT_PID s, parent = current_pid s, exit_status = None, term_signal = None, pending_signals = 0,
    thread_rsp = sp, stack = Some kst, cr3 = Some root, kernel_stack_top = ktop, fs_base = fs,
    fpu = fpu_save_current (mcpu s), state = Runnable, blocked_on = BlockNone\<rparr> :: Thread"
  obtain s' where "push_thread ?t (s\<lparr>NEXT_PID := NEXT_PID s + 1\<rparr>) = (Inr (), s')" "sched_inv s' W"
    by (rule keeps_push [OF assms, of ?t]) simp_all
  then show ?thesis by (intro keepsI) (simp_all add: add_user_task_def Let_def ebind_def fetch_pid_def ret_def)
qed

lemma keeps_exec:
  assumes "sched_inv s W" "SCHEDULER s = Some sc" "cr3 (current_thread sc) \<noteq> None"
  shows "keeps (exec_replace_cr3 new) s W (\<lambda>_. W)"
proof -
  have r: "ready s W sc" and run: "state (current_thread sc) = Runnable"
    using sched_inv_ready [OF assms(1)] assms(2) by (auto simp: ready_def)
  obtain old where old: "cr3 (current_thread sc) = Some old" using assms(3) by blast
  let ?f = "\<lambda>t. t\<lparr>cr3 := Some new, fs_base := 0\<rparr>"
  let ?sc = "upd_thread (current sc) ?f sc"
  have "threads_inv (NEXT_PID s) W (threads ?sc)"
    using threads_inv_set [of "NEXT_PID s" W "threads sc" "current sc" "?f (current_thread sc)"] r assms(3)
    by (simp add: ready_def milder_def waiting_def current_thread_def)
  then have r': "ready (s\<lparr>SCHEDULER := Some ?sc\<rparr>) W ?sc" by (intro ready_put [OF r]) simp_all
  have "state (current_thread ?sc) = Runnable" using run r by (simp add: current_thread_def ready_def)
  from sched_invI [OF r' this] show ?thesis
    by (intro keepsI) (simp_all add: exec_replace_cr3_def ready_expect [OF r] old sched_put_def ret_def ebind_def)
qed

lemma keeps_reap:
  assumes "sched_inv s W"
  shows "keeps reap_corpses s W (\<lambda>_. W)"
proof -
  obtain sc where r: "ready s W sc" and run: "state (current_thread sc) = Runnable"
    using sched_inv_ready [OF assms(1)] by blast
  let ?ts = "map (\<lambda>(i, t). reap_thread (current sc) i t) (enumerate 0 (threads sc))"
  let ?sc = "sc\<lparr>threads := ?ts\<rparr>"
  have inv: "threads_inv (NEXT_PID s) W (threads sc)" using r by (simp add: ready_def)
  have "milder (threads sc ! i) (reap_thread (current sc) i (threads sc ! i))" for i
    by (auto simp: milder_def waiting_def reap_thread_def collectable_def)
  then have "threads_inv (NEXT_PID s) W (threads ?sc)"
    by (intro threads_inv_milder [OF inv]) (simp_all add: nth_enumerate_eq)
  then have r': "ready (s\<lparr>SCHEDULER := Some ?sc\<rparr>) W ?sc" by (intro ready_put [OF r]) simp_all
  have "state (current_thread ?sc) = Runnable"
    using run r by (simp add: current_thread_def ready_def nth_enumerate_eq reap_thread_def)
  from sched_invI [OF r' this] r show ?thesis by (intro keepsI) (simp_all add: reap_corpses_def ready_def Let_def)
qed

section \<open>Runs\<close>

datatype event =
    Tick | Yield | SpawnKernel u64 u64 u64 | AddUser u64 u64 u64 u64 u64 | Exec u64 | Exit i32 | Fault u8
  | Kill u32 u8 | Wait i64 | SleepStdin | SleepPipe | WakeStdin | WakePipe | Reap

text \<open>The operation an event is; results other than coming back or not are dropped.\<close>

definition comes_back :: "'a kern \<Rightarrow> unit reply kern" where
  "comes_back m = ebind m (\<lambda>_. ret (Return ()))"

definition or_away :: "'a reply kern \<Rightarrow> unit reply kern" where
  "or_away m = ebind m (\<lambda>r. ret (case r of Return _ \<Rightarrow> Return () | Away \<Rightarrow> Away))"

fun perform :: "event \<Rightarrow> unit reply kern" where
  "perform Tick = comes_back on_timer_tick"
| "perform Yield = comes_back yield_now"
| "perform (SpawnKernel tramp base entry) = comes_back (spawn tramp base entry)"
| "perform (AddUser sp root ktop kst fs) = comes_back (add_user_task sp root ktop kst fs)"
| "perform (Exec new) = comes_back (exec_replace_cr3 new)"
| "perform (Exit status) = exit_current status"
| "perform (Fault sig) = exit_current_killed sig"
| "perform (Kill target sig) = or_away (signal target sig)"
| "perform (Wait want) = or_away (wait_current want)"
| "perform SleepStdin = comes_back block_current_on_stdin"
| "perform SleepPipe = comes_back block_current_on_pipe"
| "perform WakeStdin = comes_back wake_stdin_readers"
| "perform WakePipe = comes_back wake_pipe_waiters"
| "perform Reap = comes_back reap_corpses"

text \<open>
  Which events can happen. System calls come from processes, threads with an address space of
  their own; a process inside \<open>wait4\<close> goes on with that call; the pid counter has not run out;
  \<open>sys_kill\<close> passes signal numbers up to 64.
\<close>

definition in_process :: "mach \<Rightarrow> bool" where
  "in_process s \<longleftrightarrow> (case SCHEDULER s of None \<Rightarrow> False | Some sc \<Rightarrow> cr3 (current_thread sc) \<noteq> None)"

fun permitted :: "event \<Rightarrow> mach \<Rightarrow> waits \<Rightarrow> bool" where
  "permitted Tick s W = True"
| "permitted Yield s W = True"
| "permitted (SpawnKernel _ _ _) s W = (NEXT_PID s < NEXT_PID s + 1)"
| "permitted (AddUser _ _ _ _ _) s W = (NEXT_PID s < NEXT_PID s + 1 \<and> W (current_pid s) = None)"
| "permitted (Exec _) s W = (in_process s \<and> W (current_pid s) = None)"
| "permitted (Exit _) s W = (in_process s \<and> W (current_pid s) = None)"
| "permitted (Fault _) s W = (in_process s \<and> W (current_pid s) = None)"
| "permitted (Kill _ sig) s W = (in_process s \<and> W (current_pid s) = None \<and> sig \<le> 64)"
| "permitted (Wait want) s W = (in_process s \<and> (W (current_pid s) = None \<or> W (current_pid s) = Some want))"
| "permitted SleepStdin s W = (in_process s \<and> W (current_pid s) = None)"
| "permitted SleepPipe s W = (in_process s \<and> W (current_pid s) = None)"
| "permitted WakeStdin s W = True"
| "permitted WakePipe s W = True"
| "permitted Reap s W = (current_pid s = 0)"

fun waits_after :: "event \<Rightarrow> u32 \<Rightarrow> unit reply \<Rightarrow> waits \<Rightarrow> waits" where
  "waits_after (Wait want) p r W = W(p := (case r of Return _ \<Rightarrow> None | Away \<Rightarrow> Some want))"
| "waits_after _ p r W = W"

inductive sched_step :: "mach \<times> waits \<Rightarrow> mach \<times> waits \<Rightarrow> bool" where
  sched_stepI: "permitted e s W \<Longrightarrow> perform e s = (Inr r, s') \<Longrightarrow> sched_step (s, W) (s', waits_after e (current_pid s) r W)"

inductive_cases sched_stepE: "sched_step c c'"

lemma keeps_comes_back: "keeps m s W (\<lambda>_. V) \<Longrightarrow> keeps (comes_back m) s W (\<lambda>_. V)"
  by (auto simp: keeps_def comes_back_def ret_def)

lemma keeps_or_away: "keeps m s W V \<Longrightarrow>
  (\<And>r. U (case r of Return _ \<Rightarrow> Return () | Away \<Rightarrow> Away) = V r) \<Longrightarrow> keeps (or_away m) s W U"
  by (force simp: keeps_def or_away_def ret_def)

lemma keeps_perform:
  assumes inv: "sched_inv s W" and p: "permitted e s W"
  shows "keeps (perform e) s W (\<lambda>r. waits_after e (current_pid s) r W)"
proof -
  obtain sc where sc: "SCHEDULER s = Some sc" using inv by (auto simp: sched_inv_def)
  have u: "in_process s = (cr3 (current_thread sc) \<noteq> None)" by (simp add: in_process_def sc)
  show ?thesis
  proof (cases e)
    case (Wait want)
    with p u show ?thesis by (auto intro!: keeps_or_away [OF keeps_wait [OF inv sc]] split: reply.splits)
  next
    case (Kill t sig)
    with p show ?thesis by (auto intro!: keeps_or_away [OF keeps_signal [OF inv]])
  next
    case (Exit st)
    with p u show ?thesis using keeps_exit [OF inv sc] by (simp add: exit_current_def)
  next
    case (Fault sg)
    with p u show ?thesis using keeps_exit [OF inv sc] by (simp add: exit_current_killed_def)
  next
    case WakeStdin
    then show ?thesis using keeps_wake [OF inv, of BlockStdin] by (auto simp: wake_stdin_readers_def intro: keeps_comes_back)
  next
    case WakePipe
    then show ?thesis using keeps_wake [OF inv, of BlockPipe] by (auto simp: wake_pipe_waiters_def intro: keeps_comes_back)
  qed (use p u in \<open>auto intro!: keeps_comes_back keeps_tick [OF inv] keeps_yield [OF inv] keeps_spawn [OF inv]
      keeps_add_user [OF inv] keeps_exec [OF inv sc] keeps_block_stdin [OF inv sc] keeps_block_pipe [OF inv sc]
      keeps_reap [OF inv]\<close>)
qed

lemma sched_step_inv: "sched_step c c' \<Longrightarrow> sched_inv (fst c) (snd c) \<Longrightarrow> sched_inv (fst c') (snd c')"
proof (induction rule: sched_step.induct)
  case (sched_stepI e s W r s')
  with keeps_perform [of s W e] show ?case by (auto simp: keeps_def)
qed

text \<open>The state after \<open>init\<close>: only thread 0, the pid counter at 1.\<close>

definition booted :: "mach \<Rightarrow> bool" where
  "booted s \<longleftrightarrow> NEXT_PID s = 1 \<and> (\<exists>s0. init_sched s0 = (Inr (), s))"

lemma booted_inv: "booted s \<Longrightarrow> sched_inv s (\<lambda>_. None)"
  by (auto simp: booted_def init_sched_def sched_inv_def threads_inv_def kernel_ok_def pids_ok_def parent_ok_def
    missed_wakeup_def current_thread_def)

lemma reachable_inv:
  assumes "sched_step\<^sup>*\<^sup>* (s0, \<lambda>_. None) (s, W)" "booted s0"
  shows "sched_inv s W"
proof -
  have "sched_inv (fst c) (snd c)" if "sched_step\<^sup>*\<^sup>* (s0, \<lambda>_. None) c" for c
    using that
  proof (induction rule: rtranclp_induct)
    case base
    then show ?case using booted_inv [OF assms(2)] by simp
  next
    case (step c c')
    then show ?case using sched_step_inv by blast
  qed
  from this [OF assms(1)] show ?thesis by simp
qed

section \<open>Round robin\<close>

text \<open>How many places thread \<open>i\<close> is after the current one, of \<open>n\<close> in a circle.\<close>

definition places_after :: "nat \<Rightarrow> nat \<Rightarrow> nat \<Rightarrow> nat" where
  "places_after n i c = (i + n - c) mod n"

lemma places_after_if: "c < n \<Longrightarrow> i < n \<Longrightarrow> places_after n i c = (if c \<le> i then i - c else i + n - c)"
  by (simp add: places_after_def mod_if)

lemma wrap_if: "c < n \<Longrightarrow> k < n \<Longrightarrow> (c + k) mod n = (if c + k < n then c + k else c + k - n)" for c k n :: nat
  by (simp add: mod_if)

lemma places_after_step:
  assumes "c < n" "i < n" "k \<le> places_after n i c"
  shows "places_after n i ((c + k) mod n) = places_after n i c - k"
  using assms by (auto simp: places_after_if wrap_if)

text \<open>One switch brings a runnable thread closer, whoever else is runnable.\<close>

lemma next_runnable_closer:
  assumes c: "current sc < length (threads sc)" and i: "i < length (threads sc)" "state (threads sc ! i) = Runnable" "i \<noteq> current sc"
  obtains n where "next_runnable sc = Some n" "n < length (threads sc)"
    "places_after (length (threads sc)) i n < places_after (length (threads sc)) i (current sc)"
proof -
  let ?l = "length (threads sc)"
  have d: "0 < places_after ?l i (current sc)" "places_after ?l i (current sc) < ?l"
    "(current sc + places_after ?l i (current sc)) mod ?l = i"
    using c i(1,3) by (auto simp: places_after_if wrap_if)
  obtain n where n: "next_runnable sc = Some n"
    using next_runnable_None [OF _ c i(1,3)] i(2) by (cases "next_runnable sc") auto
  obtain k where k: "1 \<le> k" "k < ?l" "n = (current sc + k) mod ?l"
    "\<forall>j. 1 \<le> j \<and> j < k \<longrightarrow> state (threads sc ! ((current sc + j) mod ?l)) \<noteq> Runnable"
    by (rule next_runnable_first [OF n])
  have "k \<le> places_after ?l i (current sc)"
    using k(4) [rule_format, of "places_after ?l i (current sc)"] d i(2) by fastforce
  with places_after_step [OF c i(1) this] k(1,3) d(1) n next_runnable_Some(1) [OF n c]
  show thesis by (intro that [of n]) simp_all
qed

section \<open>A small system\<close>

definition demo_cpu :: cpu where
  "demo_cpu = \<lparr>rsp = 0x1000, rbp = 0, rbx = 0, r12 = 0, r13 = 0, r14 = 0, r15 = 0, rip = 0, reg_cs = 8, reg_ss = 16,
     rflags = 2, fpu_regs = [], msr_fs_base = 0, tss_rsp0 = 0, syscall_stack = 0, active_cr3 = 0x3000\<rparr>"

definition demo_start :: mach where
  "demo_start = snd (init_sched \<lparr>SCHEDULER = None, NEXT_PID = 1, PREEMPTION_ENABLED = True, STDIN_BLOCKS = 0,
     mcpu = demo_cpu, mmem = \<lambda>_. 0\<rparr>)"

definition demo_add :: event where
  "demo_add = AddUser 0x8000 0x5000 0x9000 0x7000 0"

definition demo_fork :: event where
  "demo_fork = AddUser 0xA000 0x6000 0xB000 0x7800 0"

text \<open>A process that has forked a child and is running.\<close>

definition demo_two :: mach where
  "demo_two = snd (perform demo_fork (snd (perform Yield (snd (perform demo_add demo_start)))))"

lemma demo_booted: "booted demo_start"
  unfolding booted_def
proof (intro conjI exI)
  show "NEXT_PID demo_start = 1" by (simp add: demo_start_def init_sched_def)
  show "init_sched \<lparr>SCHEDULER = None, NEXT_PID = 1, PREEMPTION_ENABLED = True, STDIN_BLOCKS = 0,
     mcpu = demo_cpu, mmem = \<lambda>_. 0\<rparr> = (Inr (), demo_start)"
    by (simp add: demo_start_def init_sched_def)
qed

lemma demo_stepI: "permitted e s W \<Longrightarrow> \<forall>w. e \<noteq> Wait w \<Longrightarrow> (case fst (perform e s) of Inl _ \<Rightarrow> False | Inr _ \<Rightarrow> True) \<Longrightarrow>
  sched_step\<^sup>*\<^sup>* c (s, W) \<Longrightarrow> sched_step\<^sup>*\<^sup>* c (snd (perform e s), W)"
proof -
  assume p: "permitted e s W" and e: "\<forall>w. e \<noteq> Wait w" and r: "(case fst (perform e s) of Inl _ \<Rightarrow> False | Inr _ \<Rightarrow> True)"
    and c: "sched_step\<^sup>*\<^sup>* c (s, W)"
  obtain x where "perform e s = (Inr x, snd (perform e s))" using r by (cases "perform e s") (auto split: sum.splits)
  from sched_stepI [OF p this] have "sched_step (s, W) (snd (perform e s), W)" using e by (cases e) auto
  with c show ?thesis by simp
qed

lemma demo_reach: "sched_step\<^sup>*\<^sup>* (demo_start, \<lambda>_. None) (demo_two, \<lambda>_. None)"
  unfolding demo_two_def
proof (intro demo_stepI)
  show "permitted demo_add demo_start (\<lambda>_. None)" by code_simp
  show "case fst (perform demo_add demo_start) of Inl _ \<Rightarrow> False | Inr _ \<Rightarrow> True" by code_simp
  show "permitted demo_fork (snd (perform Yield (snd (perform demo_add demo_start)))) (\<lambda>_. None)" by code_simp
  show "case fst (perform demo_fork (snd (perform Yield (snd (perform demo_add demo_start))))) of Inl _ \<Rightarrow> False | Inr _ \<Rightarrow> True"
    by code_simp
  show "case fst (perform Yield (snd (perform demo_add demo_start))) of Inl _ \<Rightarrow> False | Inr _ \<Rightarrow> True" by code_simp
qed (simp_all add: demo_add_def demo_fork_def)

section \<open>Properties\<close>

text \<open>
  C9: The scheduler never panics. In every state reachable from boot, every operation a process
  or the kernel can start -- exit, signals to others and to oneself, \<open>wait\<close>, blocking on input or on
  a pipe, preemption, new threads, collection -- runs to its end: there is always a runnable
  thread to switch to, and a finished thread is never switched to again.
\<close>

theorem scheduler_never_panics:
  assumes "booted s0" "sched_step\<^sup>*\<^sup>* (s0, \<lambda>_. None) (s, W)" "permitted e s W"
  shows "\<exists>r s'. perform e s = (Inr r, s') \<and>
    (\<exists>sc. SCHEDULER s' = Some sc \<and> current sc < length (threads sc) \<and> state (current_thread sc) = Runnable)"
  using keeps_perform [OF reachable_inv [OF assms(2,1)] assms(3)] by (auto simp: keeps_def sched_inv_def)

theorem scheduler_never_panics_witness:
  "\<exists>r s'. perform (Exit 7) demo_two = (Inr r, s') \<and>
    (\<exists>sc. SCHEDULER s' = Some sc \<and> current sc < length (threads sc) \<and> state (current_thread sc) = Runnable)"
proof -
  have "permitted (Exit 7) demo_two (\<lambda>_. None)" by code_simp
  from scheduler_never_panics [OF demo_booted demo_reach this] show ?thesis .
qed

text \<open>
  C8: No wake-up is lost. In every reachable state, a process asleep in \<open>wait4\<close> waits for
  something that can still happen: among the children it waits for one is alive, and none has
  already finished unnoticed.
\<close>

theorem no_lost_wakeup:
  assumes "booted s0" "sched_step\<^sup>*\<^sup>* (s0, \<lambda>_. None) (s, W)" "SCHEDULER s = Some sc" "t \<in> set (threads sc)"
    "state t = Blocked" "blocked_on t = BlockChild"
  shows "\<exists>want. W (pid t) = Some want \<and>
    (\<exists>c \<in> set (threads sc). is_mine (pid t) want c \<and> is_alive (state c)) \<and>
    (\<forall>c \<in> set (threads sc). is_mine (pid t) want c \<longrightarrow> state c \<noteq> Zombie)"
proof -
  obtain i where i: "i < length (threads sc)" "threads sc ! i = t" using assms(4) by (metis in_set_conv_nth)
  have "threads_inv (NEXT_PID s) W (threads sc)" using reachable_inv [OF assms(2,1)] assms(3) by (auto simp: sched_inv_def)
  then have "\<not> missed_wakeup W (threads sc) i" using i by (simp add: threads_inv_def)
  then obtain w where "W (pid t) = Some w"
    "\<exists>j < length (threads sc). is_mine (pid t) w (threads sc ! j) \<and> is_alive (state (threads sc ! j))"
    "\<forall>j < length (threads sc). is_mine (pid t) w (threads sc ! j) \<longrightarrow> state (threads sc ! j) \<noteq> Zombie"
    using assms(5,6) i(2) unfolding missed_wakeup_def by blast
  then show ?thesis by (metis in_set_conv_nth)
qed

definition demo_wait :: mach where
  "demo_wait = snd (perform (Wait (-1)) demo_two)"

theorem no_lost_wakeup_witness:
  "\<exists>W sc. SCHEDULER demo_wait = Some sc \<and> state (threads sc ! 1) = Blocked \<and>
     (\<exists>want. W (pid (threads sc ! 1)) = Some want \<and>
       (\<exists>c \<in> set (threads sc). is_mine (pid (threads sc ! 1)) want c \<and> is_alive (state c)))"
proof -
  have p: "permitted (Wait (-1)) demo_two (\<lambda>_. None)" by code_simp
  have "fst (perform (Wait (-1)) demo_two) = Inr Away" by code_simp
  then have "perform (Wait (-1)) demo_two = (Inr Away, demo_wait)" by (simp add: demo_wait_def prod_eq_iff)
  from sched_stepI [OF p this] demo_reach
  obtain W where r: "sched_step\<^sup>*\<^sup>* (demo_start, \<lambda>_. None) (demo_wait, W)" by (meson rtranclp.rtrancl_into_rtrancl)
  have c: "case SCHEDULER demo_wait of None \<Rightarrow> False | Some sc \<Rightarrow>
      length (threads sc) = 3 \<and> state (threads sc ! 1) = Blocked \<and> blocked_on (threads sc ! 1) = BlockChild" by code_simp
  then obtain sc where sc: "SCHEDULER demo_wait = Some sc" "threads sc ! 1 \<in> set (threads sc)"
    "state (threads sc ! 1) = Blocked" "blocked_on (threads sc ! 1) = BlockChild"
    by (auto split: option.splits)
  from no_lost_wakeup [OF demo_booted r sc] sc show ?thesis by blast
qed

text \<open>
  C12: No finished process is forgotten. In every reachable state, every zombie keeps its exit
  status, and either a living parent can still collect it with \<open>wait\<close>, or it belongs to the kernel
  and the next \<open>reap\<close> releases it.
\<close>

theorem zombie_has_collector:
  assumes "booted s0" "sched_step\<^sup>*\<^sup>* (s0, \<lambda>_. None) (s, W)" "SCHEDULER s = Some sc" "t \<in> set (threads sc)" "state t = Zombie"
  shows "exit_status t \<noteq> None \<and> (collectable t \<or> (\<exists>p \<in> set (threads sc). pid p = parent t \<and> is_alive (state p)))"
proof -
  obtain i where i: "i < length (threads sc)" "threads sc ! i = t" using assms(4) by (metis in_set_conv_nth)
  have inv: "threads_inv (NEXT_PID s) W (threads sc)" using reachable_inv [OF assms(2,1)] assms(3) by (auto simp: sched_inv_def)
  then have "parent_ok (threads sc) t" "exit_status t \<noteq> None" using i assms(5) by (auto simp: threads_inv_def)
  then show ?thesis using assms(5) by (auto simp: parent_ok_def collectable_def)
qed

text \<open>The child of the demo exits: it is a zombie, its parent is alive.\<close>

definition demo_child_gone :: mach where
  "demo_child_gone = snd (perform (Exit 7) (snd (perform Yield demo_two)))"

theorem zombie_has_collector_witness:
  "\<exists>sc. SCHEDULER demo_child_gone = Some sc \<and> state (threads sc ! 2) = Zombie \<and>
     (\<exists>p \<in> set (threads sc). pid p = parent (threads sc ! 2) \<and> is_alive (state p))"
proof -
  have r: "sched_step\<^sup>*\<^sup>* (demo_start, \<lambda>_. None) (demo_child_gone, \<lambda>_. None)"
    unfolding demo_child_gone_def
  proof (intro demo_stepI demo_reach)
    show "permitted (Exit 7) (snd (perform Yield demo_two)) (\<lambda>_. None)" by code_simp
    show "case fst (perform (Exit 7) (snd (perform Yield demo_two))) of Inl _ \<Rightarrow> False | Inr _ \<Rightarrow> True" by code_simp
    show "case fst (perform Yield demo_two) of Inl _ \<Rightarrow> False | Inr _ \<Rightarrow> True" by code_simp
  qed simp_all
  have "case SCHEDULER demo_child_gone of None \<Rightarrow> False | Some sc \<Rightarrow>
      length (threads sc) = 3 \<and> state (threads sc ! 2) = Zombie \<and> parent (threads sc ! 2) = 1" by code_simp
  then obtain sc where sc: "SCHEDULER demo_child_gone = Some sc" "threads sc ! 2 \<in> set (threads sc)"
    "state (threads sc ! 2) = Zombie" "parent (threads sc ! 2) = 1"
    by (auto split: option.splits)
  from zombie_has_collector [OF demo_booted r sc(1-3)] sc show ?thesis by (auto simp: collectable_def)
qed



lemma map_filter_split:
  "set (List.map_filter f (filter P xs)) \<union> set (List.map_filter f (filter (\<lambda>x. \<not> P x) xs)) = set (List.map_filter f xs)"
  "distinct (List.map_filter f xs) \<Longrightarrow> distinct (List.map_filter f (filter P xs)) \<and>
     set (List.map_filter f (filter P xs)) \<inter> set (List.map_filter f (filter (\<lambda>x. \<not> P x) xs)) = {}"
proof (induction xs)
  case (Cons x xs)
  {
    case 1
    then show ?case using Cons(1) by (cases "f x") (auto simp: List.map_filter_simps)
  next
    case 2
    then show ?case using Cons by (cases "f x") (auto simp: List.map_filter_simps)
  }
qed (simp_all add: List.map_filter_simps)

lemma reaped_roots:
  "List.map_filter cr3 (map (\<lambda>(i, t). reap_thread cur i t) its) =
   List.map_filter (\<lambda>(i, t). cr3 t) (filter (\<lambda>it. \<not> (case it of (i, t) \<Rightarrow> i \<noteq> cur \<and> collectable t)) its)"
  "List.map_filter fst (map (\<lambda>(i, t). (cr3 t, stack t)) its) = List.map_filter (\<lambda>(i, t). cr3 t) its"
  "List.map_filter (\<lambda>(i, t). cr3 t) its = List.map_filter cr3 (map snd its)"
  by (induction its) (auto simp: List.map_filter_simps reap_thread_def split: option.splits if_splits)


definition demo_collected :: mach where
  "demo_collected = snd (perform (Wait (-1)) (snd (perform Yield demo_child_gone)))"


end
