(* ===== verification/Abi.thy ===== *)
theory Abi
  imports Ferros_Prelude
begin

text \<open>
  The constants of the system call interface, \<open>src/syscall/abi.rs\<close>, and the address space layout
  constants of \<open>src/arch/x86_64/mod.rs\<close>.
\<close>

section \<open>System call numbers\<close>

abbreviation (input) SYS_READ :: u64 where "SYS_READ \<equiv> 0"
abbreviation (input) SYS_WRITE :: u64 where "SYS_WRITE \<equiv> 1"
abbreviation (input) SYS_OPEN :: u64 where "SYS_OPEN \<equiv> 2"
abbreviation (input) SYS_CLOSE :: u64 where "SYS_CLOSE \<equiv> 3"
abbreviation (input) SYS_STAT :: u64 where "SYS_STAT \<equiv> 4"
abbreviation (input) SYS_FSTAT :: u64 where "SYS_FSTAT \<equiv> 5"
abbreviation (input) SYS_LSTAT :: u64 where "SYS_LSTAT \<equiv> 6"
abbreviation (input) SYS_LSEEK :: u64 where "SYS_LSEEK \<equiv> 8"
abbreviation (input) SYS_BRK :: u64 where "SYS_BRK \<equiv> 12"
abbreviation (input) SYS_READV :: u64 where "SYS_READV \<equiv> 19"
abbreviation (input) SYS_WRITEV :: u64 where "SYS_WRITEV \<equiv> 20"
abbreviation (input) SYS_PIPE :: u64 where "SYS_PIPE \<equiv> 22"
abbreviation (input) SYS_DUP2 :: u64 where "SYS_DUP2 \<equiv> 33"
abbreviation (input) SYS_GETPID :: u64 where "SYS_GETPID \<equiv> 39"
abbreviation (input) SYS_SOCKET :: u64 where "SYS_SOCKET \<equiv> 41"
abbreviation (input) SYS_CONNECT :: u64 where "SYS_CONNECT \<equiv> 42"
abbreviation (input) SYS_SENDTO :: u64 where "SYS_SENDTO \<equiv> 44"
abbreviation (input) SYS_RECVFROM :: u64 where "SYS_RECVFROM \<equiv> 45"
abbreviation (input) SYS_BIND :: u64 where "SYS_BIND \<equiv> 49"
abbreviation (input) SYS_FORK :: u64 where "SYS_FORK \<equiv> 57"
abbreviation (input) SYS_EXECVE :: u64 where "SYS_EXECVE \<equiv> 59"
abbreviation (input) SYS_EXIT :: u64 where "SYS_EXIT \<equiv> 60"
abbreviation (input) SYS_WAIT4 :: u64 where "SYS_WAIT4 \<equiv> 61"
abbreviation (input) SYS_KILL :: u64 where "SYS_KILL \<equiv> 62"
abbreviation (input) SYS_UNAME :: u64 where "SYS_UNAME \<equiv> 63"
abbreviation (input) SYS_FCNTL :: u64 where "SYS_FCNTL \<equiv> 72"
abbreviation (input) SYS_GETCWD :: u64 where "SYS_GETCWD \<equiv> 79"
abbreviation (input) SYS_CHDIR :: u64 where "SYS_CHDIR \<equiv> 80"
abbreviation (input) SYS_MKDIR :: u64 where "SYS_MKDIR \<equiv> 83"
abbreviation (input) SYS_RMDIR :: u64 where "SYS_RMDIR \<equiv> 84"
abbreviation (input) SYS_UNLINK :: u64 where "SYS_UNLINK \<equiv> 87"
abbreviation (input) SYS_GETTIMEOFDAY :: u64 where "SYS_GETTIMEOFDAY \<equiv> 96"
abbreviation (input) SYS_GETUID :: u64 where "SYS_GETUID \<equiv> 102"
abbreviation (input) SYS_GETGID :: u64 where "SYS_GETGID \<equiv> 104"
abbreviation (input) SYS_GETEUID :: u64 where "SYS_GETEUID \<equiv> 107"
abbreviation (input) SYS_GETEGID :: u64 where "SYS_GETEGID \<equiv> 108"
abbreviation (input) SYS_GETPPID :: u64 where "SYS_GETPPID \<equiv> 110"
abbreviation (input) SYS_ARCH_PRCTL :: u64 where "SYS_ARCH_PRCTL \<equiv> 158"
abbreviation (input) SYS_TIME :: u64 where "SYS_TIME \<equiv> 201"
abbreviation (input) SYS_GETDENTS64 :: u64 where "SYS_GETDENTS64 \<equiv> 217"
abbreviation (input) SYS_CLOCK_GETTIME :: u64 where "SYS_CLOCK_GETTIME \<equiv> 228"
abbreviation (input) SYS_EXIT_GROUP :: u64 where "SYS_EXIT_GROUP \<equiv> 231"

section \<open>Commands, flags and limits\<close>

abbreviation (input) F_DUPFD :: u64 where "F_DUPFD \<equiv> 0"
abbreviation (input) F_GETFD :: u64 where "F_GETFD \<equiv> 1"
abbreviation (input) F_SETFD :: u64 where "F_SETFD \<equiv> 2"
abbreviation (input) F_GETFL :: u64 where "F_GETFL \<equiv> 3"
abbreviation (input) F_SETFL :: u64 where "F_SETFL \<equiv> 4"
abbreviation (input) IOV_MAX :: u64 where "IOV_MAX \<equiv> 1024"
abbreviation (input) CLOCK_REALTIME :: u64 where "CLOCK_REALTIME \<equiv> 0"
abbreviation (input) CLOCK_MONOTONIC :: u64 where "CLOCK_MONOTONIC \<equiv> 1"
abbreviation (input) S_IFREG :: u32 where "S_IFREG \<equiv> 0x8000"
abbreviation (input) S_IFDIR :: u32 where "S_IFDIR \<equiv> 0x4000"
abbreviation (input) S_IFCHR :: u32 where "S_IFCHR \<equiv> 0x2000"
abbreviation (input) S_IFIFO :: u32 where "S_IFIFO \<equiv> 0x1000"
abbreviation (input) S_IFSOCK :: u32 where "S_IFSOCK \<equiv> 0xC000"
abbreviation (input) ARCH_SET_FS :: u64 where "ARCH_SET_FS \<equiv> 0x1002"
abbreviation (input) ARCH_GET_FS :: u64 where "ARCH_GET_FS \<equiv> 0x1003"
abbreviation (input) O_ACCMODE :: u64 where "O_ACCMODE \<equiv> 3"
abbreviation (input) O_RDONLY :: u64 where "O_RDONLY \<equiv> 0"
abbreviation (input) O_WRONLY :: u64 where "O_WRONLY \<equiv> 1"
abbreviation (input) O_RDWR :: u64 where "O_RDWR \<equiv> 2"
abbreviation (input) O_CREAT :: u64 where "O_CREAT \<equiv> 0x40"
abbreviation (input) O_TRUNC :: u64 where "O_TRUNC \<equiv> 0x200"
abbreviation (input) O_APPEND :: u64 where "O_APPEND \<equiv> 0x400"
abbreviation (input) AF_INET :: u64 where "AF_INET \<equiv> 2"
abbreviation (input) SOCK_STREAM :: u64 where "SOCK_STREAM \<equiv> 1"
abbreviation (input) SOCK_DGRAM :: u64 where "SOCK_DGRAM \<equiv> 2"
abbreviation (input) SOCKADDR_IN_LEN :: nat where "SOCKADDR_IN_LEN \<equiv> 16"
abbreviation (input) SIG_MAX :: u64 where "SIG_MAX \<equiv> 64"

section \<open>Error numbers\<close>

abbreviation (input) ENOENT :: i64 where "ENOENT \<equiv> 2"
abbreviation (input) ESRCH :: i64 where "ESRCH \<equiv> 3"
abbreviation (input) EIO :: i64 where "EIO \<equiv> 5"
abbreviation (input) E2BIG :: i64 where "E2BIG \<equiv> 7"
abbreviation (input) ENOEXEC :: i64 where "ENOEXEC \<equiv> 8"
abbreviation (input) EBADF :: i64 where "EBADF \<equiv> 9"
abbreviation (input) ECHILD :: i64 where "ECHILD \<equiv> 10"
abbreviation (input) EAGAIN :: i64 where "EAGAIN \<equiv> 11"
abbreviation (input) ENOMEM :: i64 where "ENOMEM \<equiv> 12"
abbreviation (input) EFAULT :: i64 where "EFAULT \<equiv> 14"
abbreviation (input) EEXIST :: i64 where "EEXIST \<equiv> 17"
abbreviation (input) ENOTDIR :: i64 where "ENOTDIR \<equiv> 20"
abbreviation (input) EISDIR :: i64 where "EISDIR \<equiv> 21"
abbreviation (input) EINVAL :: i64 where "EINVAL \<equiv> 22"
abbreviation (input) EMFILE :: i64 where "EMFILE \<equiv> 24"
abbreviation (input) ENOSPC :: i64 where "ENOSPC \<equiv> 28"
abbreviation (input) ESPIPE :: i64 where "ESPIPE \<equiv> 29"
abbreviation (input) EPIPE :: i64 where "EPIPE \<equiv> 32"
abbreviation (input) ERANGE :: i64 where "ERANGE \<equiv> 34"
abbreviation (input) ENOSYS :: i64 where "ENOSYS \<equiv> 38"
abbreviation (input) ENOTEMPTY :: i64 where "ENOTEMPTY \<equiv> 39"
abbreviation (input) ENOTSOCK :: i64 where "ENOTSOCK \<equiv> 88"
abbreviation (input) EMSGSIZE :: i64 where "EMSGSIZE \<equiv> 90"
abbreviation (input) EPROTONOSUPPORT :: i64 where "EPROTONOSUPPORT \<equiv> 93"
abbreviation (input) EOPNOTSUPP :: i64 where "EOPNOTSUPP \<equiv> 95"
abbreviation (input) EAFNOSUPPORT :: i64 where "EAFNOSUPPORT \<equiv> 97"
abbreviation (input) ENETDOWN :: i64 where "ENETDOWN \<equiv> 100"
abbreviation (input) ENOTCONN :: i64 where "ENOTCONN \<equiv> 107"
abbreviation (input) ETIMEDOUT :: i64 where "ETIMEDOUT \<equiv> 110"
abbreviation (input) ECONNREFUSED :: i64 where "ECONNREFUSED \<equiv> 111"

section \<open>User address space\<close>

abbreviation (input) USER_SPACE_END :: u64 where "USER_SPACE_END \<equiv> 0x800000000000"
abbreviation (input) USER_HEAP_BASE :: u64 where "USER_HEAP_BASE \<equiv> 0x7F8020000000"
abbreviation (input) USER_HEAP_MAX :: u64 where "USER_HEAP_MAX \<equiv> 0x7F8060000000"

end
