(* ===== verification/Paging.thy ===== *)
theory Paging
  imports Frame Abi
begin

text \<open>
  User pages, \<open>src/mm/paging.rs\<close>. Physical memory is the memory of the frame allocator. The walk,
  the insertion and the removal of page table entries are done by the \<open>x86_64\<close> crate
  (\<open>translate\<close>, \<open>map_to\<close>, \<open>unmap\<close> of \<open>OffsetPageTable\<close>): they are the parameter \<open>mapper\<close>. An
  access to a virtual address reaches the physical address the active table translates it to.
\<close>

section \<open>The page table crate\<close>

text \<open>
  \<open>translate m root va\<close> is the frame and the flags of the page of \<open>va\<close>, if it is mapped, and
  \<open>translate_page\<close> the frame of a 4 KiB page; \<open>map_to root page frame flags\<close> may take frames for tables
  from the allocator.
\<close>

record mapper =
  translate :: "pmem \<Rightarrow> u64 \<Rightarrow> u64 \<Rightarrow> (u64 \<times> u64) option"
  translate_page :: "pmem \<Rightarrow> u64 \<Rightarrow> u64 \<Rightarrow> u64 option"
  map_to :: "u64 \<Rightarrow> u64 \<Rightarrow> u64 \<Rightarrow> u64 \<Rightarrow> frames \<Rightarrow> (string + unit) \<times> frames"
  unmap :: "u64 \<Rightarrow> u64 \<Rightarrow> pmem \<Rightarrow> u64 option \<times> pmem"

abbreviation (input) "PRESENT \<equiv> 1 :: u64"
abbreviation (input) "WRITABLE \<equiv> 2 :: u64"
abbreviation (input) "USER_ACCESSIBLE \<equiv> 4 :: u64"

definition contains_flag :: "u64 \<Rightarrow> u64 \<Rightarrow> bool" where
  "contains_flag flags f \<longleftrightarrow> flags AND f = f"

definition USER_RW :: u64 where
  "USER_RW = PRESENT OR WRITABLE OR USER_ACCESSIBLE"

text \<open>\<open>addr & !0xFFF\<close>.\<close>

definition page_of :: "u64 \<Rightarrow> u64" where
  "page_of a = a AND NOT 0xFFF"

section \<open>Bytes of physical memory\<close>

definition phys_byte :: "pmem \<Rightarrow> u64 \<Rightarrow> u8" where
  "phys_byte m pa = ucast (drop_bit (8 * unat (pa AND 7)) (m (pa AND NOT 7)))"

definition set_phys_byte :: "u64 \<Rightarrow> u8 \<Rightarrow> pmem \<Rightarrow> pmem" where
  "set_phys_byte pa b m =
     (let w = pa AND NOT 7; k = 8 * unat (pa AND 7)
      in m(w := (m w AND NOT (push_bit k 0xFF)) OR push_bit k (ucast b)))"

text \<open>What the processor accesses at a virtual address of the address space \<open>root\<close>.\<close>

definition phys_of :: "mapper \<Rightarrow> pmem \<Rightarrow> u64 \<Rightarrow> u64 \<Rightarrow> u64 option" where
  "phys_of mp m root va = map_option (\<lambda>(f, _). f + (va AND 0xFFF)) (translate mp m root (page_of va))"

definition load_byte :: "mapper \<Rightarrow> pmem \<Rightarrow> u64 \<Rightarrow> u64 \<Rightarrow> u8" where
  "load_byte mp m root va = (case phys_of mp m root va of None \<Rightarrow> 0 | Some pa \<Rightarrow> phys_byte m pa)"

definition store_byte :: "mapper \<Rightarrow> u64 \<Rightarrow> u64 \<Rightarrow> u8 \<Rightarrow> pmem \<Rightarrow> pmem" where
  "store_byte mp root va b m = (case phys_of mp m root va of None \<Rightarrow> m | Some pa \<Rightarrow> set_phys_byte pa b m)"

fun store_bytes :: "mapper \<Rightarrow> u64 \<Rightarrow> u64 \<Rightarrow> u8 list \<Rightarrow> pmem \<Rightarrow> pmem" where
  "store_bytes mp root va [] m = m"
| "store_bytes mp root va (b # bs) m = store_bytes mp root (va + 1) bs (store_byte mp root va b m)"

definition load_bytes :: "mapper \<Rightarrow> pmem \<Rightarrow> u64 \<Rightarrow> u64 \<Rightarrow> nat \<Rightarrow> u8 list" where
  "load_bytes mp m root va n = map (\<lambda>i. load_byte mp m root (va + of_nat i)) [0..<n]"

section \<open>Access checks\<close>

definition page_allows :: "mapper \<Rightarrow> pmem \<Rightarrow> u64 \<Rightarrow> bool \<Rightarrow> u64 \<Rightarrow> bool" where
  "page_allows mp m root need_write addr =
     (case translate mp m root addr of
        Some (_, flags) \<Rightarrow>
          contains_flag flags USER_ACCESSIBLE \<and> (need_write \<longrightarrow> contains_flag flags WRITABLE)
      | None \<Rightarrow> False)"

function check_pages :: "mapper \<Rightarrow> pmem \<Rightarrow> u64 \<Rightarrow> bool \<Rightarrow> u64 \<Rightarrow> u64 \<Rightarrow> bool" where
  "check_pages mp m root need_write addr e =
     (if addr < e then
        if page_allows mp m root need_write addr then
          (if addr + 4096 < addr then True else check_pages mp m root need_write (addr + 4096) e)
        else False
      else True)"
  by pat_completeness auto
termination
proof (relation "measure (\<lambda>(mp, m, root, w, addr, e). unat e - unat addr)")
  fix mp m root w and addr e :: u64
  assume "addr < e" "\<not> addr + 4096 < addr"
  then have "addr < addr + 4096" by (simp add: not_less le_less)
  with \<open>addr < e\<close> have "unat e - unat (addr + 4096) < unat e - unat addr"
    by (simp add: word_less_nat_alt diff_less_mono2)
  then show "((mp, m, root, w, addr + 4096, e), mp, m, root, w, addr, e)
      \<in> measure (\<lambda>(mp, m, root, w, addr, e). unat e - unat addr)"
    by simp
qed simp

declare check_pages.simps [simp del]

definition user_range_accessible :: "mapper \<Rightarrow> pmem \<Rightarrow> u64 \<Rightarrow> u64 \<Rightarrow> u64 \<Rightarrow> bool \<Rightarrow> bool" where
  "user_range_accessible mp m root start len need_write =
     (if len = 0 then True
      else if start + len < start then False
      else check_pages mp m root need_write (page_of start) (start + len))"

section \<open>Mapping\<close>

text \<open>A panic message is the error.\<close>

definition map_user_page :: "mapper \<Rightarrow> u64 \<Rightarrow> u64 \<Rightarrow> (frames, string, unit) eff" where
  "map_user_page mp root page s =
     (case allocate_frame s of
        (None, s) \<Rightarrow> (Inl ''out of frames for user page'', s)
      | (Some frame, s) \<Rightarrow>
          (case map_to mp root page frame USER_RW s of
             (Inl _, s) \<Rightarrow> (Inl ''map_to (user) failed'', s)
           | (Inr _, s) \<Rightarrow> (Inr (), s)))"

text \<open>The global allocator slot together with physical memory.\<close>

type_synonym gframes = "BootInfoFrameAllocator option \<times> pmem"

definition zero_page :: "mapper \<Rightarrow> u64 \<Rightarrow> u64 \<Rightarrow> pmem \<Rightarrow> pmem" where
  "zero_page mp root page m = store_bytes mp root page (replicate 4096 0) m"

definition map_active_user_page :: "mapper \<Rightarrow> u64 \<Rightarrow> u64 \<Rightarrow> gframes \<Rightarrow> bool \<times> gframes" where
  "map_active_user_page mp root page g =
     (case with_global (\<lambda>s.
        (case allocate_frame s of
           (None, s) \<Rightarrow> (False, s)
         | (Some frame, s) \<Rightarrow>
             (case map_to mp root page frame USER_RW s of
                (Inr _, (a, m)) \<Rightarrow> (True, (a, zero_page mp root page m))
              | (Inl _, s) \<Rightarrow> (False, deallocate_frame frame s)))) g of
        (r, g') \<Rightarrow> (case r of None \<Rightarrow> False | Some b \<Rightarrow> b, g'))"

definition unmap_active_user_page :: "mapper \<Rightarrow> u64 \<Rightarrow> u64 \<Rightarrow> gframes \<Rightarrow> gframes" where
  "unmap_active_user_page mp root page g =
     (case g of (a, m) \<Rightarrow>
        (case unmap mp root page m of
           (Some frame, m') \<Rightarrow> snd (with_global (\<lambda>s. ((), deallocate_frame frame s)) (a, m'))
         | (None, m') \<Rightarrow> (a, m')))"

section \<open>What an accepted range means\<close>

lemma page_of_le: "page_of a \<le> a"
  by (simp add: page_of_def word_and_le2)

lemma page_mask: "(0xFFF :: u64) = mask 12"
  by (simp add: mask_eq_exp_minus_1)

lemma unat_page_of: "unat (page_of a) = unat a div 4096 * 4096"
proof -
  have p: "page_of a = push_bit 12 (drop_bit 12 a)"
    by (rule bit_word_eqI) (auto simp: page_of_def page_mask bit_simps)
  have d: "unat (drop_bit 12 a) = unat a div 4096" by (simp add: drop_bit_eq_div unat_div)
  have "unat a div 4096 * 4096 \<le> unat a" by (rule div_times_less_eq_dividend)
  with unat_u64 [of a] have "unat a div 4096 * 4096 < 18446744073709551616" by linarith
  then show ?thesis by (simp add: p push_bit_eq_mult unat_word_ariths d mult.commute)
qed

lemma page_of_eq: "page_of a = p \<longleftrightarrow> unat p mod 4096 = 0 \<and> unat p \<le> unat a \<and> unat a < unat p + 4096"
proof -
  have "page_of a = p \<longleftrightarrow> unat a div 4096 * 4096 = unat p" by (metis unat_page_of word_unat_eq_iff)
  also have "\<dots> \<longleftrightarrow> unat p mod 4096 = 0 \<and> unat p \<le> unat a \<and> unat a < unat p + 4096"
    by (auto simp: mod_eq_0_iff_dvd elim!: dvdE) (metis dvd_triv_right)
  finally show ?thesis .
qed

lemma page_of_idem [simp]: "page_of (page_of a) = page_of a"
  by (simp add: word_unat_eq_iff unat_page_of)

lemma check_pages_iff:
  "unat addr mod 4096 = 0 \<Longrightarrow> check_pages mp m root w addr e \<longleftrightarrow>
   (\<forall>p. unat p mod 4096 = 0 \<longrightarrow> addr \<le> p \<longrightarrow> p < e \<longrightarrow> page_allows mp m root w p)"
proof (induction mp m root w addr e rule: check_pages.induct)
  case (1 mp m root w addr e)
  show ?case
  proof (cases "addr < e \<and> page_allows mp m root w addr")
    case False
    have "check_pages mp m root w addr e \<longleftrightarrow> \<not> addr < e" using False by (subst check_pages.simps) auto
    also have "\<dots> \<longleftrightarrow> (\<forall>p. unat p mod 4096 = 0 \<longrightarrow> addr \<le> p \<longrightarrow> p < e \<longrightarrow> page_allows mp m root w p)"
      using False 1(2) by (auto intro: order_le_less_trans)
    finally show ?thesis .
  next
    case True
    show ?thesis
    proof (cases "addr + 4096 < addr")
      case True': True
      have "p = addr" if p: "4096 dvd unat p" "addr \<le> p" for p
      proof (rule ccontr)
        assume "p \<noteq> addr"
        with p 1(2) have "unat addr + 4096 \<le> unat p" by (auto simp: word_le_nat_alt word_unat_eq_iff mod_eq_0_iff_dvd elim!: dvdE)
        with unat_u64 [of p] have "unat (addr + 4096) = unat addr + 4096" by (simp add: unat_word_ariths)
        with True' show False by (simp add: word_less_nat_alt)
      qed
      with True True' show ?thesis by (subst check_pages.simps) auto
    next
      case False
      have ge: "unat addr + 4096 < 18446744073709551616"
        using False unat_u64 [of addr] by (auto simp: word_less_nat_alt unat_word_ariths mod_if split: if_splits)
      then have next': "unat (addr + 4096) = unat addr + 4096" by (simp add: unat_word_ariths)
      then have al: "unat (addr + 4096) mod 4096 = 0" using 1(2) by simp
      have "addr \<le> p \<longleftrightarrow> p = addr \<or> addr + 4096 \<le> p" if "unat p mod 4096 = 0" for p
        using that 1(2) next' by (auto simp: word_le_nat_alt word_unat_eq_iff mod_eq_0_iff_dvd elim!: dvdE)
      with 1(1) [OF _ _ False al] True False show ?thesis by (subst check_pages.simps) auto
    qed
  qed
qed

section \<open>Bytes and pages\<close>

lemma unat_offset: "unat (va AND 0xFFF :: u64) = unat va mod 4096"
proof -
  have "va AND 0xFFF = take_bit 12 va" by (simp add: page_mask take_bit_eq_mask)
  then show ?thesis by (simp add: take_bit_eq_mod unat_mod)
qed

lemma unat_in_frame:
  assumes f: "page_of f = f"
  shows "unat (f + (va AND 0xFFF)) = unat f + unat va mod 4096" and "unat f mod 4096 = 0"
proof -
  have o: "unat (va AND 0xFFF) < 4096" by (simp add: unat_offset)
  from f have m: "unat f mod 4096 = 0" by (metis mod_mult_self2_is_0 unat_page_of)
  then obtain k where k: "unat f = 4096 * k" by (auto simp: mod_eq_0_iff_dvd elim!: dvdE)
  with unat_u64 [of f] have "k < 4503599627370496" by simp
  then have "unat f + 4096 \<le> 18446744073709551616" using k by simp
  with o show "unat (f + (va AND 0xFFF)) = unat f + unat va mod 4096" by (simp add: unat_word_ariths unat_offset)
  show "unat f mod 4096 = 0" by (rule m)
qed

lemma page_of_in_frame: "page_of f = f \<Longrightarrow> page_of (f + (va AND 0xFFF)) = f"
  by (simp add: page_of_eq unat_in_frame)

lemma offset_in_frame:
  assumes "page_of f = f"
  shows "(f + (va AND 0xFFF)) AND 0xFFF = va AND 0xFFF"
proof -
  obtain k where "unat f = 4096 * k" using unat_in_frame(2) [OF assms] by (auto simp: mod_eq_0_iff_dvd elim!: dvdE)
  then show ?thesis using unat_in_frame(1) [OF assms, of va] by (simp add: word_unat_eq_iff unat_offset)
qed

lemma eight_mask: "(7 :: u64) = mask 3"
  by (simp add: mask_eq_exp_minus_1)

lemma page_of_word: "page_of (a AND NOT 7) = page_of a"
  by (rule bit_word_eqI) (auto simp: page_of_def page_mask eight_mask bit_simps)

lemma word_parts: "(a :: u64) AND NOT 7 = b AND NOT 7 \<Longrightarrow> a AND 7 = b AND 7 \<Longrightarrow> a = b"
proof (rule bit_word_eqI)
  fix n assume h: "a AND NOT 7 = b AND NOT 7" "a AND 7 = b AND 7"
  from arg_cong [OF h(1), of "\<lambda>x. bit x n"] arg_cong [OF h(2), of "\<lambda>x. bit x n"]
  show "bit a n = bit b n" if "n < LENGTH(64)" using that by (auto simp: bit_simps eight_mask)
qed

lemma unat_and7: "unat (a AND 7 :: u64) < 8"
proof -
  have "a AND 7 = take_bit 3 a" by (simp add: eight_mask take_bit_eq_mask)
  then show ?thesis by (simp add: take_bit_eq_mod unat_mod)
qed

lemma byte_mask: "(0xFF :: u64) = mask 8"
  by (simp add: mask_eq_exp_minus_1)

lemma bit_phys_byte: "bit (phys_byte m pa) n \<longleftrightarrow> n < 8 \<and> bit (m (pa AND NOT 7)) (8 * unat (pa AND 7) + n)"
  by (simp add: phys_byte_def bit_simps)

lemma phys_byte_set: "phys_byte (set_phys_byte pa b m) pb = (if pa = pb then b else phys_byte m pb)"
proof (cases "pa AND NOT 7 = pb AND NOT 7")
  case False
  then have "pa \<noteq> pb" by auto
  with False show ?thesis by (simp add: phys_byte_def set_phys_byte_def Let_def)
next
  case same: True
  show ?thesis
  proof (rule bit_word_eqI)
    fix n assume "n < LENGTH(8)"
    then have n: "n < 8" by simp
    have ka: "unat (pa AND 7) < 8" and kb: "unat (pb AND 7) < 8" by (rule unat_and7)+
    have v: "bit (set_phys_byte pa b m (pb AND NOT 7)) k \<longleftrightarrow>
      (if 8 * unat (pa AND 7) \<le> k \<and> k < 8 * unat (pa AND 7) + 8 then bit b (k - 8 * unat (pa AND 7)) else bit (m (pb AND NOT 7)) k)"
      if "k < 64" for k
      using that same by (auto simp: set_phys_byte_def Let_def bit_simps byte_mask dest: bit_imp_le_length)
    have k: "8 * unat (pb AND 7) + n < 64" using kb n by simp
    show "bit (phys_byte (set_phys_byte pa b m) pb) n = bit (if pa = pb then b else phys_byte m pb) n"
    proof (cases "pa = pb")
      case True
      with v [OF k] n show ?thesis by (simp add: bit_phys_byte)
    next
      case False
      with same word_parts have "pa AND 7 \<noteq> pb AND 7" by blast
      then have "unat (pa AND 7) \<noteq> unat (pb AND 7)" by (simp add: word_unat_eq_iff)
      with v [OF k] n False show ?thesis by (auto simp: bit_phys_byte)
    qed
  qed
qed

lemma set_phys_byte_other: "page_of x \<noteq> page_of pa \<Longrightarrow> set_phys_byte pa b m x = m x"
  using page_of_word [of pa] by (auto simp: set_phys_byte_def Let_def)

text \<open>The access check, byte by byte.\<close>

lemma user_range_accessible_iff:
  assumes "len \<noteq> 0"
  shows "user_range_accessible mp m root start len w \<longleftrightarrow>
    unat start + unat len < 2 ^ 64 \<and>
    (\<forall>a. unat start \<le> unat a \<and> unat a < unat start + unat len \<longrightarrow> page_allows mp m root w (page_of a))"
proof (cases "unat start + unat len < 2 ^ 64")
  case False
  then have "start + len < start"
    using unat_u64 [of start] unat_u64 [of len] by (simp add: word_less_nat_alt unat_word_ariths mod_if; linarith)
  with False assms show ?thesis by (simp add: user_range_accessible_def)
next
  case True
  then have e: "unat (start + len) = unat start + unat len" by (simp add: unat_word_ariths)
  then have n: "\<not> start + len < start" by (simp add: word_less_nat_alt)
  have al: "unat (page_of start) mod 4096 = 0" by (simp add: unat_page_of)
  have range: "page_of start \<le> p \<and> p < start + len \<longleftrightarrow>
      (\<exists>a. page_of a = p \<and> unat start \<le> unat a \<and> unat a < unat start + unat len)" if p: "unat p mod 4096 = 0" for p
  proof
    assume r: "page_of start \<le> p \<and> p < start + len"
    show "\<exists>a. page_of a = p \<and> unat start \<le> unat a \<and> unat a < unat start + unat len"
    proof (cases "start \<le> p")
      case True
      then show ?thesis using p r e by (intro exI [of _ p]) (auto simp: page_of_eq word_le_nat_alt word_less_nat_alt)
    next
      case False
      then have "page_of start = p" using p r unfolding page_of_eq
        by (auto simp: word_le_nat_alt unat_page_of mod_eq_0_iff_dvd elim!: dvdE)
      then show ?thesis using assms by (intro exI [of _ start]) (auto simp: word_unat_eq_iff)
    qed
  next
    assume "\<exists>a. page_of a = p \<and> unat start \<le> unat a \<and> unat a < unat start + unat len"
    then obtain a where a: "page_of a = p" "unat start \<le> unat a" "unat a < unat start + unat len" by blast
    have "unat start div 4096 * 4096 \<le> unat a div 4096 * 4096" using a(2) by (simp add: div_le_mono)
    with a(1,3) e show "page_of start \<le> p \<and> p < start + len"
      using page_of_eq [of a p] by (auto simp: word_le_nat_alt word_less_nat_alt unat_page_of)
  qed
  have "user_range_accessible mp m root start len w \<longleftrightarrow>
      (\<forall>p. unat p mod 4096 = 0 \<longrightarrow> page_of start \<le> p \<and> p < start + len \<longrightarrow> page_allows mp m root w p)"
    using assms n by (auto simp: user_range_accessible_def check_pages_iff [OF al])
  also have "\<dots> \<longleftrightarrow> (\<forall>a. unat start \<le> unat a \<and> unat a < unat start + unat len \<longrightarrow> page_allows mp m root w (page_of a))"
    using range by (metis page_of_eq)
  finally show ?thesis using True by simp
qed

end
