(* ===== verification/Uaccess.thy ===== *)
theory Uaccess
  imports Paging Rust_Str
begin

text \<open>
  Access to the memory of the calling process, \<open>src/syscall/uaccess.rs\<close>: the range check, reading
  and writing user bytes, and reading a path. Errors are errno numbers. \<open>root\<close> is the active
  address space.
\<close>

section \<open>Operations\<close>

definition PATH_MAX :: nat where
  "PATH_MAX = 256"

definition validate :: "u64 \<Rightarrow> u64 \<Rightarrow> i64 + unit" where
  "validate ptr len =
     (if ptr + len < ptr then Inl EFAULT
      else if ptr + len \<le> USER_SPACE_END then Inr () else Inl EFAULT)"

definition with_user_bytes :: "mapper \<Rightarrow> pmem \<Rightarrow> u64 \<Rightarrow> u64 \<Rightarrow> u64 \<Rightarrow> i64 + u8 list" where
  "with_user_bytes mp m root ptr len =
     rbind (validate ptr len) (\<lambda>_.
       if len = 0 then Inr []
       else if user_range_accessible mp m root ptr len False then Inr (load_bytes mp m root ptr (unat len))
       else Inl EFAULT)"

definition copy_to_user :: "mapper \<Rightarrow> u64 \<Rightarrow> u64 \<Rightarrow> u8 list \<Rightarrow> (pmem, i64, unit) eff" where
  "copy_to_user mp root dst src m =
     (case validate dst (of_nat (length src)) of
        Inl e \<Rightarrow> (Inl e, m)
      | Inr _ \<Rightarrow>
          if src = [] then (Inr (), m)
          else if user_range_accessible mp m root dst (of_nat (length src)) True
            then (Inr (), store_bytes mp root dst src m)
            else (Inl EFAULT, m))"

text \<open>One page of a string at a time, up to its NUL.\<close>

function read_cstr_loop :: "mapper \<Rightarrow> pmem \<Rightarrow> u64 \<Rightarrow> u64 \<Rightarrow> u8 list \<Rightarrow> i64 + u8 list" where
  "read_cstr_loop mp m root addr out =
     (let page_end = (addr OR 0xFFF) + 1;
          chunk_len = min (page_end - addr) (of_nat (PATH_MAX - length out))
      in if chunk_len = 0 then Inl EINVAL
         else (case with_user_bytes mp m root addr chunk_len of
             Inl e \<Rightarrow> Inl e
           | Inr bs \<Rightarrow>
               (let pre = takeWhile (\<lambda>b. b \<noteq> 0) bs
                in if length pre < length bs then Inr (out @ pre)
                   else read_cstr_loop mp m root page_end (out @ bs))))"
  by pat_completeness auto
termination
proof (relation "measure (\<lambda>(mp, m, root, addr, out). PATH_MAX - length out)", simp)
  fix mp m root addr and out :: "u8 list" and page_end chunk_len bs pre
  assume pe: "page_end = (addr OR 0xFFF) + 1"
    and c: "chunk_len = min (page_end - addr) (of_nat (PATH_MAX - length out))" and nz: "chunk_len \<noteq> 0"
    and r: "with_user_bytes mp m root addr chunk_len = Inr bs"
  have "length bs = unat chunk_len" using r nz
    by (auto simp: with_user_bytes_def load_bytes_def res_simps split: if_splits)
  moreover have "chunk_len \<le> of_nat (PATH_MAX - length out)" by (simp add: c)
  then have "unat chunk_len \<le> PATH_MAX - length out"
    by (simp add: word_le_nat_alt unat_of_nat PATH_MAX_def)
  moreover have "0 < unat chunk_len" using nz by (simp add: unat_gt_0)
  ultimately show "((mp, m, root, page_end, out @ bs), mp, m, root, addr, out)
      \<in> measure (\<lambda>(mp, m, root, addr, out). PATH_MAX - length out)" by simp
qed

declare read_cstr_loop.simps [simp del]

definition read_user_cstr :: "mapper \<Rightarrow> pmem \<Rightarrow> u64 \<Rightarrow> u64 \<Rightarrow> i64 + u8 list" where
  "read_user_cstr mp m root ptr = rbind (validate ptr 1) (\<lambda>_. read_cstr_loop mp m root ptr [])"

section \<open>Accepted ranges\<close>

lemma validate_Inr: "validate ptr len = Inr () \<longleftrightarrow> unat ptr + unat len \<le> 2 ^ 47"
proof (cases "unat ptr + unat len < 2 ^ 64")
  case True
  then have "unat (ptr + len) = unat ptr + unat len" by (simp add: unat_word_ariths)
  then show ?thesis by (simp add: validate_def word_less_nat_alt word_le_nat_alt)
next
  case False
  then have "ptr + len < ptr"
    using unat_u64 [of ptr] unat_u64 [of len] by (simp add: word_less_nat_alt unat_word_ariths mod_if; linarith)
  with False show ?thesis by (simp add: validate_def)
qed

lemma validate_Inl: "validate ptr len = Inl e \<Longrightarrow> e = EFAULT"
  by (auto simp: validate_def split: if_splits)

text \<open>A byte a process may access: in the user half and on a page mapped for it.\<close>

definition user_byte :: "mapper \<Rightarrow> pmem \<Rightarrow> u64 \<Rightarrow> bool \<Rightarrow> u64 \<Rightarrow> bool" where
  "user_byte mp m root w a \<longleftrightarrow> a < USER_SPACE_END \<and> page_allows mp m root w (page_of a)"

lemma unat_add_small: "unat (p :: u64) + i < 2 ^ 64 \<Longrightarrow> unat (p + of_nat i) = unat p + i"
  by (simp add: unat_word_ariths unat_of_nat)

text \<open>Range check and page check together: the access is allowed byte by byte.\<close>

lemma access_ok_iff:
  assumes "0 < n" "n < 2 ^ 64"
  shows "validate ptr (of_nat n) = Inr () \<and> user_range_accessible mp m root ptr (of_nat n) w \<longleftrightarrow>
    unat ptr + n \<le> 2 ^ 47 \<and> (\<forall>i < n. user_byte mp m root w (ptr + of_nat i))"
proof -
  have un: "unat (of_nat n :: u64) = n" using assms(2) by (simp add: unat_of_nat)
  have nz: "(of_nat n :: u64) \<noteq> 0" using assms un by (metis less_not_refl unat_0)
  show ?thesis
  proof (cases "unat ptr + n \<le> 2 ^ 47")
    case False
    then show ?thesis by (simp add: validate_Inr un)
  next
    case True
    then have small: "unat ptr + i < 2 ^ 64" if "i < n" for i using that by simp
    have "(\<forall>a :: u64. unat ptr \<le> unat a \<and> unat a < unat ptr + n \<longrightarrow> page_allows mp m root w (page_of a)) \<longleftrightarrow>
        (\<forall>i < n. user_byte mp m root w (ptr + of_nat i))" (is "?L = ?R")
    proof
      assume ?L
      then show ?R using unat_add_small [OF small] True by (auto simp: user_byte_def word_less_nat_alt)
    next
      assume r: ?R
      show ?L
      proof (intro allI impI)
        fix a :: u64 assume a: "unat ptr \<le> unat a \<and> unat a < unat ptr + n"
        then have "ptr + of_nat (unat a - unat ptr) = a"
          using unat_add_small [OF small, of "unat a - unat ptr"] by (simp add: word_unat_eq_iff)
        with r [rule_format, of "unat a - unat ptr"] a show "page_allows mp m root w (page_of a)"
          by (auto simp: user_byte_def)
      qed
    qed
    then show ?thesis
      using True by (simp add: validate_Inr un user_range_accessible_iff [OF nz])
  qed
qed

lemma with_user_bytes_Inr:
  assumes "n < 2 ^ 64"
  shows "with_user_bytes mp m root ptr (of_nat n) = Inr bs \<longleftrightarrow>
    unat ptr + n \<le> 2 ^ 47 \<and> (\<forall>i < n. user_byte mp m root False (ptr + of_nat i)) \<and> bs = load_bytes mp m root ptr n"
proof (cases "n = 0")
  case True
  then show ?thesis by (auto simp: with_user_bytes_def res_simps validate_Inr load_bytes_def)
next
  case False
  have un: "unat (of_nat n :: u64) = n" using assms by (simp add: unat_of_nat)
  have "(of_nat n :: u64) \<noteq> 0" using False un by (metis unat_0)
  then show ?thesis
    using access_ok_iff [of n ptr mp m root False] False assms un
    by (auto simp: with_user_bytes_def res_simps)
qed

lemma with_user_bytes_Inl: "with_user_bytes mp m root ptr len = Inl e \<Longrightarrow> e = EFAULT"
  by (auto simp: with_user_bytes_def res_simps split: if_splits dest: validate_Inl)

section \<open>Writes reach user pages only\<close>

definition user_frame :: "mapper \<Rightarrow> pmem \<Rightarrow> u64 \<Rightarrow> u64 \<Rightarrow> bool" where
  "user_frame mp m root f \<longleftrightarrow> (\<exists>p fl. translate mp m root p = Some (f, fl) \<and>
     contains_flag fl USER_ACCESSIBLE \<and> contains_flag fl WRITABLE)"

text \<open>Two memories that differ at most in the frames a process may write.\<close>

definition same_kernel :: "mapper \<Rightarrow> u64 \<Rightarrow> pmem \<Rightarrow> pmem \<Rightarrow> bool" where
  "same_kernel mp root m m' \<longleftrightarrow> (\<forall>x. (\<forall>f. user_frame mp m root f \<longrightarrow> page_of x \<noteq> f) \<longrightarrow> m' x = m x)"

text \<open>
  A sane address space: frames are page aligned, and its page tables are not themselves in frames
  the process may write, so writing user pages does not change the translation.
\<close>

definition sane_space :: "mapper \<Rightarrow> pmem \<Rightarrow> u64 \<Rightarrow> bool" where
  "sane_space mp m root \<longleftrightarrow>
     (\<forall>p f fl. translate mp m root p = Some (f, fl) \<longrightarrow> page_of f = f) \<and>
     (\<forall>m'. same_kernel mp root m m' \<longrightarrow> translate mp m' root = translate mp m root)"

lemma same_kernel_refl [simp]: "same_kernel mp root m m"
  by (simp add: same_kernel_def)

lemma user_frame_cong: "translate mp m' root = translate mp m root \<Longrightarrow> user_frame mp m' root f = user_frame mp m root f"
  by (simp add: user_frame_def)

lemma sane_translate: "sane_space mp m root \<Longrightarrow> same_kernel mp root m m' \<Longrightarrow> translate mp m' root = translate mp m root"
  unfolding sane_space_def by blast

lemma sane_aligned: "sane_space mp m root \<Longrightarrow> translate mp m root p = Some (f, fl) \<Longrightarrow> page_of f = f"
  unfolding sane_space_def by blast

lemma same_kernel_trans:
  assumes "sane_space mp m root" "same_kernel mp root m m1" "same_kernel mp root m1 m2"
  shows "same_kernel mp root m m2"
  unfolding same_kernel_def
proof (intro allI impI)
  fix x assume x: "\<forall>f. user_frame mp m root f \<longrightarrow> page_of x \<noteq> f"
  with assms(2) have "m1 x = m x" by (simp add: same_kernel_def)
  moreover from x have "m2 x = m1 x"
    using assms(3) by (simp add: same_kernel_def user_frame_cong [OF sane_translate [OF assms(1,2)]])
  ultimately show "m2 x = m x" by simp
qed

lemma sane_space_step:
  assumes "sane_space mp m root" "same_kernel mp root m m'"
  shows "sane_space mp m' root" "translate mp m' root = translate mp m root"
proof -
  show t: "translate mp m' root = translate mp m root" by (rule sane_translate [OF assms])
  have "translate mp m2 root = translate mp m' root" if "same_kernel mp root m' m2" for m2
    using sane_translate [OF assms(1) same_kernel_trans [OF assms that]] t by simp
  moreover have "page_of f = f" if "translate mp m' root p = Some (f, fl)" for p f fl
    using sane_aligned [OF assms(1)] that t by simp
  ultimately show "sane_space mp m' root" unfolding sane_space_def by blast
qed

lemma page_allows_cong: "translate mp m' root = translate mp m root \<Longrightarrow> page_allows mp m' root w p = page_allows mp m root w p"
  by (simp add: page_allows_def)

lemma user_byte_cong: "translate mp m' root = translate mp m root \<Longrightarrow> user_byte mp m' root w p = user_byte mp m root w p"
  by (simp add: user_byte_def page_allows_def)

lemma store_byte_ok:
  assumes "sane_space mp m root" "user_byte mp m root True va"
  obtains f fl where "user_frame mp m root f" "page_of f = f" "store_byte mp root va b m = set_phys_byte (f + (va AND 0xFFF)) b m"
    "same_kernel mp root m (store_byte mp root va b m)" "phys_of mp m root va = Some (f + (va AND 0xFFF))"
    "translate mp m root (page_of va) = Some (f, fl)"
proof -
  from assms(2) obtain f fl where t: "translate mp m root (page_of va) = Some (f, fl)"
    "contains_flag fl USER_ACCESSIBLE" "contains_flag fl WRITABLE"
    by (auto simp: user_byte_def page_allows_def split: option.splits)
  have al: "page_of f = f" by (rule sane_aligned [OF assms(1) t(1)])
  have uf: "user_frame mp m root f" using t by (auto simp: user_frame_def)
  have st: "store_byte mp root va b m = set_phys_byte (f + (va AND 0xFFF)) b m"
    by (simp add: store_byte_def phys_of_def t(1))
  have "same_kernel mp root m (store_byte mp root va b m)"
    unfolding same_kernel_def st using uf by (auto intro!: set_phys_byte_other simp: page_of_in_frame [OF al])
  with uf al st t(1) show thesis by (intro that [of f fl]) (simp_all add: phys_of_def)
qed

lemma store_bytes_ok:
  assumes "sane_space mp m root" "\<forall>i < length bs. user_byte mp m root True (va + of_nat i)"
  shows "same_kernel mp root m (store_bytes mp root va bs m)"
  using assms
proof (induction bs arbitrary: va m)
  case (Cons b bs)
  have ub: "user_byte mp m root True va" using Cons.prems(2) [rule_format, of 0] by simp
  obtain f where k: "same_kernel mp root m (store_byte mp root va b m)"
    by (rule store_byte_ok [OF Cons.prems(1) ub, of b])
  note st = sane_space_step [OF Cons.prems(1) k]
  have "user_byte mp (store_byte mp root va b m) root True (va + 1 + of_nat i)" if "i < length bs" for i
    using Cons.prems(2) [rule_format, of "Suc i"] that by (simp add: user_byte_cong [OF st(2)] ac_simps)
  then have "\<forall>i < length bs. user_byte mp (store_byte mp root va b m) root True (va + 1 + of_nat i)" by blast
  from Cons.IH [OF st(1) this] show ?case using same_kernel_trans [OF Cons.prems(1) k] by simp
qed simp

section \<open>What was written is read back\<close>

text \<open>No frame is mapped at two pages a process may access; the kernel has its own mapping of all memory.\<close>

definition pages_inj :: "mapper \<Rightarrow> pmem \<Rightarrow> u64 \<Rightarrow> bool" where
  "pages_inj mp m root \<longleftrightarrow> (\<forall>p q f fl gl. translate mp m root p = Some (f, fl) \<longrightarrow> translate mp m root q = Some (f, gl) \<longrightarrow>
     contains_flag fl USER_ACCESSIBLE \<longrightarrow> contains_flag gl USER_ACCESSIBLE \<longrightarrow> page_of p = page_of q)"

lemma page_and_offset: "page_of a = page_of b \<Longrightarrow> a AND 0xFFF = b AND 0xFFF \<Longrightarrow> a = b"
proof -
  assume "page_of a = page_of b" "a AND 0xFFF = b AND 0xFFF"
  then have "unat a div 4096 = unat b div 4096" "unat a mod 4096 = unat b mod 4096"
    by (metis unat_page_of nonzero_mult_div_cancel_right zero_neq_numeral, metis unat_offset)
  then show "a = b" by (metis div_mult_mod_eq word_unat_eq_iff)
qed

lemma load_store_byte:
  assumes s: "sane_space mp m root" and i: "pages_inj mp m root" and u: "user_byte mp m root True va" and h: "user_byte mp m root False a"
  shows "load_byte mp (store_byte mp root va b m) root a = (if a = va then b else load_byte mp m root a)"
proof -
  obtain f fl where f: "user_frame mp m root f" "page_of f = f" "store_byte mp root va b m = set_phys_byte (f + (va AND 0xFFF)) b m"
    "same_kernel mp root m (store_byte mp root va b m)" "phys_of mp m root va = Some (f + (va AND 0xFFF))"
    "translate mp m root (page_of va) = Some (f, fl)"
    by (rule store_byte_ok [OF s u, of b])
  have t: "phys_of mp (store_byte mp root va b m) root a = phys_of mp m root a"
    using sane_translate [OF s f(4)] by (simp add: phys_of_def)
  show ?thesis
  proof (cases "phys_of mp m root a")
    case None
    then have "a \<noteq> va" using f(5) by auto
    with None t show ?thesis by (simp add: load_byte_def)
  next
    case (Some pa)
    have "pa = f + (va AND 0xFFF) \<longleftrightarrow> a = va"
    proof
      assume pa: "pa = f + (va AND 0xFFF)"
      from Some obtain g gl where g: "translate mp m root (page_of a) = Some (g, gl)" "pa = g + (a AND 0xFFF)"
        by (auto simp: phys_of_def)
      have gal: "page_of g = g" by (rule sane_aligned [OF s g(1)])
      then have gf: "g = f" using pa g(2) page_of_in_frame f(2) by metis
      moreover have "contains_flag gl USER_ACCESSIBLE" "contains_flag fl USER_ACCESSIBLE"
        using h u g(1) f(6) by (simp_all add: user_byte_def page_allows_def)
      ultimately have "page_of a = page_of va" using i g(1) f(6) unfolding pages_inj_def by (metis page_of_idem)
      moreover have "a AND 0xFFF = va AND 0xFFF" using offset_in_frame [OF f(2)] pa g(2) gf by metis
      ultimately show "a = va" by (rule page_and_offset)
    qed (use Some f(5) in simp)
    then show ?thesis unfolding load_byte_def t [unfolded f(3)] Some option.case f(3) phys_byte_set by auto
  qed
qed

lemma pages_inj_cong: "translate mp m' root = translate mp m root \<Longrightarrow> pages_inj mp m' root = pages_inj mp m root"
  by (simp add: pages_inj_def)

definition writable_at :: "mapper \<Rightarrow> pmem \<Rightarrow> u64 \<Rightarrow> u64 \<Rightarrow> nat \<Rightarrow> bool" where
  "writable_at mp m root va n \<longleftrightarrow> sane_space mp m root \<and> pages_inj mp m root \<and>
     (\<forall>i < n. user_byte mp m root True (va + of_nat i))"

lemma writable_first: "writable_at mp m root va (Suc n) \<Longrightarrow> user_byte mp m root True va"
  by (auto simp: writable_at_def dest: spec [of _ 0])

lemma writable_step:
  assumes "writable_at mp m root va (Suc n)"
  shows "writable_at mp (store_byte mp root va b m) root (va + 1) n"
proof -
  have p: "sane_space mp m root" "pages_inj mp m root" "\<forall>i < Suc n. user_byte mp m root True (va + of_nat i)"
    using assms by (auto simp: writable_at_def)
  obtain f fl where k: "same_kernel mp root m (store_byte mp root va b m)"
    by (rule store_byte_ok [OF p(1) writable_first [OF assms], of b])
  note st = sane_space_step [OF p(1) k]
  have "user_byte mp (store_byte mp root va b m) root True (va + 1 + of_nat i)" if "i < n" for i
    using p(3) [rule_format, of "Suc i"] that by (simp add: user_byte_cong [OF st(2)] ac_simps)
  then show ?thesis using st(1) p(2) by (simp add: writable_at_def pages_inj_cong [OF st(2)])
qed

lemma readable_step:
  assumes "writable_at mp m root va (Suc n)" "user_byte mp m root False a"
  shows "user_byte mp (store_byte mp root va b m) root False a"
proof -
  have s: "sane_space mp m root" using assms(1) by (simp add: writable_at_def)
  obtain f fl where k: "same_kernel mp root m (store_byte mp root va b m)"
    by (rule store_byte_ok [OF s writable_first [OF assms(1)], of b])
  show ?thesis using assms(2) user_byte_cong [OF sane_translate [OF s k]] by simp
qed

lemma load_store_first:
  "writable_at mp m root va (Suc n) \<Longrightarrow> user_byte mp m root False a \<Longrightarrow>
   load_byte mp (store_byte mp root va b m) root a = (if a = va then b else load_byte mp m root a)"
  using load_store_byte writable_first by (auto simp: writable_at_def)

lemma load_store_outside:
  "writable_at mp m root va (length bs) \<Longrightarrow> \<forall>i < length bs. a \<noteq> va + of_nat i \<Longrightarrow> user_byte mp m root False a \<Longrightarrow>
   load_byte mp (store_bytes mp root va bs m) root a = load_byte mp m root a"
proof (induction bs arbitrary: va m)
  case (Cons b bs)
  have w: "writable_at mp m root va (Suc (length bs))" using Cons.prems(1) by simp
  have "a \<noteq> va + 1 + of_nat i" if "i < length bs" for i
    using Cons.prems(2) [rule_format, of "Suc i"] that by (simp add: ac_simps)
  with Cons.IH [OF writable_step [OF w, of b]] readable_step [OF w Cons.prems(3), of b]
  have "load_byte mp (store_bytes mp root va (b # bs) m) root a = load_byte mp (store_byte mp root va b m) root a" by simp
  also have "\<dots> = load_byte mp m root a"
    using load_store_first [OF w Cons.prems(3), of b] Cons.prems(2) [rule_format, of 0] by simp
  finally show ?case .
qed simp

lemma load_store_inside:
  "writable_at mp m root va (length bs) \<Longrightarrow> length bs \<le> 2 ^ 63 \<Longrightarrow> i < length bs \<Longrightarrow>
   load_byte mp (store_bytes mp root va bs m) root (va + of_nat i) = bs ! i"
proof (induction bs arbitrary: va m i)
  case (Cons b bs)
  have w: "writable_at mp m root va (Suc (length bs))" using Cons.prems(1) by simp
  show ?case
  proof (cases i)
    case 0
    have "va \<noteq> va + 1 + of_nat j" if "j < length bs" for j
    proof
      assume "va = va + 1 + of_nat j"
      then have "(of_nat (Suc j) :: u64) = 0" by (simp add: add.assoc)
      moreover have "unat (of_nat (Suc j) :: u64) = Suc j"
        using that Cons.prems(2) by (subst unat_of_nat) simp
      ultimately show False by simp
    qed
    moreover have h: "user_byte mp m root False va"
      using writable_first [OF w] by (auto simp: user_byte_def page_allows_def split: option.splits)
    note readable_step [OF w h, of b]
    ultimately have "load_byte mp (store_bytes mp root (va + 1) bs (store_byte mp root va b m)) root va = load_byte mp (store_byte mp root va b m) root va"
      by (intro load_store_outside [OF writable_step [OF w]]) blast+
    then show ?thesis using load_store_first [OF w h, of b] by (simp add: 0)
  next
    case (Suc j)
    have "load_byte mp (store_bytes mp root (va + 1) bs (store_byte mp root va b m)) root (va + 1 + of_nat j) = bs ! j"
      by (rule Cons.IH [OF writable_step [OF w]]) (use Cons.prems(2,3) Suc in simp_all)
    then show ?thesis by (simp add: Suc ac_simps)
  qed
qed simp

section \<open>Strings\<close>

lemma unat_page_end:
  assumes "a < USER_SPACE_END"
  shows "unat ((a OR 0xFFF) + 1) = unat (page_of a) + 4096" and "unat (page_of a) + 4096 \<le> 2 ^ 47"
    and "unat ((a OR 0xFFF) + 1 - a) = unat (page_of a) + 4096 - unat a"
proof -
  have lt: "unat a < 2 ^ 47" using assms by (simp add: word_less_nat_alt)
  have "unat a div 4096 < 34359738368" using lt by (simp add: less_mult_imp_div_less)
  then show le: "unat (page_of a) + 4096 \<le> 2 ^ 47" by (simp add: unat_page_of)
  have z: "page_of a AND 0xFFF = 0"
    by (rule bit_word_eqI) (auto simp: page_of_def bit_simps)
  have o: "page_of a OR 0xFFF = a OR 0xFFF"
    by (rule bit_word_eqI) (auto simp: page_of_def bit_simps)
  have "page_of a + 0xFFF = (page_of a AND 0xFFF) + (page_of a OR 0xFFF)" by (rule word_plus_and_or [symmetric])
  then have "a OR 0xFFF = page_of a + 0xFFF" using z o by simp
  then have "(a OR 0xFFF) + 1 = page_of a + 0x1000" by simp
  then show e: "unat ((a OR 0xFFF) + 1) = unat (page_of a) + 4096" using le by (simp add: unat_word_ariths)
  have "unat a < unat (page_of a) + 4096" by (metis page_of_eq)
  then have "a \<le> (a OR 0xFFF) + 1" using e by (simp add: word_le_nat_alt)
  then show "unat ((a OR 0xFFF) + 1 - a) = unat (page_of a) + 4096 - unat a" using e by (simp add: unat_sub)
qed

text \<open>
  A string of \<open>n\<close> bytes without its NUL at \<open>a\<close>: every byte up to and including the NUL is in a
  page of the process.
\<close>

definition user_string :: "mapper \<Rightarrow> pmem \<Rightarrow> u64 \<Rightarrow> u64 \<Rightarrow> u8 list \<Rightarrow> bool" where
  "user_string mp m root a s \<longleftrightarrow> unat a + length s < 2 ^ 47 \<and> 0 \<notin> set s \<and>
     (\<forall>i \<le> length s. user_byte mp m root False (a + of_nat i)) \<and>
     load_bytes mp m root a (length s + 1) = s @ [0]"

lemma length_load_bytes [simp]: "length (load_bytes mp m root a n) = n"
  by (simp add: load_bytes_def)

lemma load_bytes_append: "load_bytes mp m root a (n + k) = load_bytes mp m root a n @ load_bytes mp m root (a + of_nat n) k"
proof (induction k)
  case (Suc k)
  then show ?case by (simp add: load_bytes_def add.assoc)
qed (simp add: load_bytes_def)

lemma take_load_bytes: "n \<le> k \<Longrightarrow> take n (load_bytes mp m root a k) = load_bytes mp m root a n"
  using load_bytes_append [of mp m root a n "k - n"] by simp

lemma user_byte_same_page: "user_byte mp m root w a \<Longrightarrow> page_of b = page_of a \<Longrightarrow> b < USER_SPACE_END \<Longrightarrow> user_byte mp m root w b"
  by (simp add: user_byte_def)

text \<open>How much the loop reads at \<open>a\<close>: the rest of the page, or what is left of the limit.\<close>

definition chunk_at :: "u64 \<Rightarrow> nat \<Rightarrow> nat" where
  "chunk_at a k = min (unat (page_of a) + 4096 - unat a) (PATH_MAX - k)"

lemma unat_chunk:
  assumes "a < USER_SPACE_END"
  shows "min ((a OR 0xFFF) + 1 - a) (of_nat (PATH_MAX - k)) = (of_nat (chunk_at a k) :: u64)"
    and "chunk_at a k < 2 ^ 64" and "unat a + chunk_at a k \<le> 2 ^ 47" and "chunk_at a k \<le> PATH_MAX - k"
proof -
  have u: "unat (of_nat (PATH_MAX - k) :: u64) = PATH_MAX - k" by (simp add: unat_of_nat PATH_MAX_def)
  note e = unat_page_end [OF assms]
  show c: "chunk_at a k < 2 ^ 64" and "chunk_at a k \<le> PATH_MAX - k" by (simp_all add: chunk_at_def PATH_MAX_def)
  have "unat (min ((a OR 0xFFF) + 1 - a) (of_nat (PATH_MAX - k)) :: u64) = chunk_at a k"
    using e(3) u by (simp add: chunk_at_def min_def word_le_nat_alt)
  moreover have "unat (of_nat (chunk_at a k) :: u64) = chunk_at a k" using c by (simp add: unat_of_nat)
  ultimately show "min ((a OR 0xFFF) + 1 - a) (of_nat (PATH_MAX - k)) = (of_nat (chunk_at a k) :: u64)"
    by (simp add: word_unat_eq_iff)
  show "unat a + chunk_at a k \<le> 2 ^ 47" using e(2) page_of_eq [of a "page_of a"] unfolding chunk_at_def min_def by (simp; linarith)
qed

lemma chunk_readable:
  assumes "user_byte mp m root False a"
  shows "with_user_bytes mp m root a (of_nat (chunk_at a k)) = Inr (load_bytes mp m root a (chunk_at a k))"
proof -
  have a: "a < USER_SPACE_END" using assms by (simp add: user_byte_def)
  have "user_byte mp m root False (a + of_nat i)" if "i < chunk_at a k" for i
  proof (rule user_byte_same_page [OF assms])
    have u: "unat (a + of_nat i) = unat a + i"
      using that unat_chunk(3) [OF a, of k] by (intro unat_add_small) simp
    have "i < unat (page_of a) + 4096 - unat a" using that by (simp add: chunk_at_def)
    then have "unat a + i < unat (page_of a) + 4096" by linarith
    then show "page_of (a + of_nat i) = page_of a" using u page_of_eq [of a "page_of a"] by (simp add: page_of_eq)
    show "a + of_nat i < USER_SPACE_END" using u that unat_chunk(3) [OF a, of k] by (simp add: word_less_nat_alt)
  qed
  then show ?thesis using unat_chunk(2,3) [OF a, of k] by (simp add: with_user_bytes_Inr)
qed

lemma takeWhile_all_iff: "length (takeWhile P xs) < length xs \<longleftrightarrow> (\<exists>x \<in> set xs. \<not> P x)"
  by (induction xs) auto

lemma append_eq_snoc:
  assumes "length xs \<le> length s"
  shows "xs @ ys = s @ [z] \<longleftrightarrow> take (length xs) s = xs \<and> ys = drop (length xs) s @ [z]"
proof -
  have "s @ [z] = take (length xs) s @ (drop (length xs) s @ [z])" by simp
  then have "xs @ ys = s @ [z] \<longleftrightarrow> xs @ ys = take (length xs) s @ (drop (length xs) s @ [z])"
    by (rule arg_cong [of _ _ "\<lambda>t. xs @ ys = t"])
  also have "\<dots> \<longleftrightarrow> xs = take (length xs) s \<and> ys = drop (length xs) s @ [z]"
    by (rule append_eq_append_conv) (use assms in simp)
  finally show ?thesis by auto
qed

lemma user_string_split:
  assumes "n \<le> length s" "unat a + n < 2 ^ 47"
  shows "user_string mp m root a s \<longleftrightarrow> take n s = load_bytes mp m root a n \<and> 0 \<notin> set (take n s) \<and>
    (\<forall>i < n. user_byte mp m root False (a + of_nat i)) \<and> user_string mp m root (a + of_nat n) (drop n s)"
proof -
  obtain k where k: "length s = n + k" using assms(1) le_Suc_ex by blast
  have u: "unat (a + of_nat n) = unat a + n" using assms(2) by (intro unat_add_small) simp
  have st: "s = take n s @ drop n s" by simp
  have "(\<forall>i \<le> length s. user_byte mp m root False (a + of_nat i)) \<longleftrightarrow>
      (\<forall>i < n. user_byte mp m root False (a + of_nat i)) \<and> (\<forall>i \<le> k. user_byte mp m root False (a + of_nat n + of_nat i))"
    (is "?A \<longleftrightarrow> ?B \<and> ?C")
  proof
    assume a: ?A
    have "user_byte mp m root False (a + of_nat n + of_nat i)" if "i \<le> k" for i
      using a [rule_format, of "n + i"] that k by (simp add: add.assoc)
    with a k show "?B \<and> ?C" by simp
  next
    assume b: "?B \<and> ?C"
    show ?A
    proof (intro allI impI)
      fix i assume "i \<le> length s"
      then show "user_byte mp m root False (a + of_nat i)"
        using conjunct1 [OF b, rule_format, of i] conjunct2 [OF b, rule_format, of "i - n"] k by (cases "i < n") (auto simp: add.assoc)
    qed
  qed
  moreover have "load_bytes mp m root a (length s + 1) = s @ [0] \<longleftrightarrow>
      take n s = load_bytes mp m root a n \<and> load_bytes mp m root (a + of_nat n) (k + 1) = drop n s @ [0]"
  proof -
    have "load_bytes mp m root a (length s + 1) = load_bytes mp m root a n @ load_bytes mp m root (a + of_nat n) (k + 1)"
      using load_bytes_append [of mp m root a n "k + 1"] k by (simp add: add.assoc)
    then show ?thesis using append_eq_snoc [of "load_bytes mp m root a n" s] assms(1) by simp
  qed
  moreover have "0 \<notin> set s \<longleftrightarrow> 0 \<notin> set (take n s) \<and> 0 \<notin> set (drop n s)" by (metis Un_iff set_append append_take_drop_id)
  ultimately show ?thesis using k u unfolding user_string_def by auto
qed

lemma takeWhile_nul:
  assumes "s @ [0] = take (length s + 1) bs" "0 \<notin> set s" "length s < length bs"
  shows "takeWhile (\<lambda>b. b \<noteq> 0) bs = s"
proof -
  have "bs = s @ 0 # drop (length s + 1) bs"
    using assms(1) by (metis append.assoc append_Cons append_Nil append_take_drop_id)
  moreover have "takeWhile (\<lambda>b. b \<noteq> 0) (s @ 0 # drop (length s + 1) bs) = s"
    using assms(2) by (subst takeWhile_append2) auto
  ultimately show ?thesis by simp
qed

lemma user_string_in_chunk:
  assumes "0 \<in> set (load_bytes mp m root a n)" "\<forall>i < n. user_byte mp m root False (a + of_nat i)" "unat a + n \<le> 2 ^ 47"
  shows "user_string mp m root a s \<longleftrightarrow> s = takeWhile (\<lambda>b. b \<noteq> 0) (load_bytes mp m root a n)"
proof
  let ?bs = "load_bytes mp m root a n"
  assume u: "user_string mp m root a s"
  have "length s < n"
  proof (rule ccontr)
    assume "\<not> length s < n"
    then have n: "n \<le> length s" by simp
    have "unat a + n < 2 ^ 47" using u n by (simp add: user_string_def)
    with u user_string_split [OF n this] have "0 \<notin> set ?bs" by auto
    with assms(1) show False by simp
  qed
  then have "s @ [0] = take (length s + 1) ?bs"
    using u take_load_bytes [of "length s + 1" n mp m root a] by (simp add: user_string_def)
  from takeWhile_nul [OF this] \<open>length s < n\<close> u show "s = takeWhile (\<lambda>b. b \<noteq> 0) ?bs" by (simp add: user_string_def)
next
  let ?bs = "load_bytes mp m root a n" and ?s = "takeWhile (\<lambda>b. b \<noteq> 0) (load_bytes mp m root a n)"
  assume s: "s = ?s"
  have l: "length ?s < n" using assms(1) takeWhile_all_iff [of "\<lambda>b. b \<noteq> 0" ?bs] by auto
  have "?bs ! length ?s = 0" using l nth_length_takeWhile [of "\<lambda>b. b \<noteq> 0" ?bs] by simp
  moreover have "take (length ?s + 1) ?bs = take (length ?s) ?bs @ [?bs ! length ?s]"
    using l by (simp add: take_Suc_conv_app_nth)
  moreover have "take (length ?s) ?bs = ?s" by (metis takeWhile_eq_take)
  ultimately have "load_bytes mp m root a (length ?s + 1) = ?s @ [0]"
    using take_load_bytes [of "length ?s + 1" n mp m root a] l by simp
  moreover have "0 \<notin> set ?s" using set_takeWhileD by fastforce
  ultimately show "user_string mp m root a s"
    using assms(2,3) l by (simp add: user_string_def s)
qed

lemma read_cstr_loop_step:
  assumes "a < USER_SPACE_END"
  shows "read_cstr_loop mp m root a out =
    (let n = chunk_at a (length out); bs = load_bytes mp m root a n
     in if n = 0 then Inl EINVAL
        else if \<not> user_byte mp m root False a then Inl EFAULT
        else if 0 \<in> set bs then Inr (out @ takeWhile (\<lambda>b. b \<noteq> 0) bs)
        else read_cstr_loop mp m root ((a OR 0xFFF) + 1) (out @ bs))"
proof -
  let ?n = "chunk_at a (length out)"
  let ?bs = "load_bytes mp m root a ?n"
  have un: "unat (of_nat ?n :: u64) = ?n" using unat_chunk(2) [OF assms, of "length out"] by (simp add: unat_of_nat)
  have z: "(of_nat ?n :: u64) = 0 \<longleftrightarrow> ?n = 0" using un by (subst word_unat_eq_iff) simp
  have w: "with_user_bytes mp m root a (of_nat ?n) = (if user_byte mp m root False a then Inr ?bs else Inl EFAULT)" if "0 < ?n"
  proof (cases "user_byte mp m root False a")
    case True
    then show ?thesis using chunk_readable by simp
  next
    case False
    then have "with_user_bytes mp m root a (of_nat ?n) \<noteq> Inr bs" for bs
      using with_user_bytes_Inr [OF unat_chunk(2) [OF assms], of mp m root a "length out" bs] that by force
    then show ?thesis using False with_user_bytes_Inl by (cases "with_user_bytes mp m root a (of_nat ?n)") auto
  qed
  have tw: "length (takeWhile (\<lambda>b. b \<noteq> 0) ?bs) < ?n \<longleftrightarrow> 0 \<in> set ?bs"
    using takeWhile_all_iff [of "\<lambda>b. b \<noteq> 0" ?bs] by auto
  show ?thesis
    using w unfolding read_cstr_loop.simps [of mp m root a out] unat_chunk(1) [OF assms] Let_def z
    by (simp add: tw)
qed

lemma read_cstr_loop_iff:
  assumes "unat a \<le> 2 ^ 47"
  shows "read_cstr_loop mp m root a out = Inr r \<longleftrightarrow>
    (\<exists>s. r = out @ s \<and> length out + length s < PATH_MAX \<and> user_string mp m root a s)"
  using assms
proof (induction "PATH_MAX - length out" arbitrary: a out rule: less_induct)
  case less
  show ?case
  proof (cases "a < USER_SPACE_END")
    case False
    then have a: "2 ^ 47 \<le> unat a" by (simp add: word_less_nat_alt)
    have "read_cstr_loop mp m root a out \<noteq> Inr r"
    proof
      assume "read_cstr_loop mp m root a out = Inr r"
      then obtain c bs where "c \<noteq> 0" "with_user_bytes mp m root a c = Inr bs"
        by (auto simp: read_cstr_loop.simps [of mp m root a out] Let_def split: if_splits sum.splits)
      then have "unat c \<noteq> 0" "unat a + unat c \<le> 2 ^ 47"
        by (auto simp: with_user_bytes_def res_simps validate_Inr unat_eq_0)
      with a show False by simp
    qed
    with a show ?thesis by (auto simp: user_string_def)
  next
    case True
    let ?n = "chunk_at a (length out)" and ?e = "(a OR 0xFFF) + 1"
    let ?bs = "load_bytes mp m root a ?n"
    note c = unat_chunk(3,4) [OF True, of "length out"]
    note step = read_cstr_loop_step [OF True, of mp m root out]
    have rem: "unat a < unat (page_of a) + 4096" by (metis page_of_eq)
    consider "?n = 0" | "?n \<noteq> 0" "\<not> user_byte mp m root False a" | "?n \<noteq> 0" "user_byte mp m root False a" by blast
    then show ?thesis
    proof cases
      case 1
      then have "PATH_MAX \<le> length out" using rem by (simp add: chunk_at_def)
      with 1 step show ?thesis by (auto simp: Let_def)
    next
      case 2
      then have "\<not> user_string mp m root a s" for s by (auto simp: user_string_def dest: spec [of _ 0])
      with 2 step show ?thesis by (simp add: Let_def)
    next
      case 3
      have ub: "\<forall>i < ?n. user_byte mp m root False (a + of_nat i)"
        using chunk_readable [OF 3(2), of "length out"] with_user_bytes_Inr [OF unat_chunk(2) [OF True]] by blast
      show ?thesis
      proof (cases "0 \<in> set ?bs")
        case z: True
        have "length (takeWhile (\<lambda>b. b \<noteq> 0) ?bs) < ?n"
          using z takeWhile_all_iff [of "\<lambda>b. b \<noteq> 0" ?bs] by auto
        with c have "length out + length (takeWhile (\<lambda>b. b \<noteq> 0) ?bs) < PATH_MAX" by linarith
        then show ?thesis using step 3 z user_string_in_chunk [OF z ub c(1)] by (auto simp: Let_def)
      next
        case z: False
        have "PATH_MAX - length (out @ ?bs) < PATH_MAX - length out" using 3(1) c(2) by simp
        moreover have "unat ?e \<le> 2 ^ 47" using unat_page_end [OF True] by simp
        ultimately have ih: "read_cstr_loop mp m root a out = Inr r \<longleftrightarrow>
            (\<exists>s. r = (out @ ?bs) @ s \<and> length (out @ ?bs) + length s < PATH_MAX \<and> user_string mp m root ?e s)"
          using less.hyps [of "out @ ?bs" ?e] step 3 z by (simp add: Let_def)
        have "n \<le> length s" if n: "n \<le> ?n" and u: "user_string mp m root a s" for n s
        proof (rule ccontr)
          assume l: "\<not> n \<le> length s"
          then have "take (length s + 1) ?bs = s @ [0]"
            using u n take_load_bytes [of "length s + 1" ?n mp m root a] by (simp add: user_string_def)
          then have "0 \<in> set ?bs" by (metis in_set_conv_decomp in_set_takeD)
          with z show False by simp
        qed
        then have ge: "?n \<le> length s" if "user_string mp m root a s" for s using that by blast
        show ?thesis
        proof (cases "unat (page_of a) + 4096 - unat a \<le> PATH_MAX - length out")
          case False
          then have "?n = PATH_MAX - length out" by (simp add: chunk_at_def)
          then show ?thesis using ih ge by fastforce
        next
          case fit: True
          then have "unat (a + of_nat ?n) = unat ?e"
            using c(1) unat_page_end [OF True] rem by (subst unat_add_small) (auto simp: chunk_at_def)
          then have e: "?e = a + of_nat ?n" by (simp add: word_unat_eq_iff)
          show ?thesis
          proof (cases "unat a + ?n < 2 ^ 47")
            case False
            then have "\<not> user_string mp m root a s" "\<not> user_string mp m root ?e s" for s
              using ge [of s] unat_page_end [OF True] c(1) fit rem by (auto simp: user_string_def chunk_at_def)
            with ih show ?thesis by simp
          next
            case lt: True
            have sp: "user_string mp m root a s \<longleftrightarrow> (\<exists>t. s = ?bs @ t \<and> user_string mp m root ?e t)" for s
            proof
              assume "user_string mp m root a s"
              with user_string_split [OF ge [OF this] lt] show "\<exists>t. s = ?bs @ t \<and> user_string mp m root ?e t"
                unfolding e by (metis append_take_drop_id)
            next
              assume "\<exists>t. s = ?bs @ t \<and> user_string mp m root ?e t"
              then obtain t where t: "s = ?bs @ t" "user_string mp m root ?e t" by blast
              then show "user_string mp m root a s"
                using user_string_split [of ?n s a mp m root] lt z ub e by simp
            qed
            show ?thesis unfolding ih sp by (auto simp: add.assoc)
          qed
        qed
      qed
    qed
  qed
qed

lemma copied_back:
  assumes "sane_space mp m root" "pages_inj mp m root" "length src < 2 ^ 63" "copy_to_user mp root dst src m = (Inr (), m')"
  shows "with_user_bytes mp m' root dst (of_nat (length src)) = Inr src \<and> load_bytes mp m' root dst (length src) = src"
proof (cases "src = []")
  case True
  then show ?thesis using assms(4) by (auto simp: copy_to_user_def with_user_bytes_def load_bytes_def split: sum.splits)
next
  case False
  have ok: "validate dst (of_nat (length src)) = Inr () \<and> user_range_accessible mp m root dst (of_nat (length src)) True"
    and m': "m' = store_bytes mp root dst src m"
    using False assms(4) by (auto simp: copy_to_user_def split: sum.splits if_splits)
  then have ub: "unat dst + length src \<le> 2 ^ 47" "\<forall>i < length src. user_byte mp m root True (dst + of_nat i)"
    using access_ok_iff [of "length src" dst mp m root True] False assms(3) by auto
  have w: "writable_at mp m root dst (length src)" using assms(1,2) ub(2) by (simp add: writable_at_def)
  have t: "translate mp m' root = translate mp m root"
    using sane_translate [OF assms(1) store_bytes_ok [OF assms(1) ub(2)]] m' by simp
  have "load_bytes mp m' root dst (length src) = src"
    using load_store_inside [OF w] assms(3) m' by (intro nth_equalityI) (simp_all add: load_bytes_def)
  moreover have "user_byte mp m' root False (dst + of_nat i)" if "i < length src" for i
    using ub(2) [rule_format, OF that] t by (auto simp: user_byte_def page_allows_def split: option.splits)
  ultimately show ?thesis using ub(1) assms(3) by (simp add: with_user_bytes_Inr)
qed

section \<open>A small address space\<close>

text \<open>Two user pages next to each other; the second of three entries is read-only.\<close>

definition demo_mapper :: mapper where
  "demo_mapper = \<lparr>translate = (\<lambda>m root p.
       if p = 0x400000 then Some (0x10000, 7) else if p = 0x401000 then Some (0x12000, 7)
       else if p = 0x402000 then Some (0x11000, 5) else None),
     translate_page = (\<lambda>m root p. if p = 0x400000 then Some 0x10000 else if p = 0x401000 then Some 0x12000
       else if p = 0x402000 then Some 0x11000 else None),
     map_to = (\<lambda>root page f fl s. (Inl ''full'', s)), unmap = (\<lambda>root page m. (None, m))\<rparr>"

lemma demo_sane: "sane_space demo_mapper m root" "pages_inj demo_mapper m root"
  by (auto simp: sane_space_def pages_inj_def demo_mapper_def page_of_def split: if_splits)

section \<open>Properties\<close>

text \<open>
  C1: A system call writes nowhere but into the calling process. \<open>copy_to_user\<close> either refuses
  with \<open>EFAULT\<close> and changes nothing, or every byte of the destination is in the user half on a page
  the process may write; in both cases the rest of physical memory -- the kernel, the page tables,
  other processes -- and the translation are as before.
\<close>

theorem copy_to_user_isolated:
  assumes "sane_space mp m root" "length src < 2 ^ 64" "copy_to_user mp root dst src m = (r, m')"
  shows "same_kernel mp root m m' \<and> translate mp m' root = translate mp m root \<and>
    (case r of Inl e \<Rightarrow> e = EFAULT \<and> m' = m
     | Inr _ \<Rightarrow> \<forall>i < length src. user_byte mp m root True (dst + of_nat i))"
proof (cases r)
  case (Inl e)
  then have "e = EFAULT \<and> m' = m"
    using assms(3) validate_Inl by (auto simp: copy_to_user_def split: sum.splits if_splits)
  with Inl show ?thesis by simp
next
  case (Inr u)
  have ub: "\<forall>i < length src. user_byte mp m root True (dst + of_nat i)"
  proof (cases "src = []")
    case False
    then have "validate dst (of_nat (length src)) = Inr () \<and> user_range_accessible mp m root dst (of_nat (length src)) True"
      using Inr assms(3) by (auto simp: copy_to_user_def split: sum.splits if_splits)
    then show ?thesis using access_ok_iff [of "length src"] False assms(2) by simp
  qed simp
  have "m' = store_bytes mp root dst src m"
    using Inr assms(3) by (auto simp: copy_to_user_def split: sum.splits if_splits)
  with store_bytes_ok [OF assms(1) ub] have k: "same_kernel mp root m m'" by simp
  with ub Inr sane_translate [OF assms(1) k] show ?thesis by simp
qed

theorem copy_to_user_isolated_witness:
  "fst (copy_to_user demo_mapper 0 0x400FFF [1, 2] (\<lambda>_. 0)) = Inr () \<and>
   user_byte demo_mapper (\<lambda>_. 0) 0 True 0x401000"
proof -
  let ?m = "\<lambda>_ :: u64. 0 :: u64"
  obtain r m' where r: "copy_to_user demo_mapper 0 0x400FFF [1, 2] ?m = (r, m')" by (metis prod.collapse)
  have "fst (copy_to_user demo_mapper 0 0x400FFF [1, 2] ?m) = Inr ()" by code_simp
  with r have i: "r = Inr ()" by simp
  from copy_to_user_isolated [OF demo_sane(1) _ r] i have "\<forall>i < 2. user_byte demo_mapper ?m 0 True (0x400FFF + of_nat i)"
    by simp
  from this [rule_format, of 1] r i show ?thesis by simp
qed

text \<open>
  C32: What the kernel copies out is what the process sees: after a successful \<open>copy_to_user\<close>, the
  same range reads back as the bytes copied, across page boundaries as well.
\<close>

theorem copy_then_read:
  assumes "sane_space mp m root" "pages_inj mp m root" "length src < 2 ^ 63" "copy_to_user mp root dst src m = (Inr (), m')"
  shows "with_user_bytes mp m' root dst (of_nat (length src)) = Inr src"
  using copied_back [OF assms] by blast

theorem copy_then_read_witness:
  "with_user_bytes demo_mapper (snd (copy_to_user demo_mapper 0 0x400FFF [1, 2] (\<lambda>_. 0))) 0 0x400FFF 2 = Inr [1, 2]"
proof -
  have "fst (copy_to_user demo_mapper 0 0x400FFF [1, 2] (\<lambda>_. 0)) = Inr ()" by code_simp
  then have "copy_to_user demo_mapper 0 0x400FFF [1, 2] (\<lambda>_. 0) =
      (Inr (), snd (copy_to_user demo_mapper 0 0x400FFF [1, 2] (\<lambda>_. 0)))" by (simp add: prod_eq_iff)
  from copy_then_read [OF demo_sane _ this] show ?thesis by simp
qed

text \<open>
  C31: A path argument is read exactly. \<open>read_user_cstr\<close> returns a string if and only if that
  string, shorter than \<open>PATH_MAX\<close>, stands at the pointer with its terminating NUL, all of it on
  pages of the process; a string that ends right before an unmapped page is still accepted.
\<close>

theorem read_user_cstr_exact:
  "read_user_cstr mp m root ptr = Inr s \<longleftrightarrow> length s < PATH_MAX \<and> user_string mp m root ptr s"
proof (cases "unat ptr + 1 \<le> 2 ^ 47")
  case True
  then have "validate ptr 1 = Inr ()" by (simp add: validate_Inr)
  with True show ?thesis using read_cstr_loop_iff [of ptr mp m root "[]" s] by (simp add: read_user_cstr_def)
next
  case False
  then have "validate ptr 1 \<noteq> Inr ()" by (simp add: validate_Inr)
  with False show ?thesis by (cases "validate ptr 1") (auto simp: read_user_cstr_def user_string_def)
qed

end
