(* ===== verification/Vga.thy ===== *)
theory Vga
  imports Rust_Str
begin

text \<open>
  The text screen, \<open>src/drivers/vga.rs\<close>: the writer with its cursor column, and video memory as a
  function from cell numbers to cells. The screen is shown to be a terminal: it holds the last 25
  rows of the text written, broken at newlines and at the right edge.
\<close>

section \<open>Model\<close>

definition BUFFER_HEIGHT :: nat where
  "BUFFER_HEIGHT = 25"

definition BUFFER_WIDTH :: nat where
  "BUFFER_WIDTH = 80"

datatype Color = Black | Blue | Green | Cyan | Red | Magenta | Brown | LightGray | DarkGray
  | LightBlue | LightGreen | LightCyan | LightRed | Pink | Yellow | White

text \<open>\<open>color as u8\<close>: the number of the variant.\<close>

fun color_u8 :: "Color \<Rightarrow> u8" where
  "color_u8 Black = 0"
| "color_u8 Blue = 1"
| "color_u8 Green = 2"
| "color_u8 Cyan = 3"
| "color_u8 Red = 4"
| "color_u8 Magenta = 5"
| "color_u8 Brown = 6"
| "color_u8 LightGray = 7"
| "color_u8 DarkGray = 8"
| "color_u8 LightBlue = 9"
| "color_u8 LightGreen = 10"
| "color_u8 LightCyan = 11"
| "color_u8 LightRed = 12"
| "color_u8 Pink = 13"
| "color_u8 Yellow = 14"
| "color_u8 White = 15"

definition ColorCode_new :: "Color \<Rightarrow> Color \<Rightarrow> u8" where
  "ColorCode_new fg bg = push_bit 4 (color_u8 bg) OR color_u8 fg"

record ScreenChar =
  ascii :: u8
  color :: u8

record Writer =
  column :: nat
  wcolor :: u8

definition Writer_new :: Writer where
  "Writer_new = \<lparr>column = 0, wcolor = ColorCode_new White Black\<rparr>"

type_synonym vram = "nat \<Rightarrow> ScreenChar"
type_synonym screen = "Writer \<times> vram"

text \<open>The cell number of \<open>(row, col)\<close>; the cell lies at \<open>0xb8000\<close> plus twice that number.\<close>

definition cell :: "nat \<Rightarrow> nat \<Rightarrow> nat" where
  "cell row col = row * BUFFER_WIDTH + col"

fun clear_cols :: "ScreenChar \<Rightarrow> nat \<Rightarrow> nat list \<Rightarrow> vram \<Rightarrow> vram" where
  "clear_cols b row [] v = v"
| "clear_cols b row (c # cs) v = clear_cols b row cs (v(cell row c := b))"

definition clear_row :: "nat \<Rightarrow> screen \<Rightarrow> screen" where
  "clear_row row s = (case s of (w, v) \<Rightarrow>
     (w, clear_cols \<lparr>ascii = 32, color = wcolor w\<rparr> row [0..<BUFFER_WIDTH] v))"

fun copy_cols :: "nat \<Rightarrow> nat list \<Rightarrow> vram \<Rightarrow> vram" where
  "copy_cols row [] v = v"
| "copy_cols row (c # cs) v = copy_cols row cs (v(cell (row - 1) c := v (cell row c)))"

fun copy_rows :: "nat list \<Rightarrow> vram \<Rightarrow> vram" where
  "copy_rows [] v = v"
| "copy_rows (r # rs) v = copy_rows rs (copy_cols r [0..<BUFFER_WIDTH] v)"

definition new_line :: "screen \<Rightarrow> screen" where
  "new_line s = (case s of (w, v) \<Rightarrow>
     (case clear_row (BUFFER_HEIGHT - 1) (w, copy_rows [1..<BUFFER_HEIGHT] v) of
        (w, v) \<Rightarrow> (w\<lparr>column := 0\<rparr>, v)))"

definition write_byte :: "u8 \<Rightarrow> screen \<Rightarrow> screen" where
  "write_byte b s =
     (if b = 10 then new_line s
      else
        (case (if column (fst s) \<ge> BUFFER_WIDTH then new_line s else s) of
           (w, v) \<Rightarrow> (w\<lparr>column := column w + 1\<rparr>,
             v(cell (BUFFER_HEIGHT - 1) (column w) := \<lparr>ascii = b, color = wcolor w\<rparr>))))"

text \<open>What is printed for a byte.\<close>

definition printable :: "u8 \<Rightarrow> u8" where
  "printable b = (if (0x20 \<le> b \<and> b \<le> 0x7E) \<or> b = 10 then b else 0xFE)"

fun write_filtered :: "bytes \<Rightarrow> screen \<Rightarrow> screen" where
  "write_filtered [] s = s"
| "write_filtered (b # bs) s = write_filtered bs (write_byte (printable b) s)"

definition vga_backspace :: "screen \<Rightarrow> screen" where
  "vga_backspace s = (case s of (w, v) \<Rightarrow>
     if column w > 0 then
       (w\<lparr>column := column w - 1\<rparr>,
        v(cell (BUFFER_HEIGHT - 1) (column w - 1) := \<lparr>ascii = 32, color = wcolor w\<rparr>))
     else (w, v))"

definition vga_write_bytes :: "bytes \<Rightarrow> screen \<Rightarrow> screen" where
  "vga_write_bytes bs s = write_filtered bs s"

section \<open>Scrolling\<close>

lemma cell_div: "c < 80 \<Longrightarrow> cell r c div 80 = r" "c < 80 \<Longrightarrow> cell r c mod 80 = c"
  by (simp_all add: cell_def BUFFER_WIDTH_def)

lemma cell_inj:
  assumes "c < 80" "c' < 80"
  shows "cell r c = cell r' c' \<longleftrightarrow> r = r' \<and> c = c'"
  using cell_div [OF assms(1), of r] cell_div [OF assms(2), of r'] by auto

lemma clear_cols_at: "\<lbrakk>set cs \<subseteq> {..<80}; c < 80\<rbrakk> \<Longrightarrow>
   clear_cols b row cs v (cell r c) = (if r = row \<and> c \<in> set cs then b else v (cell r c))"
  by (induction cs arbitrary: v) (auto simp: cell_inj)

lemma copy_cols_at: "\<lbrakk>set cs \<subseteq> {..<80}; distinct cs; c < 80; 0 < row\<rbrakk> \<Longrightarrow>
   copy_cols row cs v (cell r c) = (if r = row - 1 \<and> c \<in> set cs then v (cell row c) else v (cell r c))"
proof (induction cs arbitrary: v)
  case (Cons a cs)
  then have "row \<noteq> row - 1" by simp
  with Cons show ?case by (auto simp: cell_inj)
qed simp

lemma copy_rows_at:
  assumes "c < 80" "0 < m"
  shows "copy_rows [m..<n] v (cell r c) = (if m \<le> r + 1 \<and> r + 1 < n then v (cell (r + 1) c) else v (cell r c))"
  using assms(2)
proof (induction "n - m" arbitrary: m v)
  case (Suc k)
  then have l: "[m..<n] = m # [Suc m..<n]" by (simp add: upt_conv_Cons)
  have cc: "copy_cols m [0..<BUFFER_WIDTH] v (cell r' c) =
      (if r' = m - 1 then v (cell m c) else v (cell r' c))" for r'
    using assms(1) Suc.prems by (subst copy_cols_at) (auto simp: BUFFER_WIDTH_def)
  have "copy_rows [Suc m..<n] (copy_cols m [0..<BUFFER_WIDTH] v) (cell r c) =
      (if Suc m \<le> r + 1 \<and> r + 1 < n then copy_cols m [0..<BUFFER_WIDTH] v (cell (r + 1) c)
       else copy_cols m [0..<BUFFER_WIDTH] v (cell r c))"
    using Suc.hyps(1) [of "Suc m"] Suc.hyps(2) Suc.prems by simp
  with l cc Suc.prems Suc.hyps(2) show ?case by (auto simp: not_le Suc_le_eq)
qed auto

lemma new_line_at:
  assumes "c < 80"
  shows "snd (new_line (w, v)) (cell r c) =
    (if r < 24 then v (cell (r + 1) c) else if r = 24 then \<lparr>ascii = 32, color = wcolor w\<rparr> else v (cell r c))"
  using assms
  by (simp add: new_line_def clear_row_def clear_cols_at copy_rows_at BUFFER_HEIGHT_def BUFFER_WIDTH_def
      lessThan_atLeast0 split: prod.splits)

lemma new_line_writer [simp]: "fst (new_line s) = fst s\<lparr>column := 0\<rparr>"
  by (simp add: new_line_def clear_row_def split: prod.splits)

section \<open>A terminal\<close>

text \<open>
  The text as a terminal has it: the row being written and the completed rows, latest first. A row
  ends at a newline, and at the right edge when another character comes.
\<close>

type_synonym tty = "bytes \<times> bytes list"

fun tty_put :: "u8 \<Rightarrow> tty \<Rightarrow> tty" where
  "tty_put b (cur, rows) =
     (if b = 10 then ([], cur # rows)
      else if length cur \<ge> 80 then ([b], cur # rows)
      else (cur @ [b], rows))"

fun tty_erase :: "tty \<Rightarrow> tty" where
  "tty_erase (cur, rows) = (butlast cur, rows)"

datatype screen_op = Put u8 | Erase

fun run_screen :: "screen_op list \<Rightarrow> screen \<Rightarrow> screen" where
  "run_screen [] s = s"
| "run_screen (Put b # ops) s = run_screen ops (vga_write_bytes [b] s)"
| "run_screen (Erase # ops) s = run_screen ops (vga_backspace s)"

fun run_tty :: "screen_op list \<Rightarrow> tty \<Rightarrow> tty" where
  "run_tty [] t = t"
| "run_tty (Put b # ops) t = run_tty ops (tty_put (printable b) t)"
| "run_tty (Erase # ops) t = run_tty ops (tty_erase t)"

text \<open>Row \<open>r\<close> of the screen shows \<open>line\<close>; behind its end it is blank, except in the row the screen
  started with, whose rest was there before.\<close>

definition row_shows :: "screen \<Rightarrow> nat \<Rightarrow> bytes \<Rightarrow> bool \<Rightarrow> bool" where
  "row_shows s r line blank \<longleftrightarrow> length line \<le> 80 \<and>
     (\<forall>c < length line. snd s (cell r c) = \<lparr>ascii = line ! c, color = wcolor (fst s)\<rparr>) \<and>
     (blank \<longrightarrow> (\<forall>c < 80. length line \<le> c \<longrightarrow> snd s (cell r c) = \<lparr>ascii = 32, color = wcolor (fst s)\<rparr>))"

definition shows_tty :: "screen \<Rightarrow> tty \<Rightarrow> bool" where
  "shows_tty s t \<longleftrightarrow> (case t of (cur, rows) \<Rightarrow>
     column (fst s) = length cur \<and> row_shows s 24 cur (rows \<noteq> []) \<and>
     (\<forall>k < length rows. k < 24 \<longrightarrow> row_shows s (23 - k) (rows ! k) (Suc k < length rows)))"

lemma row_shows_cong:
  assumes "row_shows s r line b" "wcolor (fst s') = wcolor (fst s)"
    "\<And>c. c < 80 \<Longrightarrow> snd s' (cell r' c) = snd s (cell r c)"
  shows "row_shows s' r' line b"
proof -
  have "length line \<le> 80" using assms(1) by (simp add: row_shows_def)
  then have "snd s' (cell r' c) = snd s (cell r c)" if "c < length line" for c using assms(3) that by simp
  with assms(1,3) show ?thesis by (simp add: row_shows_def assms(2))
qed

lemma shows_new_line:
  assumes "shows_tty s (cur, rows)"
  shows "shows_tty (new_line s) ([], cur # rows)"
proof -
  obtain w v where s: "s = (w, v)" by (cases s)
  have up: "row_shows (new_line s) r line b" if "row_shows s (Suc r) line b" "r < 24" for r line b
    using that by (auto simp: s new_line_at intro: row_shows_cong)
  have bottom: "row_shows (new_line s) 24 [] True" by (simp add: row_shows_def s new_line_at)
  have "row_shows (new_line s) (23 - k) ((cur # rows) ! k) (Suc k < length (cur # rows))"
    if k: "k < length (cur # rows)" "k < 24" for k
  proof (cases k)
    case 0
    then show ?thesis using up [of 23 cur "rows \<noteq> []"] assms by (simp add: shows_tty_def)
  next
    case (Suc j)
    then have "row_shows s (23 - j) (rows ! j) (Suc j < length rows)"
      using assms k by (simp add: shows_tty_def)
    moreover have "Suc (23 - k) = 23 - j" using Suc k by simp
    ultimately show ?thesis using up [of "23 - k"] Suc by simp
  qed
  with bottom show ?thesis by (simp add: shows_tty_def)
qed

lemma shows_put_char:
  assumes "shows_tty (w, v) (cur, rows)" "length cur < 80"
  shows "shows_tty (w\<lparr>column := column w + 1\<rparr>, v(cell 24 (column w) := \<lparr>ascii = b, color = wcolor w\<rparr>)) (cur @ [b], rows)"
proof -
  have other: "row_shows (w\<lparr>column := column w + 1\<rparr>, v(cell 24 (column w) := x)) r line bl"
    if "row_shows (w, v) r line bl" "r \<noteq> 24" for r line bl x
    using that assms by (auto simp: cell_inj shows_tty_def intro: row_shows_cong [of "(w, v)" r])
  have "row_shows (w\<lparr>column := column w + 1\<rparr>, v(cell 24 (column w) := \<lparr>ascii = b, color = wcolor w\<rparr>)) 24 (cur @ [b]) (rows \<noteq> [])"
    using assms by (auto simp: shows_tty_def row_shows_def cell_inj nth_append less_Suc_eq)
  moreover have "row_shows (w\<lparr>column := column w + 1\<rparr>, v(cell 24 (column w) := \<lparr>ascii = b, color = wcolor w\<rparr>))
      (23 - k) (rows ! k) (Suc k < length rows)" if "k < length rows" "k < 24" for k
    using other [of "23 - k"] assms(1) that by (simp add: shows_tty_def)
  ultimately show ?thesis using assms(1) by (simp add: shows_tty_def)
qed

lemma shows_write_byte:
  assumes "shows_tty s t"
  shows "shows_tty (write_byte b s) (tty_put b t)"
proof -
  obtain cur rows where t: "t = (cur, rows)" by (cases t)
  note s = assms [unfolded t]
  have col: "column (fst s) = length cur" "length cur \<le> 80" using s by (auto simp: shows_tty_def row_shows_def)
  consider "b = 10" | "b \<noteq> 10" "length cur \<ge> 80" | "b \<noteq> 10" "length cur < 80" by linarith
  then show ?thesis
  proof cases
    case 2
    obtain w v where n: "new_line s = (w, v)" by (cases "new_line s")
    from 2 shows_put_char [of w v "[]" "cur # rows" b] shows_new_line [OF s] col
    show ?thesis by (simp add: t n write_byte_def BUFFER_WIDTH_def BUFFER_HEIGHT_def)
  next
    case 3
    obtain w v where n: "s = (w, v)" by (cases s)
    from 3 shows_put_char [of w v cur rows b] s col
    show ?thesis by (simp add: t n write_byte_def BUFFER_WIDTH_def BUFFER_HEIGHT_def)
  qed (simp add: t write_byte_def shows_new_line [OF s])
qed

lemma shows_backspace:
  assumes "shows_tty s t"
  shows "shows_tty (vga_backspace s) (tty_erase t)"
proof -
  obtain w v cur rows where st: "s = (w, v)" "t = (cur, rows)" by (cases s, cases t)
  note a = assms [unfolded st]
  show ?thesis
  proof (cases "cur = []")
    case False
    let ?b = "\<lparr>ascii = 32, color = wcolor w\<rparr>"
    have l: "length cur \<le> 80" "column w = length cur" "length cur \<noteq> 0" using a False by (auto simp: shows_tty_def row_shows_def)
    have other: "row_shows (w\<lparr>column := x\<rparr>, v(cell 24 (length cur - 1) := y)) r line bl"
      if "row_shows (w, v) r line bl" "r \<noteq> 24" for r line bl x y
      using that l by (auto simp: cell_inj intro: row_shows_cong [of "(w, v)" r])
    have bottom: "row_shows (w\<lparr>column := length cur - 1\<rparr>, v(cell 24 (length cur - 1) := ?b)) 24 (butlast cur) (rows \<noteq> [])"
      using a l by (auto simp: shows_tty_def row_shows_def cell_inj nth_butlast)
    have "row_shows (w\<lparr>column := length cur - 1\<rparr>, v(cell 24 (length cur - 1) := ?b)) (23 - k) (rows ! k) (Suc k < length rows)"
      if "k < length rows" "k < 24" for k
      using other [of "23 - k"] a that by (simp add: shows_tty_def)
    with bottom l show ?thesis by (simp add: st shows_tty_def vga_backspace_def BUFFER_HEIGHT_def)
  qed (use a in \<open>simp add: st shows_tty_def vga_backspace_def\<close>)
qed

section \<open>Properties\<close>

text \<open>
  C34: The screen is a terminal. From any screen at boot, after any sequence of characters printed
  and erased, the bottom row shows the row being written, the rows above it the completed rows of
  the text in order (as many as fit), each broken at 80 columns, and the cursor stands behind the
  last character; bytes that the font does not have appear as the placeholder.
\<close>

theorem screen_shows_text:
  "shows_tty (run_screen ops (Writer_new, v)) (run_tty ops ([], []))"
proof -
  have "shows_tty s t \<Longrightarrow> shows_tty (run_screen ops s) (run_tty ops t)" for s t
    by (induction ops s arbitrary: t rule: run_screen.induct)
       (auto simp: vga_write_bytes_def shows_write_byte shows_backspace)
  moreover have "shows_tty (Writer_new, v) ([], [])"
    by (simp add: shows_tty_def row_shows_def Writer_new_def)
  ultimately show ?thesis by blast
qed

end
