(* ===== verification/Console.thy ===== *)
theory Console
  imports Vga Threads
begin

text \<open>
  The line discipline of standard input, \<open>src/drivers/console.rs\<close>: typed characters are echoed and
  edited in \<open>line\<close>; at Enter the line moves to \<open>ready\<close>, from where reads take it.
\<close>

section \<open>Model\<close>

record Console =
  line :: bytes
  ready :: bytes

definition console_init :: "Console option" where
  "console_init = Some \<lparr>line = [], ready = []\<rparr>"

datatype Echo = EchoChar u8 | EchoNewline | EchoBackspace | EchoNothing

text \<open>The part of \<open>feed_char\<close> under the lock.\<close>

definition feed_byte :: "u8 \<Rightarrow> Console \<Rightarrow> Echo \<times> Console" where
  "feed_byte byte con =
     (if byte = 10 \<or> byte = 13 then
        (EchoNewline, con\<lparr>line := [], ready := ready con @ line con @ [10]\<rparr>)
      else if byte = 0x08 \<or> byte = 0x7F then
        (if line con \<noteq> [] then (EchoBackspace, con\<lparr>line := butlast (line con)\<rparr>) else (EchoNothing, con))
      else if 0x20 \<le> byte \<and> byte \<le> 0x7E then (EchoChar byte, con\<lparr>line := line con @ [byte]\<rparr>)
      else (EchoNothing, con))"

fun echo_screen :: "Echo \<Rightarrow> screen \<Rightarrow> screen" where
  "echo_screen (EchoChar b) s = vga_write_bytes [b] s"
| "echo_screen EchoNewline s = vga_write_bytes [10] s"
| "echo_screen EchoBackspace s = vga_backspace s"
| "echo_screen EchoNothing s = s"

text \<open>\<open>c\<close> is the code point of the character.\<close>

definition feed_char :: "u32 \<Rightarrow> (Console option \<times> screen \<times> mach, string, unit) eff" where
  "feed_char c st =
     (if \<not> c < 128 then (Inr (), st)
      else
        (case st of (con, scr, m) \<Rightarrow>
           (let (echo, con') = (case con of
                  None \<Rightarrow> (EchoNothing, None)
                | Some con \<Rightarrow> (case feed_byte (ucast c) con of (e, con) \<Rightarrow> (e, Some con)))
            in if echo = EchoNewline
               then (case wake_stdin_readers m of (r, m') \<Rightarrow> (r, con', echo_screen echo scr, m'))
               else (Inr (), con', echo_screen echo scr, m))))"

definition take_ready :: "nat \<Rightarrow> Console option \<Rightarrow> bytes \<times> Console option" where
  "take_ready maxlen guard =
     (case guard of
        Some con \<Rightarrow>
          (let line_len = (case position (\<lambda>b. b = 10) (ready con) of None \<Rightarrow> length (ready con) | Some i \<Rightarrow> i + 1);
               n = min maxlen line_len
           in (take n (ready con), Some (con\<lparr>ready := drop n (ready con)\<rparr>)))
      | None \<Rightarrow> ([], None))"

fun push_fronts :: "bytes \<Rightarrow> bytes \<Rightarrow> bytes" where
  "push_fronts [] q = q"
| "push_fronts (b # bs) q = push_fronts bs (b # q)"

definition unread :: "bytes \<Rightarrow> Console option \<Rightarrow> Console option" where
  "unread bs guard =
     (if bs = [] then guard
      else case guard of None \<Rightarrow> None | Some con \<Rightarrow> Some (con\<lparr>ready := push_fronts (rev bs) (ready con)\<rparr>))"

section \<open>Taking and putting back\<close>

lemma push_fronts_rev: "push_fronts bs q = rev bs @ q"
  by (induction bs arbitrary: q) auto

lemma unread_take [simp]: "take_ready n g = (bs, g') \<Longrightarrow> unread bs g' = g"
  by (auto simp: take_ready_def unread_def Let_def push_fronts_rev append_take_drop_id append_eq_conv_conj
      split: option.splits)

lemma position_le: "position P xs = Some i \<Longrightarrow> i < length xs \<and> P (xs ! i) \<and> (\<forall>j < i. \<not> P (xs ! j))"
  by (induction xs arbitrary: i) (auto simp: nth_Cons' split: if_splits)

lemma no_position: "position P xs = None \<longleftrightarrow> (\<forall>x \<in> set xs. \<not> P x)"
  by (induction xs) auto

lemma take_ready_ready:
  assumes "take_ready n (Some con) = (bs, g')"
  shows "\<exists>con'. g' = Some con' \<and> line con' = line con \<and> bs @ ready con' = ready con"
  using assms by (auto simp: take_ready_def Let_def)

lemma take_ready_one_line:
  assumes "take_ready n (Some con) = (bs, g')"
  shows "length bs \<le> n \<and> 10 \<notin> set (butlast bs)"
proof -
  define k where "k = min n (case position (\<lambda>b. b = 10) (ready con) of None \<Rightarrow> length (ready con) | Some i \<Rightarrow> i + 1)"
  have bs: "bs = take k (ready con)" using assms by (auto simp: take_ready_def k_def Let_def)
  have "ready con ! j \<noteq> 10" if "j < k - 1" "j < length (ready con)" for j
    using that position_le [of "\<lambda>b. b = 10" "ready con"] no_position [of "\<lambda>b. b = 10" "ready con"]
    by (auto simp: k_def split: option.splits)
  then have "10 \<notin> set (butlast bs)" by (auto simp: bs in_set_conv_nth nth_butlast)
  then show ?thesis by (simp add: bs k_def)
qed

lemma take_ready_some:
  assumes "ready con \<noteq> []" "0 < n" "take_ready n (Some con) = (bs, g')"
  shows "bs \<noteq> []"
  using assms by (auto simp: take_ready_def Let_def min_def split: option.splits if_splits)

section \<open>Line editing as a specification\<close>

text \<open>The keys that make up the line being typed, after erasing.\<close>

fun edit :: "u8 list \<Rightarrow> bytes \<Rightarrow> bytes" where
  "edit [] acc = acc"
| "edit (k # ks) acc =
     (if k = 0x08 \<or> k = 0x7F then edit ks (butlast acc)
      else if 0x20 \<le> k \<and> k \<le> 0x7E then edit ks (acc @ [k])
      else edit ks acc)"

definition is_enter :: "u8 \<Rightarrow> bool" where
  "is_enter k \<longleftrightarrow> k = 10 \<or> k = 13"

text \<open>The text of the completed lines of a sequence of keys: each line as edited, ended by a newline.\<close>

function cooked :: "u8 list \<Rightarrow> bytes" where
  "cooked ks =
     (case dropWhile (Not \<circ> is_enter) ks of
        [] \<Rightarrow> []
      | _ # rest \<Rightarrow> edit (takeWhile (Not \<circ> is_enter) ks) [] @ [10] @ cooked rest)"
  by pat_completeness auto
termination
proof (relation "measure length")
  fix ks rest :: "u8 list" and x
  assume "dropWhile (Not \<circ> is_enter) ks = x # rest"
  from arg_cong [OF this, of length] length_dropWhile_le [of "Not \<circ> is_enter" ks] show "(rest, ks) \<in> measure length" by simp
qed simp

declare cooked.simps [simp del]

text \<open>The keys of the line that is not complete yet.\<close>

fun pending :: "u8 list \<Rightarrow> u8 list" where
  "pending [] = []"
| "pending (k # ks) = (if is_enter k then pending ks else if \<exists>x \<in> set ks. is_enter x then pending ks else k # ks)"

lemma cooked_snoc_enter:
  "is_enter k \<Longrightarrow> cooked (ks @ [k]) = cooked ks @ edit (pending ks) [] @ [10]"
proof (induction ks rule: cooked.induct)
  case (1 ks)
  show ?case
  proof (cases "\<exists>x \<in> set ks. is_enter x")
    case False
    then have d: "dropWhile (Not \<circ> is_enter) ks = []" and t: "takeWhile (Not \<circ> is_enter) ks = ks" by auto
    have p: "pending ks = ks" using False by (cases ks) auto
    have "dropWhile (Not \<circ> is_enter) (ks @ [k]) = [k]" "takeWhile (Not \<circ> is_enter) (ks @ [k]) = ks"
      using False 1(2) by (auto simp: dropWhile_append takeWhile_append)
    then show ?thesis by (simp add: cooked.simps [of "ks @ [k]"] cooked.simps [of ks] cooked.simps [of "[]"] d p)
  next
    case True
    then obtain x rest where d: "dropWhile (Not \<circ> is_enter) ks = x # rest"
      by (metis comp_apply dropWhile_eq_Nil_conv list.exhaust)
    have p: "pending ks = pending rest"
    proof -
      have "pending ks = pending (dropWhile (Not \<circ> is_enter) ks)" using True by (induction ks) auto
      moreover have "is_enter x" using d hd_dropWhile [of "Not \<circ> is_enter" ks] by simp
      ultimately show ?thesis by (simp add: d)
    qed
    have "dropWhile (Not \<circ> is_enter) (ks @ [k]) = x # rest @ [k]"
      "takeWhile (Not \<circ> is_enter) (ks @ [k]) = takeWhile (Not \<circ> is_enter) ks"
      using True d by (auto simp: dropWhile_append takeWhile_append)
    with 1(1) [OF d] 1(2) show ?thesis by (simp add: cooked.simps [of "ks @ [k]"] cooked.simps [of ks] d p)
  qed
qed

lemma cooked_snoc_other:
  "\<not> is_enter k \<Longrightarrow> cooked (ks @ [k]) = cooked ks"
proof (induction ks rule: cooked.induct)
  case (1 ks)
  show ?case
  proof (cases "dropWhile (Not \<circ> is_enter) ks")
    case Nil
    then have "dropWhile (Not \<circ> is_enter) (ks @ [k]) = []" using 1(2) by (auto simp: dropWhile_eq_Nil_conv)
    then show ?thesis unfolding cooked.simps [of "ks @ [k]"] cooked.simps [of ks] Nil by simp
  next
    case (Cons x rest)
    then have "\<exists>x \<in> set ks. is_enter x" by (metis comp_apply dropWhile_eq_Nil_conv list.distinct(1))
    then have "dropWhile (Not \<circ> is_enter) (ks @ [k]) = x # rest @ [k]"
      "takeWhile (Not \<circ> is_enter) (ks @ [k]) = takeWhile (Not \<circ> is_enter) ks"
      using Cons by (auto simp: dropWhile_append takeWhile_append)
    with 1(1) [OF Cons] 1(2) Cons show ?thesis by (simp add: cooked.simps [of "ks @ [k]"] cooked.simps [of ks])
  qed
qed

lemma pending_snoc:
  "pending (ks @ [k]) = (if is_enter k then [] else pending ks @ [k])"
  by (induction ks) auto

lemma edit_snoc:
  "edit (ks @ [k]) acc =
     (if k = 0x08 \<or> k = 0x7F then butlast (edit ks acc)
      else if 0x20 \<le> k \<and> k \<le> 0x7E then edit ks acc @ [k] else edit ks acc)"
  by (induction ks arbitrary: acc) auto

text \<open>The console after the keys \<open>ks\<close> when \<open>out\<close> has been taken.\<close>

definition typed :: "u8 list \<Rightarrow> bytes \<Rightarrow> Console \<Rightarrow> bool" where
  "typed ks out con \<longleftrightarrow> line con = edit (pending ks) [] \<and> out @ ready con = cooked ks"

lemma typed_feed:
  assumes "typed ks out con" "feed_byte k con = (e, con')"
  shows "typed (ks @ [k]) out con'"
  using assms
  by (cases "is_enter k")
     (auto simp: typed_def feed_byte_def is_enter_def cooked_snoc_enter cooked_snoc_other pending_snoc edit_snoc
       split: if_splits)

lemma typed_take:
  assumes "typed ks out con" "take_ready n (Some con) = (bs, g')"
  shows "\<exists>con'. g' = Some con' \<and> typed ks (out @ bs) con'"
  using take_ready_ready [OF assms(2)] assms(1) by (auto simp: typed_def)

section \<open>Properties\<close>

datatype console_op = Key u32 | Take nat | Refused nat

text \<open>A run of the console: keys typed, lines taken and delivered, and lines taken whose delivery
  failed and that were put back. Collected are the ASCII keys and the bytes delivered.\<close>

fun run_console :: "console_op list \<Rightarrow> u8 list \<times> bytes \<Rightarrow> Console option \<times> screen \<times> mach \<Rightarrow>
    (u8 list \<times> bytes) \<times> (Console option \<times> screen \<times> mach)" where
  "run_console [] h s = (h, s)"
| "run_console (Key c # ops) (ks, out) s =
     run_console ops (if c < 128 then ks @ [ucast c] else ks, out) (snd (feed_char c s))"
| "run_console (Take n # ops) (ks, out) (g, s) =
     (case take_ready n g of (bs, g') \<Rightarrow> run_console ops (ks, out @ bs) (g', s))"
| "run_console (Refused n # ops) (ks, out) (g, s) =
     (case take_ready n g of (bs, g') \<Rightarrow> run_console ops (ks, out) (unread bs g', s))"

lemma typed_run:
  assumes "run_console ops (ks, out) (Some con, scr, m) = ((ks', out'), s')" "typed ks out con"
  shows "\<exists>con'. fst s' = Some con' \<and> typed ks' out' con'"
  using assms
proof (induction ops arbitrary: ks out con scr m)
  case (Cons op ops)
  show ?case
  proof (cases op)
    case (Key c)
    obtain e con' where f: "feed_byte (ucast c) con = (e, con')" by fastforce
    show ?thesis
    proof (cases "c < 128")
      case True
      have "\<exists>scr' m'. snd (feed_char c (Some con, scr, m)) = (Some con', scr', m')"
        using True f by (cases "wake_stdin_readers m", cases "e = EchoNewline") (simp_all add: feed_char_def)
      then obtain scr' m' where "snd (feed_char c (Some con, scr, m)) = (Some con', scr', m')" by blast
      with Cons Key True typed_feed [OF Cons.prems(2) f] show ?thesis by simp
    next
      case False
      with Cons Key show ?thesis by (simp add: feed_char_def)
    qed
  next
    case (Take n)
    obtain bs g' where t: "take_ready n (Some con) = (bs, g')" by fastforce
    from typed_take [OF Cons.prems(2) t] obtain con' where c: "g' = Some con'" "typed ks (out @ bs) con'" by blast
    from Cons.prems(1) Take t c(1) have "run_console ops (ks, out @ bs) (Some con', scr, m) = ((ks', out'), s')" by simp
    from Cons.IH [OF this c(2)] show ?thesis .
  next
    case (Refused n)
    obtain bs g' where t: "take_ready n (Some con) = (bs, g')" by fastforce
    with Cons Refused show ?thesis by simp
  qed
qed auto

text \<open>
  C33: Standard input delivers what was typed. Whatever the interleaving of keys, reads and reads
  whose buffer turned out bad, the bytes delivered so far followed by those waiting are exactly the
  completed lines as the user left them after editing, in order and each with its newline.
\<close>

theorem console_delivers_lines:
  "case run_console ops ([], []) (console_init, s) of
     ((ks, out), (g, _)) \<Rightarrow> \<exists>con. g = Some con \<and> out @ ready con = cooked ks \<and> line con = edit (pending ks) []"
proof -
  obtain ks out g s' where r: "run_console ops ([], []) (console_init, s) = ((ks, out), (g, s'))"
    by (metis prod.collapse)
  have "typed [] [] \<lparr>line = [], ready = []\<rparr>" by (simp add: typed_def cooked.simps [of "[]"])
  with typed_run [of ops "[]" "[]" "\<lparr>line = [], ready = []\<rparr>" "fst s" "snd s"] r show ?thesis
    by (auto simp: console_init_def typed_def)
qed

end
