(* ===== verification/Net_Socket.thy ===== *)
theory Net_Socket
  imports Rust_Str Abi
begin

text \<open>
  The socket layer, \<open>src/net/socket.rs\<close>. The TCP/IP stack is the crate \<open>smoltcp\<close>, with the start of
  the interface in \<open>src/net/mod.rs\<close>: both are the parameter \<open>smoltcp\<close>, whose fields are the calls the
  code makes, over the type \<open>'n\<close> of a running stack. A call that polls until something happens is
  modelled as one turn of its loop.
\<close>

section \<open>The stack\<close>

text \<open>Socket handles and IPv4 addresses (four octets).\<close>

type_synonym Handle = u64
type_synonym ipv4 = "u8 list"

datatype SockKind = Udp | Tcp

record 'n smoltcp =
  bring_up :: "'n option"
  dhcp_configure :: "u64 \<Rightarrow> 'n \<Rightarrow> 'n option"
  poll :: "u64 \<Rightarrow> 'n \<Rightarrow> 'n"
  add_udp :: "'n \<Rightarrow> Handle \<times> 'n"
  add_tcp :: "'n \<Rightarrow> Handle \<times> 'n"
  remove :: "Handle \<Rightarrow> 'n \<Rightarrow> 'n"
  udp_bind_port :: "Handle \<Rightarrow> u16 \<Rightarrow> 'n \<Rightarrow> 'n option"
  udp_port :: "Handle \<Rightarrow> 'n \<Rightarrow> u16"
  udp_send_slice :: "Handle \<Rightarrow> bytes \<Rightarrow> ipv4 \<Rightarrow> u16 \<Rightarrow> 'n \<Rightarrow> 'n option"
  udp_can_recv :: "Handle \<Rightarrow> 'n \<Rightarrow> bool"
  udp_recv :: "Handle \<Rightarrow> 'n \<Rightarrow> (bytes \<times> ipv4 \<times> u16) option \<times> 'n"
  tcp_open :: "Handle \<Rightarrow> ipv4 \<Rightarrow> u16 \<Rightarrow> u16 \<Rightarrow> 'n \<Rightarrow> 'n option"
  tcp_may_send :: "Handle \<Rightarrow> 'n \<Rightarrow> bool"
  tcp_is_active :: "Handle \<Rightarrow> 'n \<Rightarrow> bool"
  tcp_can_send :: "Handle \<Rightarrow> 'n \<Rightarrow> bool"
  tcp_send_slice :: "Handle \<Rightarrow> bytes \<Rightarrow> 'n \<Rightarrow> nat option \<times> 'n"
  tcp_can_recv :: "Handle \<Rightarrow> 'n \<Rightarrow> bool"
  tcp_may_recv :: "Handle \<Rightarrow> 'n \<Rightarrow> bool"
  tcp_recv_slice :: "Handle \<Rightarrow> nat \<Rightarrow> 'n \<Rightarrow> bytes option \<times> 'n"

definition INIT_TIMEOUT_NS :: u64 where
  "INIT_TIMEOUT_NS = 5000000000"

definition RECV_TIMEOUT_NS :: u64 where
  "RECV_TIMEOUT_NS = 10000000000"

definition SEND_TIMEOUT_NS :: u64 where
  "SEND_TIMEOUT_NS = 10000000000"

definition CONNECT_TIMEOUT_NS :: u64 where
  "CONNECT_TIMEOUT_NS = 10000000000"

definition EPHEMERAL_BASE :: u16 where
  "EPHEMERAL_BASE = 49152"

definition EPHEMERAL_SPAN :: u16 where
  "EPHEMERAL_SPAN = 16384"

record 'n netst =
  STACK :: "'n option"
  EPHEMERAL_CTR :: u16

definition next_ephemeral_port :: "'n netst \<Rightarrow> u16 \<times> 'n netst" where
  "next_ephemeral_port s =
     (EPHEMERAL_BASE + EPHEMERAL_CTR s mod EPHEMERAL_SPAN, s\<lparr>EPHEMERAL_CTR := EPHEMERAL_CTR s + 1\<rparr>)"

text \<open>\<open>now\<close> is \<open>uptime_ns()\<close>.\<close>

definition ensure_up :: "'n smoltcp \<Rightarrow> u64 \<Rightarrow> 'n netst \<Rightarrow> bool \<times> 'n netst" where
  "ensure_up sm now s =
     (case STACK s of
        Some _ \<Rightarrow> (True, s)
      | None \<Rightarrow>
          (case bring_up sm of
             None \<Rightarrow> (False, s)
           | Some n \<Rightarrow>
               (case dhcp_configure sm (now + INIT_TIMEOUT_NS) n of
                  None \<Rightarrow> (False, s)
                | Some n \<Rightarrow> (True, s\<lparr>STACK := Some n\<rparr>))))"

section \<open>Sockets\<close>

definition udp_socket :: "'n smoltcp \<Rightarrow> u64 \<Rightarrow> ('n netst, i64, Handle) eff" where
  "udp_socket sm now s =
     (case ensure_up sm now s of
        (False, s) \<Rightarrow> (Inl ENETDOWN, s)
      | (True, s) \<Rightarrow> (case add_udp sm (the (STACK s)) of (h, n) \<Rightarrow> (Inr h, s\<lparr>STACK := Some n\<rparr>)))"

definition tcp_socket :: "'n smoltcp \<Rightarrow> u64 \<Rightarrow> ('n netst, i64, Handle) eff" where
  "tcp_socket sm now s =
     (case ensure_up sm now s of
        (False, s) \<Rightarrow> (Inl ENETDOWN, s)
      | (True, s) \<Rightarrow> (case add_tcp sm (the (STACK s)) of (h, n) \<Rightarrow> (Inr h, s\<lparr>STACK := Some n\<rparr>)))"

definition close_socket :: "'n smoltcp \<Rightarrow> Handle \<Rightarrow> 'n netst \<Rightarrow> 'n netst" where
  "close_socket sm handle s =
     (case STACK s of None \<Rightarrow> s | Some n \<Rightarrow> s\<lparr>STACK := Some (remove sm handle n)\<rparr>)"

definition udp_bind :: "'n smoltcp \<Rightarrow> Handle \<Rightarrow> u16 \<Rightarrow> ('n netst, i64, unit) eff" where
  "udp_bind sm handle port s =
     (case STACK s of
        None \<Rightarrow> (Inl ENETDOWN, s)
      | Some n \<Rightarrow>
          (case udp_bind_port sm handle port n of
             None \<Rightarrow> (Inl EINVAL, s)
           | Some n \<Rightarrow> (Inr (), s\<lparr>STACK := Some n\<rparr>)))"

text \<open>A socket without a port gets an ephemeral one first.\<close>

definition bind_ephemeral :: "'n smoltcp \<Rightarrow> Handle \<Rightarrow> ('n netst, i64, unit) eff" where
  "bind_ephemeral sm handle s =
     (if udp_port sm handle (the (STACK s)) = 0
      then (case next_ephemeral_port s of (port, s) \<Rightarrow> udp_bind sm handle port s)
      else (Inr (), s))"

definition udp_sendto :: "'n smoltcp \<Rightarrow> u64 \<Rightarrow> Handle \<Rightarrow> bytes \<Rightarrow> ipv4 \<Rightarrow> u16 \<Rightarrow> ('n netst, i64, nat) eff" where
  "udp_sendto sm now handle data dst_ip dst_port s =
     (if STACK s = None then (Inl ENETDOWN, s)
      else ebind (bind_ephemeral sm handle) (\<lambda>_ s.
        case udp_send_slice sm handle data dst_ip dst_port (the (STACK s)) of
          None \<Rightarrow> (Inl EMSGSIZE, s)
        | Some n \<Rightarrow> (Inr (length data), s\<lparr>STACK := Some (poll sm now n)\<rparr>)) s)"

section \<open>Calls that wait\<close>

text \<open>One turn: finished with a result, or to be tried again after \<open>yield_now\<close>, with what was sent
  so far.\<close>

datatype 'a turn = Finish 'a | Retry nat

text \<open>\<open>if uptime_ns() >= deadline { return r }\<close>, else another turn.\<close>

definition or_retry :: "u64 \<Rightarrow> u64 \<Rightarrow> 'a \<Rightarrow> nat \<Rightarrow> 'a turn" where
  "or_retry now deadline r sent = (if now \<ge> deadline then Finish r else Retry sent)"

text \<open>The buffer of length \<open>cap\<close> receives the first bytes of the datagram.\<close>

definition udp_recvfrom :: "'n smoltcp \<Rightarrow> u64 \<Rightarrow> u64 \<Rightarrow> Handle \<Rightarrow> nat \<Rightarrow> 'n netst \<Rightarrow>
    (i64 + bytes \<times> ipv4 \<times> u16) turn \<times> 'n netst" where
  "udp_recvfrom sm now deadline handle cap s =
     (case STACK s of
        None \<Rightarrow> (Finish (Inl ENETDOWN), s)
      | Some n \<Rightarrow>
          (let n = poll sm now n
           in if udp_can_recv sm handle n
              then (case udp_recv sm handle n of
                      (Some (payload, ip, port), n) \<Rightarrow> (Finish (Inr (take cap payload, ip, port)), s\<lparr>STACK := Some n\<rparr>)
                    | (None, n) \<Rightarrow> (or_retry now deadline (Inl EAGAIN) 0, s\<lparr>STACK := Some n\<rparr>))
              else (or_retry now deadline (Inl EAGAIN) 0, s\<lparr>STACK := Some n\<rparr>)))"

definition tcp_connect_start :: "'n smoltcp \<Rightarrow> Handle \<Rightarrow> ipv4 \<Rightarrow> u16 \<Rightarrow> ('n netst, i64, unit) eff" where
  "tcp_connect_start sm handle dst_ip dst_port s =
     (case next_ephemeral_port s of
        (local_port, s) \<Rightarrow>
          (case STACK s of
             None \<Rightarrow> (Inl ENETDOWN, s)
           | Some n \<Rightarrow>
               (case tcp_open sm handle dst_ip dst_port local_port n of
                  None \<Rightarrow> (Inl EINVAL, s)
                | Some n \<Rightarrow> (Inr (), s\<lparr>STACK := Some n\<rparr>))))"

definition tcp_connect_turn :: "'n smoltcp \<Rightarrow> u64 \<Rightarrow> u64 \<Rightarrow> Handle \<Rightarrow> 'n netst \<Rightarrow> (i64 + unit) turn \<times> 'n netst" where
  "tcp_connect_turn sm now deadline handle s =
     (case STACK s of
        None \<Rightarrow> (Finish (Inl ENETDOWN), s)
      | Some n \<Rightarrow>
          (let n = poll sm now n; s = s\<lparr>STACK := Some n\<rparr>
           in if tcp_may_send sm handle n then (Finish (Inr ()), s)
              else if \<not> tcp_is_active sm handle n then (Finish (Inl ECONNREFUSED), s)
              else (or_retry now deadline (Inl ETIMEDOUT) 0, s)))"

definition tcp_send :: "'n smoltcp \<Rightarrow> u64 \<Rightarrow> u64 \<Rightarrow> Handle \<Rightarrow> bytes \<Rightarrow> nat \<Rightarrow> 'n netst \<Rightarrow> (i64 + nat) turn \<times> 'n netst" where
  "tcp_send sm now deadline handle data sent s =
     (case STACK s of
        None \<Rightarrow> (Finish (Inl ENETDOWN), s)
      | Some n \<Rightarrow>
          (let broken = (if sent > 0 then Inr sent else Inl ENOTCONN)
           in if \<not> tcp_may_send sm handle n then (Finish broken, s)
              else
                (case (if tcp_can_send sm handle n then tcp_send_slice sm handle (drop sent data) n else (Some 0, n)) of
                   (None, n) \<Rightarrow> (Finish broken, s\<lparr>STACK := Some n\<rparr>)
                 | (Some k, n) \<Rightarrow>
                     (let sent = sent + k; s = s\<lparr>STACK := Some (poll sm now n)\<rparr>
                      in if sent \<ge> length data then (Finish (Inr sent), s)
                         else (or_retry now deadline (Inr sent) sent, s)))))"

definition tcp_recv :: "'n smoltcp \<Rightarrow> u64 \<Rightarrow> u64 \<Rightarrow> Handle \<Rightarrow> nat \<Rightarrow> 'n netst \<Rightarrow> (i64 + bytes) turn \<times> 'n netst" where
  "tcp_recv sm now deadline handle cap s =
     (case STACK s of
        None \<Rightarrow> (Finish (Inl ENETDOWN), s)
      | Some n \<Rightarrow>
          (let n = poll sm now n
           in if tcp_can_recv sm handle n
              then (case tcp_recv_slice sm handle cap n of
                      (r, n) \<Rightarrow> (Finish (Inr (case r of None \<Rightarrow> [] | Some bs \<Rightarrow> bs)), s\<lparr>STACK := Some n\<rparr>))
              else if \<not> tcp_may_recv sm handle n then (Finish (Inr []), s\<lparr>STACK := Some n\<rparr>)
              else (or_retry now deadline (Inl EAGAIN) 0, s\<lparr>STACK := Some n\<rparr>)))"

section \<open>Ephemeral ports\<close>

lemma ephemeral_range: "49152 \<le> unat (fst (next_ephemeral_port s))"
proof -
  have "unat (EPHEMERAL_CTR s mod EPHEMERAL_SPAN) < 16384" by (simp add: EPHEMERAL_SPAN_def unat_mod)
  then show ?thesis by (simp add: next_ephemeral_port_def EPHEMERAL_BASE_def unat_word_ariths)
qed

text \<open>The \<open>k\<close>-th port handed out after \<open>s\<close>.\<close>

fun ports_from :: "nat \<Rightarrow> 'n netst \<Rightarrow> u16 list" where
  "ports_from 0 s = []"
| "ports_from (Suc k) s = (case next_ephemeral_port s of (p, s) \<Rightarrow> p # ports_from k s)"

lemma ports_from_eq:
  "ports_from k s = map (\<lambda>i. EPHEMERAL_BASE + (EPHEMERAL_CTR s + of_nat i) mod EPHEMERAL_SPAN) [0..<k]"
proof (induction k arbitrary: s)
  case (Suc k)
  have "[0..<Suc k] = 0 # map Suc [0..<k]" by (simp add: upt_conv_Cons map_Suc_upt del: upt_Suc)
  with Suc show ?case by (simp add: next_ephemeral_port_def o_def add.assoc del: upt_Suc)
qed simp

lemma eph_inj:
  assumes "i < 16384" "j < 16384" "(c + of_nat i) mod (16384 :: u16) = (c + of_nat j) mod 16384"
  shows "i = j"
proof -
  have u: "unat (c + of_nat n) mod 16384 = (unat c + n) mod 16384" if "n < 16384" for n
  proof -
    have "unat (of_nat n :: u16) = n" using that by (simp add: unsigned_of_nat take_bit_nat_eq_self)
    then show ?thesis by (simp add: unat_word_ariths(1) mod_mod_cancel)
  qed
  have "(unat c + i) mod 16384 = (unat c + j) mod 16384"
    using arg_cong [OF assms(3), of unat] u [OF assms(1)] u [OF assms(2)] by (simp add: unat_mod)
  then have "16384 dvd j - i" if "i \<le> j" using that mod_eq_dvd_iff_nat [of "unat c + i" "unat c + j" 16384] by simp
  moreover have "16384 dvd i - j" if "j \<le> i"
    using that \<open>(unat c + i) mod 16384 = (unat c + j) mod 16384\<close> mod_eq_dvd_iff_nat [of "unat c + j" "unat c + i" 16384] by simp
  moreover have "\<not> 16384 dvd d" if "0 < d" "d < 16384" for d :: nat using that by (meson dvd_imp_le not_less)
  ultimately show ?thesis using assms(1,2) by (metis linorder_neqE_nat less_imp_diff_less less_imp_le zero_less_diff)
qed

section \<open>Properties\<close>

text \<open>
  C35: Ephemeral ports stay in the dynamic range 49152..65535, also when the counter wraps around, and
  no port is handed out again before all 16384 of them have been.
\<close>

theorem ephemeral_ports_distinct:
  assumes "k \<le> 16384"
  shows "distinct (ports_from k s) \<and> (\<forall>p \<in> set (ports_from k s). 49152 \<le> p)"
proof -
  have r: "49152 \<le> EPHEMERAL_BASE + c mod EPHEMERAL_SPAN" for c
    using ephemeral_range [of "\<lparr>STACK = None, EPHEMERAL_CTR = c\<rparr>"]
    by (simp add: next_ephemeral_port_def word_le_nat_alt EPHEMERAL_BASE_def)
  have "inj_on (\<lambda>i. EPHEMERAL_BASE + (EPHEMERAL_CTR s + of_nat i) mod EPHEMERAL_SPAN) {0..<k}"
  proof (rule inj_onI)
    fix i j assume "i \<in> {0..<k}" "j \<in> {0..<k}"
      "EPHEMERAL_BASE + (EPHEMERAL_CTR s + of_nat i) mod EPHEMERAL_SPAN =
       EPHEMERAL_BASE + (EPHEMERAL_CTR s + of_nat j) mod EPHEMERAL_SPAN"
    with assms show "i = j" by (intro eph_inj [of i j "EPHEMERAL_CTR s"]) (simp_all add: EPHEMERAL_SPAN_def)
  qed
  with r show ?thesis by (simp add: ports_from_eq distinct_map)
qed

theorem ephemeral_ports_distinct_witness:
  "distinct (ports_from 16384 \<lparr>STACK = Some (), EPHEMERAL_CTR = 65535\<rparr>)"
  using ephemeral_ports_distinct [of 16384 "\<lparr>STACK = Some (), EPHEMERAL_CTR = 65535\<rparr>"] by blast

end
