(* ===== verification/Files.thy ===== *)
theory Files
  imports Fat Uaccess Console Net_Socket "HOL-Library.AList"
begin

text \<open>
  File descriptors and the system calls on them, \<open>src/syscall/files.rs\<close>, over the state of the whole
  kernel: the frame allocator with physical memory, the table of processes, pipes, sockets, the disk,
  the console, the screen, the serial port and the scheduler. Processes are keyed by the root of
  their address space. An \<open>Arc\<close> is an index into a list of shared objects; \<open>Clone\<close> and \<open>Drop\<close> of a
  descriptor are explicit steps.
\<close>

section \<open>Data\<close>

definition MAX_FDS :: nat where
  "MAX_FDS = 16"

record OpenFile =
  name :: bytes
  data :: bytes
  offset :: nat
  writable :: bool
  dirty :: bool
  is_dir :: bool

text \<open>\<open>refs\<close> is the index of the shared counter.\<close>

record SocketEnd =
  handle :: Handle
  kind :: SockKind
  refs :: nat

text \<open>A pipe end is the index of the shared buffer.\<close>

datatype Fd =
    Fd_Console
  | Fd_Vga
  | Fd_Serial
  | Fd_File OpenFile
  | Fd_PipeRead nat
  | Fd_PipeWrite nat
  | Fd_Socket SocketEnd

record PipeBuf =
  pdata :: bytes
  readers :: nat
  writers :: nat

record ProcState =
  fds :: "Fd option list"
  cwd :: bytes
  brk :: u64

definition ProcState_default :: ProcState where
  "ProcState_default = \<lparr>fds = [Some Fd_Console, Some Fd_Vga, Some Fd_Serial], cwd = str ''/'', brk = USER_HEAP_BASE\<rparr>"

record 'n kernel =
  kframes :: gframes
  procs :: "(u64 \<times> ProcState) list"
  pipes :: "PipeBuf list"
  socks :: "nat list"
  net :: "'n netst"
  kdisk :: disk
  console :: "Console option"
  kscreen :: screen
  serial_out :: bytes
  kmach :: mach
  ticks :: u64
  LAST_WRITE_FD :: u64
  LAST_WRITE_LEN :: u64
  LAST_WRITE_SUM :: u64
  LAST_WRITE_USER_RSP :: u64
  LAST_EXIT_CODE :: i64
  EXIT_CODE_SUM :: u64
  EXIT_CALLS :: u64

text \<open>What the kernel calls outside of its sources: the page tables and the network stack.\<close>

record 'n env =
  mp :: mapper
  tcpip :: "'n smoltcp"

text \<open>What a system call that may wait does: it returns, or its thread has been switched away and
  goes on later from the given point (the start, an element of a vector, or a turn of a loop with a
  deadline), or its thread is gone for good.\<close>

datatype resume = AtStart | AtIovec nat i64 | AtDeadline u64 nat

datatype outcome = Ret i64 | Wait resume | Gone

type_synonym 'n call = "'n kernel \<Rightarrow> i64 \<times> 'n kernel"
type_synonym 'n wcall = "('n kernel, string, outcome) eff"

text \<open>A call that cannot wait and cannot panic, as one that could.\<close>

definition simple :: "'n call \<Rightarrow> 'n wcall" where
  "simple f k = (case f k of (r, k') \<Rightarrow> (Inr (Ret r), k'))"

text \<open>\<open>Err(errno) => -errno\<close>.\<close>

definition negating :: "('n kernel, i64, i64) eff \<Rightarrow> 'n call" where
  "negating m k = (case m k of (Inl e, k') \<Rightarrow> (- e, k') | (Inr v, k') \<Rightarrow> (v, k'))"

section \<open>Clock, memory, devices\<close>

text \<open>\<open>uptime_ns\<close> of \<open>src/arch/x86_64/interrupts.rs\<close>.\<close>

definition uptime_ns :: "'n kernel \<Rightarrow> u64" where
  "uptime_ns k = of_nat (unat (ticks k) * 65536 * 1000000000 div 1193182)"

definition current_key :: "'n kernel \<Rightarrow> u64" where
  "current_key k = current_address_space (mcpu (kmach k))"

definition umem :: "'n kernel \<Rightarrow> pmem" where
  "umem k = snd (kframes k)"

definition user_read :: "'n env \<Rightarrow> u64 \<Rightarrow> u64 \<Rightarrow> 'n kernel \<Rightarrow> i64 + bytes" where
  "user_read e ptr len k = with_user_bytes (mp e) (umem k) (current_key k) ptr len"

definition user_write :: "'n env \<Rightarrow> u64 \<Rightarrow> bytes \<Rightarrow> ('n kernel, i64, unit) eff" where
  "user_write e dst src k =
     (case copy_to_user (mp e) (current_key k) dst src (umem k) of
        (r, m) \<Rightarrow> (r, k\<lparr>kframes := (fst (kframes k), m)\<rparr>))"

text \<open>A scheduler operation; a panic there is a panic here.\<close>

definition on_mach :: "'a kern \<Rightarrow> ('n kernel, string, 'a) eff" where
  "on_mach f k = (case f (kmach k) of (r, m) \<Rightarrow> (r, k\<lparr>kmach := m\<rparr>))"

definition on_disk :: "(disk, FatError, 'a) eff \<Rightarrow> ('n kernel, FatError, 'a) eff" where
  "on_disk f k = (case f (kdisk k) of (r, d) \<Rightarrow> (r, k\<lparr>kdisk := d\<rparr>))"

definition on_net :: "('n netst \<Rightarrow> 'a \<times> 'n netst) \<Rightarrow> 'n kernel \<Rightarrow> 'a \<times> 'n kernel" where
  "on_net f k = (case f (net k) of (r, n) \<Rightarrow> (r, k\<lparr>net := n\<rparr>))"

text \<open>\<open>vga::write_bytes\<close> and \<open>serial::write_bytes\<close>, whose bytes are the output of the port.\<close>

definition vga_sink :: "bytes \<Rightarrow> 'n kernel \<Rightarrow> 'n kernel" where
  "vga_sink bs k = k\<lparr>kscreen := vga_write_bytes bs (kscreen k)\<rparr>"

definition serial_sink :: "bytes \<Rightarrow> 'n kernel \<Rightarrow> 'n kernel" where
  "serial_sink bs k = k\<lparr>serial_out := serial_out k @ bs\<rparr>"

definition record_write :: "u64 \<Rightarrow> bytes \<Rightarrow> u64 \<Rightarrow> 'n kernel \<Rightarrow> 'n kernel" where
  "record_write fd bs user_rsp k =
     k\<lparr>LAST_WRITE_FD := fd, LAST_WRITE_LEN := of_nat (length bs),
       LAST_WRITE_SUM := sum_list (map ucast bs), LAST_WRITE_USER_RSP := user_rsp\<rparr>"

section \<open>Clone and Drop of descriptors\<close>

definition wake_pipes :: "'n kernel \<Rightarrow> 'n kernel" where
  "wake_pipes k = k\<lparr>kmach := snd (wake_pipe_waiters (kmach k))\<rparr>"

definition upd_pipe :: "nat \<Rightarrow> (PipeBuf \<Rightarrow> PipeBuf) \<Rightarrow> 'n kernel \<Rightarrow> 'n kernel" where
  "upd_pipe i f k = k\<lparr>pipes := (pipes k)[i := f (pipes k ! i)]\<rparr>"

definition PipeRead_clone :: "nat \<Rightarrow> 'n kernel \<Rightarrow> 'n kernel" where
  "PipeRead_clone i = upd_pipe i (\<lambda>b. b\<lparr>readers := readers b + 1\<rparr>)"

definition PipeWrite_clone :: "nat \<Rightarrow> 'n kernel \<Rightarrow> 'n kernel" where
  "PipeWrite_clone i = upd_pipe i (\<lambda>b. b\<lparr>writers := writers b + 1\<rparr>)"

definition SocketEnd_clone :: "SocketEnd \<Rightarrow> 'n kernel \<Rightarrow> 'n kernel" where
  "SocketEnd_clone s k = k\<lparr>socks := (socks k)[refs s := socks k ! refs s + 1]\<rparr>"

definition PipeRead_drop :: "nat \<Rightarrow> 'n kernel \<Rightarrow> 'n kernel" where
  "PipeRead_drop i k =
     (let k = upd_pipe i (\<lambda>b. b\<lparr>readers := readers b - 1\<rparr>) k
      in if readers (pipes k ! i) = 0 then wake_pipes k else k)"

definition PipeWrite_drop :: "nat \<Rightarrow> 'n kernel \<Rightarrow> 'n kernel" where
  "PipeWrite_drop i k =
     (let k = upd_pipe i (\<lambda>b. b\<lparr>writers := writers b - 1\<rparr>) k
      in if writers (pipes k ! i) = 0 then wake_pipes k else k)"

text \<open>The counter itself goes down when the field is dropped after \<open>drop\<close> has run.\<close>

definition SocketEnd_drop :: "'n env \<Rightarrow> SocketEnd \<Rightarrow> 'n kernel \<Rightarrow> 'n kernel" where
  "SocketEnd_drop e s k =
     (let k' = (if socks k ! refs s = 1 then k\<lparr>net := close_socket (tcpip e) (handle s) (net k)\<rparr> else k)
      in k'\<lparr>socks := (socks k')[refs s := socks k' ! refs s - 1]\<rparr>)"

fun clone_fd :: "Fd \<Rightarrow> 'n kernel \<Rightarrow> 'n kernel" where
  "clone_fd (Fd_PipeRead i) k = PipeRead_clone i k"
| "clone_fd (Fd_PipeWrite i) k = PipeWrite_clone i k"
| "clone_fd (Fd_Socket s) k = SocketEnd_clone s k"
| "clone_fd _ k = k"

fun drop_fd :: "'n env \<Rightarrow> Fd \<Rightarrow> 'n kernel \<Rightarrow> 'n kernel" where
  "drop_fd e (Fd_PipeRead i) k = PipeRead_drop i k"
| "drop_fd e (Fd_PipeWrite i) k = PipeWrite_drop i k"
| "drop_fd e (Fd_Socket s) k = SocketEnd_drop e s k"
| "drop_fd e _ k = k"

fun clone_fds :: "Fd option list \<Rightarrow> 'n kernel \<Rightarrow> 'n kernel" where
  "clone_fds [] k = k"
| "clone_fds (None # fs) k = clone_fds fs k"
| "clone_fds (Some f # fs) k = clone_fds fs (clone_fd f k)"

fun drop_fds :: "'n env \<Rightarrow> Fd option list \<Rightarrow> 'n kernel \<Rightarrow> 'n kernel" where
  "drop_fds e [] k = k"
| "drop_fds e (None # fs) k = drop_fds e fs k"
| "drop_fds e (Some f # fs) k = drop_fds e fs (drop_fd e f k)"

section \<open>The process table\<close>

text \<open>\<open>procs.insert(key, p)\<close>; a process that stood there is dropped.\<close>

definition insert_proc :: "'n env \<Rightarrow> u64 \<Rightarrow> ProcState \<Rightarrow> 'n kernel \<Rightarrow> 'n kernel" where
  "insert_proc e key p k =
     (let k' = k\<lparr>procs := AList.update key p (procs k)\<rparr>
      in case map_of (procs k) key of None \<Rightarrow> k' | Some old \<Rightarrow> drop_fds e (fds old) k')"

definition forget_process :: "'n env \<Rightarrow> u64 \<Rightarrow> 'n kernel \<Rightarrow> 'n kernel" where
  "forget_process e cr3_phys k =
     (case map_of (procs k) cr3_phys of
        None \<Rightarrow> k
      | Some p \<Rightarrow> drop_fds e (fds p) (k\<lparr>procs := AList.delete cr3_phys (procs k)\<rparr>))"

text \<open>Each descriptor is written back if it is a changed file, then dropped.\<close>

fun release_fds :: "'n env \<Rightarrow> Fd option list \<Rightarrow> 'n kernel \<Rightarrow> 'n kernel" where
  "release_fds e [] k = k"
| "release_fds e (None # fs) k = release_fds e fs k"
| "release_fds e (Some fd # fs) k =
     release_fds e fs (drop_fd e fd
       (case fd of
          Fd_File f \<Rightarrow> if writable f \<and> dirty f then snd (on_disk (fs_write_file (name f) (data f)) k) else k
        | _ \<Rightarrow> k))"

definition release_current_process_fds :: "'n env \<Rightarrow> 'n kernel \<Rightarrow> 'n kernel" where
  "release_current_process_fds e k =
     (case map_of (procs k) (current_key k) of
        None \<Rightarrow> k
      | Some p \<Rightarrow> release_fds e (fds p) (k\<lparr>procs := AList.update (current_key k) (p\<lparr>fds := []\<rparr>) (procs k)\<rparr>))"

definition process_count :: "'n kernel \<Rightarrow> nat" where
  "process_count k = length (procs k)"

definition rekey_process :: "'n env \<Rightarrow> u64 \<Rightarrow> u64 \<Rightarrow> 'n kernel \<Rightarrow> 'n kernel" where
  "rekey_process e old_cr3 new_cr3 k =
     (case map_of (procs k) old_cr3 of
        None \<Rightarrow> k
      | Some p \<Rightarrow> insert_proc e new_cr3 (p\<lparr>brk := USER_HEAP_BASE\<rparr>) (k\<lparr>procs := AList.delete old_cr3 (procs k)\<rparr>))"

definition fork_fds :: "'n env \<Rightarrow> u64 \<Rightarrow> u64 \<Rightarrow> 'n kernel \<Rightarrow> 'n kernel" where
  "fork_fds e parent_cr3 child_cr3 k =
     (case map_of (procs k) parent_cr3 of
        None \<Rightarrow> k
      | Some p \<Rightarrow> insert_proc e child_cr3 p (clone_fds (fds p) k))"

text \<open>\<open>guard.entry(key).or_default()\<close>.\<close>

definition current_proc :: "'n kernel \<Rightarrow> ProcState" where
  "current_proc k = (case map_of (procs k) (current_key k) of None \<Rightarrow> ProcState_default | Some p \<Rightarrow> p)"

definition put_proc :: "u64 \<Rightarrow> ProcState \<Rightarrow> 'n kernel \<Rightarrow> 'n kernel" where
  "put_proc key p k = k\<lparr>procs := AList.update key p (procs k)\<rparr>"

text \<open>The closure gets the process and the rest of the kernel, and does not touch the table itself.\<close>

definition with_current_proc :: "(ProcState \<Rightarrow> 'n kernel \<Rightarrow> 'r \<times> ProcState \<times> 'n kernel) \<Rightarrow> 'n kernel \<Rightarrow> 'r \<times> 'n kernel" where
  "with_current_proc f k =
     (case f (current_proc k) k of (r, p, k') \<Rightarrow> (r, put_proc (current_key k) p k'))"

definition with_current_fds :: "(Fd option list \<Rightarrow> 'n kernel \<Rightarrow> 'r \<times> Fd option list \<times> 'n kernel) \<Rightarrow> 'n kernel \<Rightarrow> 'r \<times> 'n kernel" where
  "with_current_fds f =
     with_current_proc (\<lambda>p k. case f (fds p) k of (r, fs, k') \<Rightarrow> (r, p\<lparr>fds := fs\<rparr>, k'))"

text \<open>A closure that only looks.\<close>

definition look_fds :: "(Fd option list \<Rightarrow> 'r) \<Rightarrow> 'n kernel \<Rightarrow> 'r \<times> 'n kernel" where
  "look_fds f = with_current_fds (\<lambda>fs k. (f fs, fs, k))"

definition current_cwd :: "'n kernel \<Rightarrow> bytes \<times> 'n kernel" where
  "current_cwd = with_current_proc (\<lambda>p k. (cwd p, p, k))"

text \<open>\<open>fds.get(fd).and_then(|s| s.as_ref())\<close>.\<close>

definition get_fd :: "Fd option list \<Rightarrow> nat \<Rightarrow> Fd option" where
  "get_fd fs fd = (if fd < length fs then fs ! fd else None)"

section \<open>Paths\<close>

text \<open>The components left after dropping empty ones and dots and resolving double dots; the
  stack is kept with its top first.\<close>

fun norm_parts :: "bytes list \<Rightarrow> bytes list \<Rightarrow> bytes list" where
  "norm_parts [] comps = rev comps"
| "norm_parts (part # parts) comps =
     (if part = [] \<or> part = str ''.'' then norm_parts parts comps
      else if part = str ''..'' then norm_parts parts (tl comps)
      else norm_parts parts (part # comps))"

definition normalize :: "bytes \<Rightarrow> bytes" where
  "normalize path = str ''/'' @ join_with (ch CHR ''/'') (norm_parts (split_on (ch CHR ''/'') path) [])"

definition resolve_path :: "bytes \<Rightarrow> 'n kernel \<Rightarrow> bytes \<times> 'n kernel" where
  "resolve_path path k =
     (if path \<noteq> [] \<and> hd path = ch CHR ''/'' then (normalize path, k)
      else
        (case current_cwd k of (combined, k) \<Rightarrow>
           (let combined = (if combined \<noteq> [] \<and> last combined = ch CHR ''/'' then combined else combined @ str ''/'')
            in (normalize (combined @ path), k))))"

text \<open>The path argument of a system call.\<close>

definition path_arg :: "'n env \<Rightarrow> u64 \<Rightarrow> ('n kernel, i64, bytes) eff" where
  "path_arg e path_ptr k =
     (case read_user_cstr (mp e) (umem k) (current_key k) path_ptr of
        Inl errno \<Rightarrow> (Inl errno, k)
      | Inr path \<Rightarrow>
          if \<not> utf8_valid path then (Inl ENOENT, k)
          else if path = [] then (Inl ENOENT, k)
          else (case resolve_path path k of (r, k) \<Rightarrow> (Inr r, k)))"

fun fat_errno :: "FatError \<Rightarrow> i64" where
  "fat_errno NotFound = ENOENT"
| "fat_errno IsADirectory = EISDIR"
| "fat_errno NotADirectory = ENOTDIR"
| "fat_errno AlreadyExists = EEXIST"
| "fat_errno NotEmpty = ENOTEMPTY"
| "fat_errno NoSpace = ENOSPC"
| "fat_errno DirFull = ENOSPC"
| "fat_errno _ = EIO"

text \<open>A file system operation inside a system call.\<close>

definition fs_call :: "(disk, FatError, 'a) eff \<Rightarrow> ('n kernel, i64, 'a) eff" where
  "fs_call f k = (case on_disk f k of (Inl e, k) \<Rightarrow> (Inl (fat_errno e), k) | (Inr x, k) \<Rightarrow> (Inr x, k))"

section \<open>Opening and closing\<close>

text \<open>The lowest free descriptor; an entry that finds none is dropped.\<close>

definition alloc_fd :: "'n env \<Rightarrow> Fd \<Rightarrow> Fd option list \<Rightarrow> 'n kernel \<Rightarrow> i64 \<times> Fd option list \<times> 'n kernel" where
  "alloc_fd e entry fs k =
     (case List.find (\<lambda>i. fs ! i = None) [0..<length fs] of
        Some i \<Rightarrow> (int i, fs[i := Some entry], k)
      | None \<Rightarrow>
          if length fs < MAX_FDS then (int (length fs), fs @ [Some entry], k)
          else (- EMFILE, fs, drop_fd e entry k))"

text \<open>The directory entries as \<open>getdents64\<close> hands them out.\<close>

definition dirent :: "nat \<Rightarrow> nat \<Rightarrow> DirItem \<Rightarrow> bytes" where
  "dirent i start item =
     (let nm = item_name item;
          reclen = (19 + length nm + 1 + 7) div 8 * 8;
          rc = replicate reclen 0;
          rc = put_at 0 (le_bytes 8 (of_nat i + 1 :: u64)) rc;
          rc = put_at 8 (le_bytes 8 (of_nat (start + reclen) :: u64)) rc;
          rc = put_at 16 (le_bytes 2 (of_nat reclen :: u16)) rc;
          rc = rc[18 := (if item_is_dir item then 4 else 8)]
      in put_at 19 nm rc)"

fun serialize_loop :: "nat \<Rightarrow> DirItem list \<Rightarrow> bytes \<Rightarrow> bytes" where
  "serialize_loop i [] out = out"
| "serialize_loop i (item # items) out = serialize_loop (i + 1) items (out @ dirent i (length out) item)"

definition serialize_dirents :: "DirItem list \<Rightarrow> bytes" where
  "serialize_dirents items = serialize_loop 0 items []"

text \<open>The file that \<open>open\<close> puts behind the descriptor.\<close>

definition open_node :: "bytes \<Rightarrow> u64 \<Rightarrow> ('n kernel, i64, OpenFile) eff" where
  "open_node path flags k =
     (let writable = (flags AND O_ACCMODE \<noteq> O_RDONLY);
          create = (flags AND O_CREAT \<noteq> 0);
          truncate = (flags AND O_TRUNC \<noteq> 0);
          append = (flags AND O_APPEND \<noteq> 0)
      in case fs_lookup (kdisk k) path of
           Inr (FileNode existing) \<Rightarrow>
             ebind (if truncate then ebind (fs_call (fs_write_file path [])) (\<lambda>_. ret []) else ret existing) (\<lambda>content.
               ret \<lparr>name = path, data = content, offset = (if append then length content else 0),
                    writable = writable, dirty = False, is_dir = False\<rparr>) k
         | Inr (DirNode items) \<Rightarrow>
             if writable then (Inl EISDIR, k)
             else (Inr \<lparr>name = path, data = serialize_dirents items, offset = 0, writable = False, dirty = False,
                        is_dir = True\<rparr>, k)
         | Inl err \<Rightarrow>
             if err = NotFound \<and> create then
               ebind (fs_call (fs_write_file path [])) (\<lambda>_.
                 ret \<lparr>name = path, data = [], offset = 0, writable = writable, dirty = False, is_dir = False\<rparr>) k
             else (Inl (fat_errno err), k))"

definition sys_open :: "'n env \<Rightarrow> u64 \<Rightarrow> u64 \<Rightarrow> 'n call" where
  "sys_open e path_ptr flags =
     negating (ebind (path_arg e path_ptr) (\<lambda>path.
       ebind (open_node path flags) (\<lambda>open_file k.
         case with_current_fds (alloc_fd e (Fd_File open_file)) k of (r, k) \<Rightarrow> (Inr r, k))))"

text \<open>\<open>fds.get_mut(fd).and_then(|slot| slot.take())\<close>.\<close>

definition take_fd :: "nat \<Rightarrow> Fd option list \<Rightarrow> 'n kernel \<Rightarrow> Fd option \<times> Fd option list \<times> 'n kernel" where
  "take_fd fd fs k = (get_fd fs fd, (if fd < length fs then fs[fd := None] else fs), k)"

definition sys_close :: "'n env \<Rightarrow> u64 \<Rightarrow> 'n call" where
  "sys_close e fd k =
     (case with_current_fds (take_fd (unat fd)) k of
        (None, k) \<Rightarrow> (- EBADF, k)
      | (Some (Fd_File f), k) \<Rightarrow>
          if writable f \<and> dirty f
          then negating (ebind (fs_call (fs_write_file (name f) (data f))) (\<lambda>_. ret 0)) k
          else (0, k)
      | (Some other, k) \<Rightarrow> (0, drop_fd e other k))"

end
