(* ===== verification/File_Calls.thy ===== *)
theory File_Calls
  imports Files
begin

text \<open>
  The system calls of \<open>src/syscall/files.rs\<close> on open descriptors, on directories and on the heap of
  the process: reading and writing files, devices and pipes, duplication, seeking, \<open>stat\<close>, \<open>brk\<close>
  and the calls on sockets.
\<close>

section \<open>The working directory\<close>

definition sys_chdir :: "'n env \<Rightarrow> u64 \<Rightarrow> 'n call" where
  "sys_chdir e path_ptr =
     negating (ebind (path_arg e path_ptr) (\<lambda>resolved k.
       case fs_lookup (kdisk k) resolved of
         Inr (DirNode _) \<Rightarrow>
           (case with_current_proc (\<lambda>p k. ((), p\<lparr>cwd := resolved\<rparr>, k)) k of (_, k) \<Rightarrow> (Inr 0, k))
       | Inr (FileNode _) \<Rightarrow> (Inl ENOTDIR, k)
       | Inl err \<Rightarrow> (Inl (fat_errno err), k)))"

definition sys_getcwd :: "'n env \<Rightarrow> u64 \<Rightarrow> u64 \<Rightarrow> 'n call" where
  "sys_getcwd e buf sz k =
     (case current_cwd k of (cw, k) \<Rightarrow>
        if unat sz < length cw + 1 then (- ERANGE, k)
        else negating (ebind (user_write e buf (cw @ [0])) (\<lambda>_. ret (int (length cw + 1)))) k)"

section \<open>Directory entries\<close>

text \<open>
  The loop that collects whole records, from \<open>span\<close> on. Indexing past the end panics, and a record
  length of zero makes no progress, so that the loop never ends (\<open>None\<close>).
\<close>

function dirent_span :: "bytes \<Rightarrow> nat \<Rightarrow> nat \<Rightarrow> nat \<Rightarrow> (string + nat) option" where
  "dirent_span d off count span =
     (if off + span < length d then
        if off + span + 17 < length d then
          (let reclen = unat (from_le [d ! (off + span + 16), d ! (off + span + 17)] :: u16)
           in if span + reclen > count then Some (Inr span)
              else if reclen = 0 then None
              else dirent_span d off count (span + reclen))
        else Some (Inl ''index out of bounds'')
      else Some (Inr span))"
  by pat_completeness auto
termination
  by (relation "measure (\<lambda>(d, off, count, span). length d - (off + span))") auto

declare dirent_span.simps [simp del]

text \<open>A call that never returns is the error \<open>''hangs''\<close>.\<close>

definition sys_getdents64 :: "'n env \<Rightarrow> u64 \<Rightarrow> u64 \<Rightarrow> u64 \<Rightarrow> 'n wcall" where
  "sys_getdents64 e fd buf count k =
     (case with_current_fds (\<lambda>fs k.
        case get_fd fs (unat fd) of
          None \<Rightarrow> (Inr (- EBADF), fs, k)
        | Some (Fd_File f) \<Rightarrow>
            if is_dir f then
              (case dirent_span (data f) (offset f) (unat count) 0 of
                 None \<Rightarrow> (Inl ''hangs'', fs, k)
               | Some (Inl msg) \<Rightarrow> (Inl msg, fs, k)
               | Some (Inr span) \<Rightarrow>
                   if span = 0 then (Inr (if offset f \<ge> length (data f) then 0 else - EINVAL), fs, k)
                   else
                     (case user_write e buf (slice (offset f) span (data f)) k of
                        (Inr _, k) \<Rightarrow> (Inr (int span), fs[unat fd := Some (Fd_File (f\<lparr>offset := offset f + span\<rparr>))], k)
                      | (Inl errno, k) \<Rightarrow> (Inr (- errno), fs, k)))
            else (Inr (- ENOTDIR), fs, k)
        | Some _ \<Rightarrow> (Inr (- ENOTDIR), fs, k)) k of
        (Inl msg, k) \<Rightarrow> (Inl msg, k)
      | (Inr r, k) \<Rightarrow> (Inr (Ret r), k))"

section \<open>Pipes\<close>

text \<open>The closure of \<open>sys_pipe\<close>: both ends of pipe \<open>i\<close> get a descriptor, or neither.\<close>

definition alloc_pipe :: "'n env \<Rightarrow> nat \<Rightarrow> Fd option list \<Rightarrow> 'n kernel \<Rightarrow> (i64 \<times> i64) \<times> Fd option list \<times> 'n kernel" where
  "alloc_pipe e i fs k =
     (case alloc_fd e (Fd_PipeRead i) fs k of (r, fs, k) \<Rightarrow>
        if r < 0 then ((r, r), fs, drop_fd e (Fd_PipeWrite i) k)
        else
          (case alloc_fd e (Fd_PipeWrite i) fs k of (w, fs, k) \<Rightarrow>
             if w < 0 then ((w, w), fs[nat r := None], drop_fd e (Fd_PipeRead i) k)
             else ((r, w), fs, k)))"

definition new_pipe :: "'n kernel \<Rightarrow> 'n kernel" where
  "new_pipe k = k\<lparr>pipes := pipes k @ [\<lparr>pdata = [], readers = 1, writers = 1\<rparr>]\<rparr>"

definition sys_pipe :: "'n env \<Rightarrow> u64 \<Rightarrow> 'n call" where
  "sys_pipe e fds_ptr k =
     (case with_current_fds (alloc_pipe e (length (pipes k))) (new_pipe k) of
        ((rfd, wfd), k) \<Rightarrow>
          if rfd < 0 then (rfd, k)
          else if wfd < 0 then (wfd, k)
          else negating (ebind (user_write e fds_ptr
                 (le_bytes 4 (word_of_int rfd :: u32) @ le_bytes 4 (word_of_int wfd :: u32))) (\<lambda>_. ret 0)) k)"

text \<open>One turn of the loop of \<open>read_pipe\<close>.\<close>

definition read_pipe :: "'n env \<Rightarrow> nat \<Rightarrow> u64 \<Rightarrow> u64 \<Rightarrow> 'n wcall" where
  "read_pipe e fd buf count k =
     (case look_fds (\<lambda>fs. case get_fd fs fd of Some (Fd_PipeRead i) \<Rightarrow> Some i | _ \<Rightarrow> None) k of
        (None, k) \<Rightarrow> (Inr (Ret (- EBADF)), k)
      | (Some i, k) \<Rightarrow>
          if count = 0 then (Inr (Ret 0), k)
          else
            (let b = pipes k ! i
             in if pdata b \<noteq> [] then
                  (let n = min (unat count) (length (pdata b));
                       k = upd_pipe i (\<lambda>b. b\<lparr>pdata := drop n (pdata b)\<rparr>) k
                   in case user_write e buf (take n (pdata b)) k of
                        (Inr _, k) \<Rightarrow> (Inr (Ret (int n)), k)
                      | (Inl errno, k) \<Rightarrow> (Inr (Ret (- errno)), k))
                else if writers b = 0 then (Inr (Ret 0), k)
                else ebind (on_mach block_current_on_pipe) (\<lambda>_. ret (Wait AtStart)) k))"

definition write_pipe :: "'n env \<Rightarrow> nat \<Rightarrow> u64 \<Rightarrow> u64 \<Rightarrow> 'n call" where
  "write_pipe e fd buf count k =
     (case look_fds (\<lambda>fs. case get_fd fs fd of Some (Fd_PipeWrite i) \<Rightarrow> Some i | _ \<Rightarrow> None) k of
        (None, k) \<Rightarrow> (- EBADF, k)
      | (Some i, k) \<Rightarrow>
          if count = 0 then (0, k)
          else
            (case user_read e buf count k of
               Inl errno \<Rightarrow> (- errno, k)
             | Inr bs \<Rightarrow>
                 if readers (pipes k ! i) = 0 then (- EPIPE, k)
                 else
                   (let k = upd_pipe i (\<lambda>b. b\<lparr>pdata := pdata b @ bs\<rparr>) k;
                        n = int (length bs)
                    in (n, if n > 0 then wake_pipes k else k))))"

section \<open>Writing\<close>

definition write_device :: "'n env \<Rightarrow> u64 \<Rightarrow> u64 \<Rightarrow> u64 \<Rightarrow> u64 \<Rightarrow> (bytes \<Rightarrow> 'n kernel \<Rightarrow> 'n kernel) \<Rightarrow> 'n call" where
  "write_device e fd buf count user_rsp sink k =
     (case user_read e buf count k of
        Inl errno \<Rightarrow> (- errno, k)
      | Inr bs \<Rightarrow> (int (length bs), record_write fd bs user_rsp (sink bs k)))"

text \<open>\<open>data.resize(end, 0)\<close> and the copy; a vector longer than \<open>isize::MAX\<close> is a panic.\<close>

definition write_bytes_at :: "bytes \<Rightarrow> OpenFile \<Rightarrow> string + OpenFile" where
  "write_bytes_at bs f =
     (let last = offset f + length bs;
          d = (if last > length (data f) then data f @ replicate (last - length (data f)) 0 else data f)
      in if last \<ge> 2 ^ 63 then Inl ''capacity overflow''
         else Inr (f\<lparr>data := put_at (offset f) bs d, offset := last, dirty := True\<rparr>))"

definition write_file_fd :: "'n env \<Rightarrow> nat \<Rightarrow> u64 \<Rightarrow> u64 \<Rightarrow> ('n kernel, string, i64) eff" where
  "write_file_fd e fd buf count =
     with_current_fds (\<lambda>fs k.
       case get_fd fs fd of
         Some (Fd_File f) \<Rightarrow>
           (case user_read e buf count k of
              Inl errno \<Rightarrow> (Inr (- errno), fs, k)
            | Inr bs \<Rightarrow>
                (case write_bytes_at bs f of
                   Inl msg \<Rightarrow> (Inl msg, fs, k)
                 | Inr f' \<Rightarrow> (Inr (int (length bs)), fs[fd := Some (Fd_File f')], k)))
       | _ \<Rightarrow> (Inr (- EBADF), fs, k))"

datatype write_kind = WVga | WSerial | WPipe | WFile | WNotWritable | WBad

definition write_kind_of :: "nat \<Rightarrow> Fd option list \<Rightarrow> write_kind" where
  "write_kind_of fd fs =
     (case get_fd fs fd of
        Some Fd_Vga \<Rightarrow> WVga
      | Some Fd_Serial \<Rightarrow> WSerial
      | Some (Fd_PipeWrite _) \<Rightarrow> WPipe
      | Some (Fd_File f) \<Rightarrow> if writable f \<and> \<not> is_dir f then WFile else WNotWritable
      | Some _ \<Rightarrow> WNotWritable
      | None \<Rightarrow> WBad)"

definition sys_write :: "'n env \<Rightarrow> u64 \<Rightarrow> u64 \<Rightarrow> u64 \<Rightarrow> u64 \<Rightarrow> ('n kernel, string, i64) eff" where
  "sys_write e fd buf count user_rsp k =
     (case look_fds (write_kind_of (unat fd)) k of
        (WBad, k) \<Rightarrow> (Inr (- EBADF), k)
      | (WNotWritable, k) \<Rightarrow> (Inr (- EBADF), k)
      | (WVga, k) \<Rightarrow> apfst Inr (write_device e fd buf count user_rsp vga_sink k)
      | (WSerial, k) \<Rightarrow> apfst Inr (write_device e fd buf count user_rsp serial_sink k)
      | (WPipe, k) \<Rightarrow> apfst Inr (write_pipe e (unat fd) buf count k)
      | (WFile, k) \<Rightarrow> write_file_fd e (unat fd) buf count k)"

section \<open>Reading\<close>

text \<open>One turn of the loop of \<open>read_stdin\<close>.\<close>

definition read_stdin :: "'n env \<Rightarrow> u64 \<Rightarrow> u64 \<Rightarrow> 'n wcall" where
  "read_stdin e buf count k =
     (if count = 0 then (Inr (Ret 0), k)
      else
        (case take_ready (unat count) (console k) of
           (bs, con) \<Rightarrow>
             (let k = k\<lparr>console := con\<rparr>
              in if bs = [] then ebind (on_mach block_current_on_stdin) (\<lambda>_. ret (Wait AtStart)) k
                 else
                   (case user_write e buf bs k of
                      (Inr _, k) \<Rightarrow> (Inr (Ret (int (length bs))), k)
                    | (Inl errno, k) \<Rightarrow> (Inr (Ret (- errno)), k\<lparr>console := unread bs (console k)\<rparr>)))))"

definition read_file_fd :: "'n env \<Rightarrow> nat \<Rightarrow> u64 \<Rightarrow> u64 \<Rightarrow> 'n call" where
  "read_file_fd e fd buf count =
     with_current_fds (\<lambda>fs k.
       case get_fd fs fd of
         Some (Fd_File f) \<Rightarrow>
           if is_dir f then (- EISDIR, fs, k)
           else
             (let len = length (data f);
                  start = min (offset f) len;
                  n = min (len - start) (unat count)
              in case user_write e buf (slice start n (data f)) k of
                   (Inr _, k) \<Rightarrow> (int n, fs[fd := Some (Fd_File (f\<lparr>offset := offset f + n\<rparr>))], k)
                 | (Inl errno, k) \<Rightarrow> (- errno, fs, k))
       | _ \<Rightarrow> (- EBADF, fs, k))"

datatype read_kind = RConsole | RPipe | RFile | RNotReadable | RBad

definition read_kind_of :: "nat \<Rightarrow> Fd option list \<Rightarrow> read_kind" where
  "read_kind_of fd fs =
     (case get_fd fs fd of
        Some Fd_Console \<Rightarrow> RConsole
      | Some (Fd_PipeRead _) \<Rightarrow> RPipe
      | Some (Fd_File _) \<Rightarrow> RFile
      | Some _ \<Rightarrow> RNotReadable
      | None \<Rightarrow> RBad)"

definition sys_read :: "'n env \<Rightarrow> u64 \<Rightarrow> u64 \<Rightarrow> u64 \<Rightarrow> 'n wcall" where
  "sys_read e fd buf count k =
     (case look_fds (read_kind_of (unat fd)) k of
        (RConsole, k) \<Rightarrow> read_stdin e buf count k
      | (RPipe, k) \<Rightarrow> read_pipe e (unat fd) buf count k
      | (RFile, k) \<Rightarrow> simple (read_file_fd e (unat fd) buf count) k
      | (_, k) \<Rightarrow> (Inr (Ret (- EBADF)), k))"

section \<open>Vectors\<close>

definition read_iovec :: "'n env \<Rightarrow> u64 \<Rightarrow> nat \<Rightarrow> 'n kernel \<Rightarrow> i64 + u64 \<times> u64" where
  "read_iovec e iov index k =
     (if unat iov + index * 16 \<ge> 2 ^ 64 then Inl EFAULT
      else rbind (user_read e (iov + of_nat (index * 16)) 16 k) (\<lambda>b.
        Inr (from_le (slice 0 8 b), from_le (slice 8 8 b))))"

text \<open>The loop over the elements \<open>i, ..., i + n - 1\<close>.\<close>

fun writev_loop :: "'n env \<Rightarrow> u64 \<Rightarrow> u64 \<Rightarrow> u64 \<Rightarrow> nat \<Rightarrow> nat \<Rightarrow> i64 \<Rightarrow> ('n kernel, string, i64) eff" where
  "writev_loop e fd iov user_rsp i 0 tot k = (Inr tot, k)"
| "writev_loop e fd iov user_rsp i (Suc n) tot k =
     (case read_iovec e iov i k of
        Inl errno \<Rightarrow> (Inr (if tot = 0 then - errno else tot), k)
      | Inr (base, len) \<Rightarrow>
          if len = 0 then writev_loop e fd iov user_rsp (i + 1) n tot k
          else
            (case sys_write e fd base len user_rsp k of
               (Inl msg, k) \<Rightarrow> (Inl msg, k)
             | (Inr written, k) \<Rightarrow>
                 if written < 0 then (Inr (if tot = 0 then written else tot), k)
                 else if written < uint len then (Inr (tot + written), k)
                 else writev_loop e fd iov user_rsp (i + 1) n (tot + written) k))"

definition sys_writev :: "'n env \<Rightarrow> u64 \<Rightarrow> u64 \<Rightarrow> u64 \<Rightarrow> u64 \<Rightarrow> ('n kernel, string, i64) eff" where
  "sys_writev e fd iov iovcnt user_rsp k =
     (if iovcnt > IOV_MAX then (Inr (- EINVAL), k)
      else writev_loop e fd iov user_rsp 0 (unat iovcnt) 0 k)"

fun readv_loop :: "'n env \<Rightarrow> u64 \<Rightarrow> u64 \<Rightarrow> nat \<Rightarrow> nat \<Rightarrow> i64 \<Rightarrow> 'n wcall" where
  "readv_loop e fd iov i 0 tot k = (Inr (Ret tot), k)"
| "readv_loop e fd iov i (Suc n) tot k =
     (case read_iovec e iov i k of
        Inl errno \<Rightarrow> (Inr (Ret (if tot = 0 then - errno else tot)), k)
      | Inr (base, len) \<Rightarrow>
          if len = 0 then readv_loop e fd iov (i + 1) n tot k
          else
            (case sys_read e fd base len k of
               (Inl msg, k) \<Rightarrow> (Inl msg, k)
             | (Inr (Wait _), k) \<Rightarrow> (Inr (Wait (AtIovec i tot)), k)
             | (Inr Gone, k) \<Rightarrow> (Inr Gone, k)
             | (Inr (Ret got), k) \<Rightarrow>
                 if got < 0 then (Inr (Ret (if tot = 0 then got else tot)), k)
                 else if got < uint len then (Inr (Ret (tot + got)), k)
                 else readv_loop e fd iov (i + 1) n (tot + got) k))"

definition sys_readv :: "'n env \<Rightarrow> u64 \<Rightarrow> u64 \<Rightarrow> u64 \<Rightarrow> resume \<Rightarrow> 'n wcall" where
  "sys_readv e fd iov iovcnt at k =
     (if iovcnt > IOV_MAX then (Inr (Ret (- EINVAL)), k)
      else
        (case at of
           AtIovec i tot \<Rightarrow> readv_loop e fd iov i (unat iovcnt - i) tot k
         | _ \<Rightarrow> readv_loop e fd iov 0 (unat iovcnt) 0 k))"

section \<open>Duplicating\<close>

text \<open>\<open>while fds.len() <= n { fds.push(None) }\<close>.\<close>

definition extend_to :: "nat \<Rightarrow> Fd option list \<Rightarrow> Fd option list" where
  "extend_to n fs = fs @ replicate (n + 1 - length fs) None"

text \<open>\<open>fds[i] = v\<close> drops what was there.\<close>

definition assign_fd :: "'n env \<Rightarrow> nat \<Rightarrow> Fd option \<Rightarrow> Fd option list \<Rightarrow> 'n kernel \<Rightarrow> Fd option list \<times> 'n kernel" where
  "assign_fd e i v fs k = (fs[i := v], drop_fds e [fs ! i] k)"

definition sys_dup2 :: "'n env \<Rightarrow> u64 \<Rightarrow> u64 \<Rightarrow> 'n call" where
  "sys_dup2 e oldfd newfd k =
     (if unat newfd \<ge> MAX_FDS then (- EBADF, k)
      else with_current_fds (\<lambda>fs k.
        case get_fd fs (unat oldfd) of
          None \<Rightarrow> (- EBADF, fs, k)
        | Some old \<Rightarrow>
            if oldfd = newfd then (uint newfd, fs, k)
            else
              (let k = clone_fd old k; fs = extend_to (unat newfd) fs
               in case assign_fd e (unat newfd) (Some old) fs k of (fs, k) \<Rightarrow> (uint newfd, fs, k))) k)"

text \<open>The first free descriptor from \<open>idx\<close> on, below \<open>MAX_FDS\<close>.\<close>

definition first_free_from :: "nat \<Rightarrow> Fd option list \<Rightarrow> nat option" where
  "first_free_from start fs = List.find (\<lambda>i. get_fd fs i = None) [start..<MAX_FDS]"

definition fcntl_dupfd :: "'n env \<Rightarrow> u64 \<Rightarrow> u64 \<Rightarrow> 'n call" where
  "fcntl_dupfd e fd arg k =
     (if unat arg \<ge> MAX_FDS then (- EINVAL, k)
      else with_current_fds (\<lambda>fs k.
        case get_fd fs (unat fd) of
          None \<Rightarrow> (- EBADF, fs, k)
        | Some b \<Rightarrow>
            (let k = clone_fd b k
             in case first_free_from (unat arg) fs of
                  None \<Rightarrow> (- EMFILE, fs, drop_fd e b k)
                | Some idx \<Rightarrow> (int idx, (extend_to idx fs)[idx := Some b], k))) k)"

definition fcntl_getfl :: "Fd option \<Rightarrow> i64" where
  "fcntl_getfl b =
     (case b of
        None \<Rightarrow> - EBADF
      | Some Fd_Console \<Rightarrow> uint O_RDONLY
      | Some (Fd_PipeRead _) \<Rightarrow> uint O_RDONLY
      | Some Fd_Vga \<Rightarrow> uint O_WRONLY
      | Some Fd_Serial \<Rightarrow> uint O_WRONLY
      | Some (Fd_PipeWrite _) \<Rightarrow> uint O_WRONLY
      | Some (Fd_Socket _) \<Rightarrow> uint O_RDWR
      | Some (Fd_File f) \<Rightarrow> if writable f then uint O_RDWR else uint O_RDONLY)"

definition sys_fcntl :: "'n env \<Rightarrow> u64 \<Rightarrow> u64 \<Rightarrow> u64 \<Rightarrow> 'n call" where
  "sys_fcntl e fd cmd arg k =
     (if cmd = F_DUPFD then fcntl_dupfd e fd arg k
      else if cmd = F_GETFD \<or> cmd = F_SETFD \<or> cmd = F_SETFL
      then look_fds (\<lambda>fs. if get_fd fs (unat fd) \<noteq> None then 0 else - EBADF) k
      else if cmd = F_GETFL then look_fds (\<lambda>fs. fcntl_getfl (get_fd fs (unat fd))) k
      else (- EINVAL, k))"

section \<open>Seeking\<close>

definition sys_lseek :: "u64 \<Rightarrow> i64 \<Rightarrow> u64 \<Rightarrow> 'n call" where
  "sys_lseek fd off whence =
     with_current_fds (\<lambda>fs k.
       case get_fd fs (unat fd) of
         None \<Rightarrow> (- EBADF, fs, k)
       | Some (Fd_File f) \<Rightarrow>
           (case (if whence = 0 then Some 0
                  else if whence = 1 then Some (int (offset f))
                  else if whence = 2 then Some (int (length (data f)))
                  else None) of
              None \<Rightarrow> (- EINVAL, fs, k)
            | Some base \<Rightarrow>
                (let pos = base + off
                 in if 0 \<le> pos \<and> pos < 2 ^ 63
                    then (pos, fs[unat fd := Some (Fd_File (f\<lparr>offset := nat pos\<rparr>))], k)
                    else (- EINVAL, fs, k)))
       | Some _ \<Rightarrow> (- ESPIPE, fs, k))"

section \<open>Directories and file status\<close>

definition sys_mkdir :: "'n env \<Rightarrow> u64 \<Rightarrow> 'n call" where
  "sys_mkdir e path_ptr = negating (ebind (path_arg e path_ptr) (\<lambda>p. ebind (fs_call (fs_mkdir p)) (\<lambda>_. ret 0)))"

definition sys_unlink :: "'n env \<Rightarrow> u64 \<Rightarrow> 'n call" where
  "sys_unlink e path_ptr = negating (ebind (path_arg e path_ptr) (\<lambda>p. ebind (fs_call (fs_unlink p)) (\<lambda>_. ret 0)))"

definition sys_rmdir :: "'n env \<Rightarrow> u64 \<Rightarrow> 'n call" where
  "sys_rmdir e path_ptr = negating (ebind (path_arg e path_ptr) (\<lambda>p. ebind (fs_call (fs_rmdir p)) (\<lambda>_. ret 0)))"

definition STAT_SIZE :: nat where
  "STAT_SIZE = 144"

definition build_stat :: "u32 \<Rightarrow> u64 \<Rightarrow> u64 \<Rightarrow> u64 \<Rightarrow> bytes" where
  "build_stat mode ino nlink sz =
     (let b = replicate STAT_SIZE 0;
          b = put_at 8 (le_bytes 8 ino) b;
          b = put_at 16 (le_bytes 8 nlink) b;
          b = put_at 24 (le_bytes 4 mode) b;
          b = put_at 48 (le_bytes 8 sz) b;
          b = put_at 56 (le_bytes 8 (512 :: u64)) b;
          blocks = (of_nat ((unat sz + 511) div 512) :: u64)
      in put_at 64 (le_bytes 8 blocks) b)"

definition file_mode :: "bool \<Rightarrow> u32" where
  "file_mode dir = (if dir then S_IFDIR OR 0x1ED else S_IFREG OR 0x1A4)"

definition sys_stat :: "'n env \<Rightarrow> u64 \<Rightarrow> u64 \<Rightarrow> 'n call" where
  "sys_stat e path_ptr statbuf =
     negating (ebind (path_arg e path_ptr) (\<lambda>resolved k.
       case fs_stat (kdisk k) resolved of
         Inl err \<Rightarrow> (Inl (fat_errno err), k)
       | Inr meta \<Rightarrow>
           ebind (user_write e statbuf
             (build_stat (file_mode (meta_is_dir meta)) (ucast (meta_first_cluster meta))
                (if meta_is_dir meta then 2 else 1) (ucast (meta_size meta)))) (\<lambda>_. ret 0) k))"

definition fstat_of :: "Fd \<Rightarrow> bytes" where
  "fstat_of b =
     (case b of
        Fd_PipeRead _ \<Rightarrow> build_stat (S_IFIFO OR 0x180) 0 1 0
      | Fd_PipeWrite _ \<Rightarrow> build_stat (S_IFIFO OR 0x180) 0 1 0
      | Fd_Socket _ \<Rightarrow> build_stat (S_IFSOCK OR 0x180) 0 1 0
      | Fd_File f \<Rightarrow> build_stat (file_mode (is_dir f)) 0 (if is_dir f then 2 else 1) (of_nat (length (data f)))
      | _ \<Rightarrow> build_stat (S_IFCHR OR 0x190) 0 1 0)"

definition sys_fstat :: "'n env \<Rightarrow> u64 \<Rightarrow> u64 \<Rightarrow> 'n call" where
  "sys_fstat e fd statbuf k =
     (case look_fds (\<lambda>fs. map_option fstat_of (get_fd fs (unat fd))) k of
        (None, k) \<Rightarrow> (- EBADF, k)
      | (Some buf, k) \<Rightarrow> negating (ebind (user_write e statbuf buf) (\<lambda>_. ret 0)) k)"

section \<open>The heap of the process\<close>

definition page_up :: "u64 \<Rightarrow> u64" where
  "page_up x = (x + 0xFFF) AND NOT 0xFFF"

fun unmap_pages :: "'n env \<Rightarrow> u64 \<Rightarrow> u64 list \<Rightarrow> gframes \<Rightarrow> gframes" where
  "unmap_pages e root [] g = g"
| "unmap_pages e root (va # vas) g = unmap_pages e root vas (unmap_active_user_page (mp e) root va g)"

text \<open>Maps the pages in order; \<open>mapped\<close> are those mapped so far, taken back when one fails.\<close>

fun map_pages :: "'n env \<Rightarrow> u64 \<Rightarrow> u64 list \<Rightarrow> u64 list \<Rightarrow> gframes \<Rightarrow> bool \<times> gframes" where
  "map_pages e root mapped [] g = (True, g)"
| "map_pages e root mapped (va # vas) g =
     (case map_active_user_page (mp e) root va g of
        (True, g) \<Rightarrow> map_pages e root (mapped @ [va]) vas g
      | (False, g) \<Rightarrow> (False, unmap_pages e root mapped g))"

definition sys_brk :: "'n env \<Rightarrow> u64 \<Rightarrow> 'n call" where
  "sys_brk e addr =
     with_current_proc (\<lambda>p k.
       let cur = brk p; root = current_key k
       in if \<not> (USER_HEAP_BASE \<le> addr \<and> addr \<le> USER_HEAP_MAX) then (sint cur, p, k)
          else if addr > cur then
            (case map_pages e root [] (step_by_4096 (page_up cur) (page_up addr)) (kframes k) of
               (True, g) \<Rightarrow> (sint addr, p\<lparr>brk := addr\<rparr>, k\<lparr>kframes := g\<rparr>)
             | (False, g) \<Rightarrow> (sint cur, p, k\<lparr>kframes := g\<rparr>))
          else if addr < cur then
            (sint addr, p\<lparr>brk := addr\<rparr>,
             k\<lparr>kframes := unmap_pages e root (step_by_4096 (page_up addr) (page_up cur)) (kframes k)\<rparr>)
          else (sint addr, p\<lparr>brk := addr\<rparr>, k))"

section \<open>Sockets\<close>

definition MAX_DGRAM :: nat where
  "MAX_DGRAM = 1472"

definition SOCK_IO_MAX :: nat where
  "SOCK_IO_MAX = 4096"

definition socket_handle :: "u64 \<Rightarrow> ('n kernel, i64, Handle \<times> SockKind) eff" where
  "socket_handle fd =
     look_fds (\<lambda>fs. case get_fd fs (unat fd) of
       Some (Fd_Socket s) \<Rightarrow> Inr (handle s, kind s)
     | Some _ \<Rightarrow> Inl ENOTSOCK
     | None \<Rightarrow> Inl EBADF)"

definition parse_sockaddr_in :: "'n env \<Rightarrow> u64 \<Rightarrow> u64 \<Rightarrow> 'n kernel \<Rightarrow> i64 + ipv4 \<times> u16" where
  "parse_sockaddr_in e addr_ptr addrlen k =
     (if unat addrlen < SOCKADDR_IN_LEN then Inl EINVAL
      else rbind (user_read e addr_ptr (of_nat SOCKADDR_IN_LEN) k) (\<lambda>b.
        if (ucast (from_le (slice 0 2 b) :: u16) :: u64) \<noteq> AF_INET then Inl EAFNOSUPPORT
        else Inr (slice 4 4 b, from_be (slice 2 2 b))))"

definition encode_sockaddr_in :: "ipv4 \<Rightarrow> u16 \<Rightarrow> bytes" where
  "encode_sockaddr_in ip port =
     (let sa = replicate SOCKADDR_IN_LEN 0;
          sa = put_at 0 (le_bytes 2 (ucast AF_INET :: u16)) sa;
          sa = put_at 2 (be_bytes 2 port) sa
      in put_at 4 ip sa)"

text \<open>A new socket has one reference.\<close>

definition add_socket :: "'n env \<Rightarrow> Handle \<Rightarrow> SockKind \<Rightarrow> 'n call" where
  "add_socket e h kd k =
     (let s = \<lparr>handle = h, kind = kd, refs = length (socks k)\<rparr>
      in with_current_fds (alloc_fd e (Fd_Socket s)) (k\<lparr>socks := socks k @ [1]\<rparr>))"

definition sys_socket :: "'n env \<Rightarrow> u64 \<Rightarrow> u64 \<Rightarrow> 'n call" where
  "sys_socket e domain sock_type k =
     (if domain \<noteq> AF_INET then (- EAFNOSUPPORT, k)
      else if sock_type = SOCK_DGRAM then
        (case on_net (udp_socket (tcpip e) (uptime_ns k)) k of
           (Inr h, k) \<Rightarrow> add_socket e h Udp k
         | (Inl err, k) \<Rightarrow> (- err, k))
      else if sock_type = SOCK_STREAM then
        (case on_net (tcp_socket (tcpip e) (uptime_ns k)) k of
           (Inr h, k) \<Rightarrow> add_socket e h Tcp k
         | (Inl err, k) \<Rightarrow> (- err, k))
      else (- EPROTONOSUPPORT, k))"

text \<open>The end of a turn: finished, or \<open>yield_now\<close> and another turn with the same deadline.\<close>

definition turn_end :: "u64 \<Rightarrow> ('a \<Rightarrow> 'n call) \<Rightarrow> (i64 + 'a) turn \<times> 'n kernel \<Rightarrow> (string + outcome) \<times> 'n kernel" where
  "turn_end deadline fin r =
     (case r of
        (Finish (Inl err), k) \<Rightarrow> (Inr (Ret (- err)), k)
      | (Finish (Inr x), k) \<Rightarrow> simple (fin x) k
      | (Retry n, k) \<Rightarrow> ebind (on_mach yield_now) (\<lambda>_. ret (Wait (AtDeadline deadline n))) k)"

text \<open>The deadline a waiting call has set, or sets now.\<close>

definition deadline_of :: "resume \<Rightarrow> u64 \<Rightarrow> u64" where
  "deadline_of at new = (case at of AtDeadline d _ \<Rightarrow> d | _ \<Rightarrow> new)"

definition sys_connect :: "'n env \<Rightarrow> u64 \<Rightarrow> u64 \<Rightarrow> u64 \<Rightarrow> resume \<Rightarrow> 'n wcall" where
  "sys_connect e fd addr_ptr addrlen at k =
     (case socket_handle fd k of
        (Inl err, k) \<Rightarrow> (Inr (Ret (- err)), k)
      | (Inr (h, kd), k) \<Rightarrow>
          if kd \<noteq> Tcp then (Inr (Ret (- EOPNOTSUPP)), k)
          else
            (case at of
               AtDeadline d _ \<Rightarrow> turn_end d (\<lambda>_ k. (0, k)) (on_net (tcp_connect_turn (tcpip e) (uptime_ns k) d h) k)
             | _ \<Rightarrow>
                 (case parse_sockaddr_in e addr_ptr addrlen k of
                    Inl err \<Rightarrow> (Inr (Ret (- err)), k)
                  | Inr (ip, port) \<Rightarrow>
                      (case on_net (tcp_connect_start (tcpip e) h ip port) k of
                         (Inl err, k) \<Rightarrow> (Inr (Ret (- err)), k)
                       | (Inr _, k) \<Rightarrow>
                           (let d = uptime_ns k + CONNECT_TIMEOUT_NS
                            in turn_end d (\<lambda>_ k. (0, k)) (on_net (tcp_connect_turn (tcpip e) (uptime_ns k) d h) k))))))"

definition sys_bind :: "'n env \<Rightarrow> u64 \<Rightarrow> u64 \<Rightarrow> u64 \<Rightarrow> 'n call" where
  "sys_bind e fd addr_ptr addrlen =
     negating (ebind (socket_handle fd) (\<lambda>(h, kd) k.
       if kd \<noteq> Udp then (Inl EOPNOTSUPP, k)
       else
         (case parse_sockaddr_in e addr_ptr addrlen k of
            Inl err \<Rightarrow> (Inl err, k)
          | Inr (_, port) \<Rightarrow> ebind (on_net (udp_bind (tcpip e) h port)) (\<lambda>_. ret 0) k)))"

definition sys_sendto :: "'n env \<Rightarrow> u64 \<Rightarrow> u64 \<Rightarrow> u64 \<Rightarrow> u64 \<Rightarrow> u64 \<Rightarrow> resume \<Rightarrow> 'n wcall" where
  "sys_sendto e fd buf len dest_addr addrlen at k =
     (case socket_handle fd k of
        (Inl err, k) \<Rightarrow> (Inr (Ret (- err)), k)
      | (Inr (h, Udp), k) \<Rightarrow>
          if unat len > MAX_DGRAM then (Inr (Ret (- EMSGSIZE)), k)
          else
            (case parse_sockaddr_in e dest_addr addrlen k of
               Inl err \<Rightarrow> (Inr (Ret (- err)), k)
             | Inr (ip, port) \<Rightarrow>
                 (case user_read e buf len k of
                    Inl err \<Rightarrow> (Inr (Ret (- err)), k)
                  | Inr payload \<Rightarrow>
                      (case on_net (udp_sendto (tcpip e) (uptime_ns k) h payload ip port) k of
                         (Inl err, k) \<Rightarrow> (Inr (Ret (- err)), k)
                       | (Inr n, k) \<Rightarrow> (Inr (Ret (int n)), k))))
      | (Inr (h, Tcp), k) \<Rightarrow>
          (case user_read e buf (of_nat (min (unat len) SOCK_IO_MAX)) k of
             Inl err \<Rightarrow> (Inr (Ret (- err)), k)
           | Inr payload \<Rightarrow>
               (let d = deadline_of at (uptime_ns k + SEND_TIMEOUT_NS);
                    sent = (case at of AtDeadline _ n \<Rightarrow> n | _ \<Rightarrow> 0)
                in turn_end d (\<lambda>n k. (int n, k)) (on_net (tcp_send (tcpip e) (uptime_ns k) d h payload sent) k))))"

text \<open>The sender's address goes out in the length the caller has room for, then its full length.\<close>

definition give_source :: "'n env \<Rightarrow> u64 \<Rightarrow> u64 \<Rightarrow> ipv4 \<Rightarrow> u16 \<Rightarrow> ('n kernel, i64, unit) eff" where
  "give_source e src_addr addrlen_ptr ip port k =
     (case user_read e addrlen_ptr 4 k of
        Inl err \<Rightarrow> (Inl err, k)
      | Inr b \<Rightarrow>
          (let want = unat (from_le b :: u32);
               sa = encode_sockaddr_in ip port;
               w = min want (length sa)
           in ebind (if w > 0 then user_write e src_addr (take w sa) else ret ()) (\<lambda>_.
                user_write e addrlen_ptr (le_bytes 4 (of_nat SOCKADDR_IN_LEN :: u32))) k))"

definition recv_done :: "'n env \<Rightarrow> SockKind \<Rightarrow> u64 \<Rightarrow> u64 \<Rightarrow> u64 \<Rightarrow> bytes \<times> ipv4 \<times> u16 \<Rightarrow> 'n call" where
  "recv_done e kd buf src_addr addrlen_ptr r =
     (case r of (bs, ip, port) \<Rightarrow>
        negating (ebind (user_write e buf bs) (\<lambda>_.
          ebind (if kd = Udp \<and> src_addr \<noteq> 0 \<and> addrlen_ptr \<noteq> 0 then give_source e src_addr addrlen_ptr ip port
                 else ret ()) (\<lambda>_. ret (int (length bs))))))"

definition sys_recvfrom :: "'n env \<Rightarrow> u64 \<Rightarrow> u64 \<Rightarrow> u64 \<Rightarrow> u64 \<Rightarrow> u64 \<Rightarrow> resume \<Rightarrow> 'n wcall" where
  "sys_recvfrom e fd buf len src_addr addrlen_ptr at k =
     (case socket_handle fd k of
        (Inl err, k) \<Rightarrow> (Inr (Ret (- err)), k)
      | (Inr (h, kd), k) \<Rightarrow>
          (let cap = min (unat len) SOCK_IO_MAX;
               d = deadline_of at (uptime_ns k + RECV_TIMEOUT_NS)
           in case kd of
                Udp \<Rightarrow> turn_end d (recv_done e Udp buf src_addr addrlen_ptr)
                         (on_net (udp_recvfrom (tcpip e) (uptime_ns k) d h cap) k)
              | Tcp \<Rightarrow> turn_end d (\<lambda>bs. recv_done e Tcp buf src_addr addrlen_ptr (bs, [0, 0, 0, 0], 0))
                         (on_net (tcp_recv (tcpip e) (uptime_ns k) d h cap) k)))"

end
