(* ===== verification/Dispatch.thy ===== *)
theory Dispatch
  imports File_Calls
begin

text \<open>
  The system call table, \<open>src/syscall/mod.rs\<close>, with the calls on time (\<open>src/syscall/time.rs\<close>), on the
  system's name (\<open>src/syscall/sysinfo.rs\<close>), \<open>wait4\<close>, \<open>kill\<close> and \<open>exit\<close>.
\<close>

section \<open>Time and names\<close>

definition pack_time :: "u64 \<Rightarrow> u64 \<Rightarrow> bytes" where
  "pack_time sec frac = put_at 8 (le_bytes 8 frac) (put_at 0 (le_bytes 8 sec) (replicate 16 0))"

definition NS_PER_SEC :: u64 where
  "NS_PER_SEC = 1000000000"

definition NS_PER_USEC :: u64 where
  "NS_PER_USEC = 1000"

definition sys_clock_gettime :: "'n env \<Rightarrow> u64 \<Rightarrow> u64 \<Rightarrow> 'n call" where
  "sys_clock_gettime e clk_id tp k =
     (if clk_id \<noteq> CLOCK_REALTIME \<and> clk_id \<noteq> CLOCK_MONOTONIC then (- EINVAL, k)
      else
        (let ns = uptime_ns k
         in negating (ebind (user_write e tp (pack_time (ns div NS_PER_SEC) (ns mod NS_PER_SEC))) (\<lambda>_. ret 0)) k))"

definition sys_gettimeofday :: "'n env \<Rightarrow> u64 \<Rightarrow> 'n call" where
  "sys_gettimeofday e tv k =
     (if tv = 0 then (0, k)
      else
        (let ns = uptime_ns k
         in negating (ebind (user_write e tv (pack_time (ns div NS_PER_SEC) (ns mod NS_PER_SEC div NS_PER_USEC)))
              (\<lambda>_. ret 0)) k))"

definition sys_time :: "'n env \<Rightarrow> u64 \<Rightarrow> 'n call" where
  "sys_time e tloc k =
     (let sec = uptime_ns k div NS_PER_SEC
      in negating (ebind (if tloc \<noteq> 0 then user_write e tloc (le_bytes 8 sec) else ret ()) (\<lambda>_. ret (sint sec))) k)"

definition UTS_FIELD :: nat where
  "UTS_FIELD = 65"

definition uts_fields :: "bytes list" where
  "uts_fields = [str ''ferros'', str ''ferros'', str ''0.1.0'', str ''ferros M9 x86_64'', str ''x86_64'', str ''(none)'']"

fun uts_fill :: "nat \<Rightarrow> bytes list \<Rightarrow> bytes \<Rightarrow> bytes" where
  "uts_fill i [] out = out"
| "uts_fill i (s # ss) out =
     (let n = min (length s) (UTS_FIELD - 1) in uts_fill (i + 1) ss (put_at (i * UTS_FIELD) (take n s) out))"

definition sys_uname :: "'n env \<Rightarrow> u64 \<Rightarrow> 'n call" where
  "sys_uname e buf =
     negating (ebind (user_write e buf (uts_fill 0 uts_fields (replicate (UTS_FIELD * 6) 0))) (\<lambda>_. ret 0))"

section \<open>Processes\<close>

text \<open>\<open>((code & 0xff) << 8) as u32\<close>, or the number of the signal.\<close>

definition encode_status :: "i32 \<Rightarrow> u8 option \<Rightarrow> u32" where
  "encode_status code sig =
     (case sig of Some s \<Rightarrow> ucast s | None \<Rightarrow> push_bit 8 (word_of_int code AND 0xFF))"

definition sys_wait4 :: "'n env \<Rightarrow> i64 \<Rightarrow> u64 \<Rightarrow> 'n wcall" where
  "sys_wait4 e want status_ptr =
     ebind (on_mach (wait_current want)) (\<lambda>r.
       case r of
         Away \<Rightarrow> ret (Wait AtStart)
       | reply.Return None \<Rightarrow> ret (Ret (- ECHILD))
       | reply.Return (Some (child_pid, code, sig)) \<Rightarrow>
           simple (negating (ebind
             (if status_ptr \<noteq> 0 then user_write e status_ptr (le_bytes 4 (encode_status code sig)) else ret ())
             (\<lambda>_. ret (uint child_pid)))))"

definition sys_kill :: "i64 \<Rightarrow> u64 \<Rightarrow> 'n wcall" where
  "sys_kill target sig k =
     (if sig > SIG_MAX then (Inr (Ret (- EINVAL)), k)
      else if target \<le> 0 then (Inr (Ret (- ESRCH)), k)
      else ebind (on_mach (signal (word_of_int target) (ucast sig))) (\<lambda>r.
        case r of
          Away \<Rightarrow> ret Gone
        | reply.Return Delivered \<Rightarrow> ret (Ret 0)
        | reply.Return NoSuchProcess \<Rightarrow> ret (Ret (- ESRCH))) k)"

text \<open>\<open>args[0] as i32\<close>.\<close>

definition as_i32 :: "u64 \<Rightarrow> i32" where
  "as_i32 a = sint (ucast a :: u32)"

definition sys_exit :: "'n env \<Rightarrow> u64 \<Rightarrow> 'n wcall" where
  "sys_exit e arg k =
     (let k = release_current_process_fds e k;
          status = as_i32 arg;
          k = k\<lparr>LAST_EXIT_CODE := status, EXIT_CODE_SUM := EXIT_CODE_SUM k + word_of_int status,
                EXIT_CALLS := EXIT_CALLS k + 1\<rparr>
      in ebind (on_mach (exit_current status)) (\<lambda>_. ret Gone) k)"

section \<open>The table\<close>

text \<open>A call that may panic but not wait.\<close>

definition panicky :: "('n kernel, string, i64) eff \<Rightarrow> 'n wcall" where
  "panicky f = ebind f (\<lambda>r. ret (Ret r))"

text \<open>\<open>at\<close> is where a call that waited goes on; \<open>a\<close> are the six argument registers.\<close>

definition dispatch :: "'n env \<Rightarrow> u64 \<Rightarrow> u64 list \<Rightarrow> u64 \<Rightarrow> resume \<Rightarrow> 'n wcall" where
  "dispatch e nr a user_rsp at =
     (if nr = SYS_WRITE then panicky (sys_write e (a ! 0) (a ! 1) (a ! 2) user_rsp)
      else if nr = SYS_OPEN then simple (sys_open e (a ! 0) (a ! 1))
      else if nr = SYS_READ then sys_read e (a ! 0) (a ! 1) (a ! 2)
      else if nr = SYS_WRITEV then panicky (sys_writev e (a ! 0) (a ! 1) (a ! 2) user_rsp)
      else if nr = SYS_READV then sys_readv e (a ! 0) (a ! 1) (a ! 2) at
      else if nr = SYS_FCNTL then simple (sys_fcntl e (a ! 0) (a ! 1) (a ! 2))
      else if nr = SYS_SOCKET then simple (sys_socket e (a ! 0) (a ! 1))
      else if nr = SYS_CONNECT then sys_connect e (a ! 0) (a ! 1) (a ! 2) at
      else if nr = SYS_BIND then simple (sys_bind e (a ! 0) (a ! 1) (a ! 2))
      else if nr = SYS_SENDTO then sys_sendto e (a ! 0) (a ! 1) (a ! 2) (a ! 4) (a ! 5) at
      else if nr = SYS_RECVFROM then sys_recvfrom e (a ! 0) (a ! 1) (a ! 2) (a ! 4) (a ! 5) at
      else if nr = SYS_CLOSE then simple (sys_close e (a ! 0))
      else if nr = SYS_BRK then simple (sys_brk e (a ! 0))
      else if nr = SYS_STAT \<or> nr = SYS_LSTAT then simple (sys_stat e (a ! 0) (a ! 1))
      else if nr = SYS_FSTAT then simple (sys_fstat e (a ! 0) (a ! 1))
      else if nr = SYS_CLOCK_GETTIME then simple (sys_clock_gettime e (a ! 0) (a ! 1))
      else if nr = SYS_GETTIMEOFDAY then simple (sys_gettimeofday e (a ! 0))
      else if nr = SYS_TIME then simple (sys_time e (a ! 0))
      else if nr = SYS_PIPE then simple (sys_pipe e (a ! 0))
      else if nr = SYS_DUP2 then simple (sys_dup2 e (a ! 0) (a ! 1))
      else if nr = SYS_GETDENTS64 then sys_getdents64 e (a ! 0) (a ! 1) (a ! 2)
      else if nr = SYS_LSEEK then simple (sys_lseek (a ! 0) (sint (a ! 1)) (a ! 2))
      else if nr = SYS_CHDIR then simple (sys_chdir e (a ! 0))
      else if nr = SYS_GETCWD then simple (sys_getcwd e (a ! 0) (a ! 1))
      else if nr = SYS_MKDIR then simple (sys_mkdir e (a ! 0))
      else if nr = SYS_RMDIR then simple (sys_rmdir e (a ! 0))
      else if nr = SYS_UNLINK then simple (sys_unlink e (a ! 0))
      else if nr = SYS_GETPID then simple (\<lambda>k. (uint (current_pid (kmach k)), k))
      else if nr = SYS_GETPPID then simple (\<lambda>k. (uint (current_ppid (kmach k)), k))
      else if nr = SYS_GETUID \<or> nr = SYS_GETEUID \<or> nr = SYS_GETGID \<or> nr = SYS_GETEGID then ret (Ret 0)
      else if nr = SYS_UNAME then simple (sys_uname e (a ! 0))
      else if nr = SYS_WAIT4 then sys_wait4 e (sint (a ! 0)) (a ! 1)
      else if nr = SYS_KILL then sys_kill (sint (a ! 0)) (a ! 1)
      else if nr = SYS_EXIT \<or> nr = SYS_EXIT_GROUP then sys_exit e (a ! 0)
      else ret (Ret (- ENOSYS)))"

end
