(* ===== verification/Call_Inv.thy ===== *)
theory Call_Inv
  imports Dispatch
begin

text \<open>
  Invariants of the kernel under system calls. A call touches the table of its process, and the
  objects shared between tables, through a few elementary operations: it looks at a descriptor,
  changes the state of an open file, takes a new descriptor, gives one up, duplicates one, moves the
  heap or the working directory. The locale \<open>kernel_invariant\<close> asks that these keep an invariant, and
  concludes that every system call does; \<open>process_invariant\<close> adds the operations on whole processes and
  concludes that the invariant holds in every state the kernel reaches.
\<close>

section \<open>Steps that leave the tables alone\<close>

definition ends_of :: "'n kernel \<Rightarrow> (nat \<times> nat) list" where
  "ends_of k = map (\<lambda>b. (readers b, writers b)) (pipes k)"

definition same_fds :: "'n kernel \<Rightarrow> 'n kernel \<Rightarrow> bool" where
  "same_fds k k' \<longleftrightarrow> procs k' = procs k \<and> ends_of k' = ends_of k \<and> socks k' = socks k"

lemma same_fds_refl [simp]: "same_fds k k"
  by (simp add: same_fds_def)

lemma same_fds_trans: "same_fds a b \<Longrightarrow> same_fds b c \<Longrightarrow> same_fds a c"
  by (simp add: same_fds_def)

named_theorems same "steps that leave the descriptor tables alone"

lemma user_write_same [same]: "user_write e dst src k = (r, k') \<Longrightarrow> same_fds k k'"
  by (auto simp: user_write_def same_fds_def ends_of_def split: prod.splits)

lemma on_mach_same [same]: "on_mach f k = (r, k') \<Longrightarrow> same_fds k k'"
  by (auto simp: on_mach_def same_fds_def ends_of_def split: prod.splits)

lemma on_disk_same [same]: "on_disk f k = (r, k') \<Longrightarrow> same_fds k k'"
  by (auto simp: on_disk_def same_fds_def ends_of_def split: prod.splits)

lemma on_net_same [same]: "on_net f k = (r, k') \<Longrightarrow> same_fds k k'"
  by (auto simp: on_net_def same_fds_def ends_of_def split: prod.splits)

lemma fs_call_same [same]: "fs_call f k = (r, k') \<Longrightarrow> same_fds k k'"
  by (auto simp: fs_call_def split: prod.splits sum.splits dest: on_disk_same)

lemma same_procs: "same_fds k k' \<Longrightarrow> procs k' = procs k"
  by (simp add: same_fds_def)

lemma same_data: "same_fds k (upd_pipe i (\<lambda>b. b\<lparr>pdata := f b\<rparr>) k)"
  by (cases "i < length (pipes k)")
     (auto simp: same_fds_def upd_pipe_def ends_of_def list_eq_iff_nth_eq nth_list_update list_update_beyond)

lemma same_wake: "same_fds k (wake_pipes k)"
  by (simp add: same_fds_def wake_pipes_def ends_of_def)

lemma same_sinks: "same_fds k (vga_sink bs k)" "same_fds k (serial_sink bs k)"
  by (simp_all add: same_fds_def vga_sink_def serial_sink_def ends_of_def)

lemma look_fds_eq: "look_fds f k = (f (fds (current_proc k)), put_proc (current_key k) (current_proc k) k)"
  by (simp add: look_fds_def with_current_fds_def with_current_proc_def)

lemma put_proc_frame [simp]:
  "pipes (put_proc key p k) = pipes k" "umem (put_proc key p k) = umem k" "current_key (put_proc key p k) = current_key k"
  "kframes (put_proc key p k) = kframes k"  "kmach (put_proc key p k) = kmach k" "console (put_proc key p k) = console k"
  "kdisk (put_proc key p k) = kdisk k" "socks (put_proc key p k) = socks k"
  by (simp_all add: put_proc_def umem_def current_key_def)

lemma current_proc_put [simp]: "current_key k = key \<Longrightarrow> current_proc (put_proc key p k) = p"
  by (simp add: current_proc_def put_proc_def current_key_def update_conv')

lemma put_proc_twice [simp]: "put_proc key p (put_proc key q k) = put_proc key p k"
  by (simp add: put_proc_def update_last)

section \<open>Keeping an invariant\<close>

definition safe :: "('n kernel \<Rightarrow> bool) \<Rightarrow> ('n kernel \<Rightarrow> 'a \<times> 'n kernel) \<Rightarrow> bool" where
  "safe I m \<longleftrightarrow> (\<forall>k. I k \<longrightarrow> I (snd (m k)))"

lemma safeI: "(\<And>k r k'. I k \<Longrightarrow> m k = (r, k') \<Longrightarrow> I k') \<Longrightarrow> safe I m"
  unfolding safe_def by (metis prod.collapse)

lemma safeD: "safe I m \<Longrightarrow> I k \<Longrightarrow> m k = (r, k') \<Longrightarrow> I k'"
  unfolding safe_def by (metis snd_conv)

lemma safe_const: "safe I (\<lambda>k. (r, k))"
  by (simp add: safe_def)

lemma safe_reader: "safe I (\<lambda>k. (f k, k))"
  by (simp add: safe_def)

lemma safe_bind: "safe I m \<Longrightarrow> (\<And>r. safe I (f r)) \<Longrightarrow> safe I (\<lambda>k. case m k of (r, k') \<Rightarrow> f r k')"
  by (rule safeI) (auto split: prod.splits dest: safeD)

lemma safe_ebind: "safe I m \<Longrightarrow> (\<And>x. safe I (f x)) \<Longrightarrow> safe I (ebind m f)"
  by (rule safeI) (auto simp: ebind_def split: prod.splits sum.splits dest: safeD)

lemma safe_ret: "safe I (ret x)" "safe I (fail x)"
  by (simp_all add: safe_def ret_def fail_def)

lemma safe_negating: "safe I m \<Longrightarrow> safe I (negating m)"
  by (rule safeI) (auto simp: negating_def split: prod.splits sum.splits dest: safeD)

lemma safe_simple: "safe I m \<Longrightarrow> safe I (simple m)"
  by (rule safeI) (auto simp: simple_def split: prod.splits dest: safeD)

lemma safe_if: "(b \<Longrightarrow> safe I m) \<Longrightarrow> (\<not> b \<Longrightarrow> safe I m') \<Longrightarrow> safe I (if b then m else m')"
  by simp

lemma safe_cond: "safe I m \<Longrightarrow> safe I (\<lambda>k. if b then m k else (r, k))"
  by (simp add: safe_def)

lemma safe_case_sum: "(\<And>a. safe I (f a)) \<Longrightarrow> (\<And>b. safe I (g b)) \<Longrightarrow> safe I (\<lambda>k. case r of Inl a \<Rightarrow> f a k | Inr b \<Rightarrow> g b k)"
  by (cases r) simp_all

lemma safe_apfst: "safe I m \<Longrightarrow> safe I (\<lambda>k. apfst h (m k))"
  by (simp add: safe_def)

lemma safe_panicky: "safe I f \<Longrightarrow> safe I (panicky f)"
  unfolding panicky_def by (intro safe_ebind safe_ret)

section \<open>Elementary operations\<close>

text \<open>A step that changes at most the state of one open file, and never makes a directory writable
  or a read-only file dirty.\<close>

definition edits :: "Fd option list \<Rightarrow> Fd option list \<Rightarrow> bool" where
  "edits fs fs' \<longleftrightarrow> fs' = fs \<or> (\<exists>i f g. get_fd fs i = Some (Fd_File f) \<and> fs' = fs[i := Some (Fd_File g)] \<and>
     is_dir g = is_dir f \<and> writable g = writable f \<and> (dirty g \<longrightarrow> dirty f \<or> writable f))"

lemma edits_refl [simp]: "edits fs fs"
  by (simp add: edits_def)

lemma editsI:
  "get_fd fs i = Some (Fd_File f) \<Longrightarrow> is_dir g = is_dir f \<Longrightarrow> writable g = writable f \<Longrightarrow> dirty g \<longrightarrow> dirty f \<or> writable f \<Longrightarrow>
   edits fs (fs[i := Some (Fd_File g)])"
  unfolding edits_def by blast

text \<open>A file as \<open>open\<close> makes it.\<close>

definition fresh_file :: "OpenFile \<Rightarrow> bool" where
  "fresh_file f \<longleftrightarrow> \<not> dirty f \<and> (is_dir f \<longrightarrow> \<not> writable f)"

lemma open_node_fresh: "open_node path flags k = (Inr f, k') \<Longrightarrow> fresh_file f"
  by (auto simp: open_node_def Let_def fresh_file_def res_simps split: sum.splits Node.splits if_splits)

text \<open>Where the end of the heap may be.\<close>

definition heap_end_ok :: "u64 \<Rightarrow> bool" where
  "heap_end_ok a \<longleftrightarrow> USER_HEAP_BASE \<le> a \<and> a \<le> USER_HEAP_MAX"

abbreviation put_current :: "ProcState \<Rightarrow> 'n kernel \<Rightarrow> 'n kernel \<Rightarrow> 'n kernel" where
  "put_current p k k' \<equiv> put_proc (current_key k) p k'"

locale kernel_invariant =
  fixes e :: "'n env" and I :: "'n kernel \<Rightarrow> bool"
  assumes I_same: "same_fds k k' \<Longrightarrow> I k \<Longrightarrow> I k'"
    and I_edit: "I k \<Longrightarrow> same_fds k k' \<Longrightarrow> edits (fds (current_proc k)) fs \<Longrightarrow>
      I (put_current ((current_proc k)\<lparr>fds := fs\<rparr>) k k')"
    and I_cwd: "I k \<Longrightarrow> I (put_current ((current_proc k)\<lparr>cwd := normalize path\<rparr>) k k)"
    and I_brk: "I k \<Longrightarrow> same_fds k k' \<Longrightarrow> heap_end_ok a \<or> a = brk (current_proc k) \<Longrightarrow>
      I (put_current ((current_proc k)\<lparr>brk := a\<rparr>) k k')"
    and I_open: "I k \<Longrightarrow> fresh_file f \<Longrightarrow> alloc_fd e (Fd_File f) (fds (current_proc k)) k = (r, fs, k') \<Longrightarrow>
      I (put_current ((current_proc k)\<lparr>fds := fs\<rparr>) k k')"
    and I_close: "I k \<Longrightarrow> take_fd i (fds (current_proc k)) k = (x, fs, k') \<Longrightarrow>
      I (drop_fds e [x] (put_current ((current_proc k)\<lparr>fds := fs\<rparr>) k k'))"
    and I_dup2: "safe I (sys_dup2 e src dst)"
    and I_dupfd: "safe I (fcntl_dupfd e fd arg)"
    and I_pipe: "safe I (\<lambda>k. with_current_fds (alloc_pipe e (length (pipes k))) (new_pipe k))"
    and I_socket: "safe I (add_socket e h kd)"
    and I_release: "I k \<Longrightarrow> I (release_current_process_fds e k)"
begin

lemma safe_same: "(\<And>k r k'. m k = (r, k') \<Longrightarrow> same_fds k k') \<Longrightarrow> safe I m"
  by (rule safeI) (auto dest: I_same)

lemma safe_edit:
  assumes "\<And>fs k r fs' k'. f fs k = (r, fs', k') \<Longrightarrow> same_fds k k' \<and> edits fs fs'"
  shows "safe I (with_current_fds f)"
  by (rule safeI)
     (auto simp: with_current_fds_def with_current_proc_def split: prod.splits dest!: assms intro: I_edit)

lemma safe_look: "safe I (look_fds f)"
  unfolding look_fds_def by (rule safe_edit) auto

lemma safe_current_cwd: "safe I current_cwd"
proof (rule safeI)
  fix k r k' assume "I k" "current_cwd k = (r, k')"
  with I_edit [of k k "fds (current_proc k)"] show "I k'"
    by (auto simp: current_cwd_def with_current_proc_def)
qed

lemma safe_user_write: "safe I (user_write e dst src)"
  by (rule safe_same) (rule user_write_same)

lemma safe_on_mach: "safe I (on_mach f)"
  by (rule safe_same) (rule on_mach_same)

lemma safe_on_net: "safe I (on_net f)"
  by (rule safe_same) (rule on_net_same)

lemma safe_fs_call: "safe I (fs_call f)"
  by (rule safe_same) (rule fs_call_same)

lemmas safe_rules = safe_const safe_ebind safe_ret safe_negating safe_simple safe_look
  safe_user_write safe_on_mach safe_on_net safe_fs_call

lemma safe_resolve_path: "safe I (resolve_path p)"
  by (rule safeI) (auto simp: resolve_path_def Let_def split: prod.splits if_splits dest: safeD [OF safe_current_cwd])

lemma safe_path_arg: "safe I (path_arg e p)"
  by (rule safeI)
     (auto simp: path_arg_def split: prod.splits sum.splits if_splits dest: safeD [OF safe_resolve_path])

lemma safe_open_node: "safe I (open_node path flags)"
proof (rule safeI)
  fix k r k' assume k: "I k" and o: "open_node path flags k = (r, k')"
  have a: "safe I (ebind (ebind (fs_call (fs_write_file path [])) (\<lambda>_. ret [])) (\<lambda>c. ret (h c)))"
    "safe I (ebind (ret ex) (\<lambda>c. ret (h c)))" "safe I (ebind (fs_call (fs_write_file path [])) (\<lambda>_. ret x))"
    for h :: "bytes \<Rightarrow> OpenFile" and ex and x :: OpenFile
    by (intro safe_rules)+
  from o k show "I k'" unfolding open_node_def Let_def
    by (auto split: sum.splits Node.splits if_splits dest: safeD [OF a(1) k] safeD [OF a(2) k] safeD [OF a(3) k])
qed

lemma safe_sys_open: "safe I (sys_open e p flags)"
proof -
  have "safe I (ebind (open_node path flags) (\<lambda>f k. case with_current_fds (alloc_fd e (Fd_File f)) k of (r, k) \<Rightarrow> (Inr r, k)))" for path
  proof (rule safeI)
    fix k r k'
    assume k: "I k" and o: "ebind (open_node path flags) (\<lambda>f k. case with_current_fds (alloc_fd e (Fd_File f)) k of (r, k) \<Rightarrow> (Inr r, k)) k = (r, k')"
    obtain x k1 where n: "open_node path flags k = (x, k1)" by fastforce
    from safeD [OF safe_open_node k n] have k1: "I k1" .
    show "I k'"
    proof (cases x)
      case (Inl a)
      with o n k1 show ?thesis by simp
    next
      case (Inr f)
      have "fresh_file f" using open_node_fresh n Inr by blast
      from I_open [OF k1 this] o n Inr show ?thesis
        by (auto simp: with_current_fds_def with_current_proc_def split: prod.splits)
    qed
  qed
  from safe_ebind [OF safe_path_arg this] show ?thesis unfolding sys_open_def by (rule safe_negating)
qed

lemma safe_sys_close: "safe I (sys_close e fd)"
proof (rule safeI)
  fix k r k' assume k: "I k" and c: "sys_close e fd k = (r, k')"
  obtain x k1 where t: "with_current_fds (take_fd (unat fd)) k = (x, k1)" by fastforce
  have d: "I (drop_fds e [x] k1)"
    using I_close [OF k, of "unat fd"] t by (auto simp: with_current_fds_def with_current_proc_def split: prod.splits)
  show "I k'"
  proof (cases x)
    case (Some f)
    have fl: "safe I (\<lambda>k. if w then negating (ebind (fs_call g) (\<lambda>_. ret 0)) k else (0, k))"
      for w and g :: "(disk, FatError, unit) eff"
      by (intro safe_cond safe_rules)
    show ?thesis
    proof (cases f)
      case (Fd_File fi)
      with c t Some have "(if writable fi \<and> dirty fi
          then negating (ebind (fs_call (fs_write_file (name fi) (data fi))) (\<lambda>_. ret 0)) k1 else (0, k1)) = (r, k')"
        by (simp add: sys_close_def)
      with safeD [OF fl, of k1] d Some Fd_File show ?thesis by simp
    qed (use c t Some d in \<open>simp_all add: sys_close_def\<close>)
  qed (use c t d in \<open>simp add: sys_close_def\<close>)
qed

lemma safe_sys_fcntl: "safe I (sys_fcntl e fd cmd arg)"
  by (rule safeI) (auto simp: sys_fcntl_def split: if_splits dest: safeD [OF I_dupfd] safeD [OF safe_look])

lemma safe_sys_lseek: "safe I (sys_lseek fd off w)"
  unfolding sys_lseek_def
  by (rule safe_edit) (auto simp: Let_def intro: editsI split: option.splits Fd.splits if_splits)

lemma safe_read_file: "safe I (read_file_fd e fd buf cnt)"
  unfolding read_file_fd_def
  by (rule safe_edit)
     (auto simp: Let_def intro: editsI user_write_same split: option.splits Fd.splits if_splits prod.splits sum.splits)

lemma write_bytes_at_edit:
  "write_bytes_at bs f = Inr g \<Longrightarrow> is_dir g = is_dir f \<and> writable g = writable f"
  by (auto simp: write_bytes_at_def Let_def split: if_splits)

lemma write_file_keeps:
  assumes k: "I k" and w: "write_kind_of fd (fds (current_proc k)) = WFile" and c: "write_file_fd e fd buf cnt k = (r, k')"
  shows "I k'"
proof -
  obtain f where f: "get_fd (fds (current_proc k)) fd = Some (Fd_File f)" "writable f"
    using w by (auto simp: write_kind_of_def split: option.splits Fd.splits if_splits)
  have e: "edits (fds (current_proc k)) ((fds (current_proc k))[fd := Some (Fd_File g)])" if "write_bytes_at bs f = Inr g" for bs g
    using f write_bytes_at_edit [OF that] by (intro editsI) auto
  have "I (put_current (current_proc k) k k)" using I_edit [OF k same_fds_refl edits_refl] by simp
  with c f show ?thesis unfolding write_file_fd_def with_current_fds_def with_current_proc_def
    by (auto split: sum.splits intro: I_edit [OF k] dest: e)
qed

lemma safe_sys_getdents64: "safe I (sys_getdents64 e fd buf cnt)"
  unfolding sys_getdents64_def
proof (rule safe_bind)
  show "safe I (\<lambda>k. case r of Inl msg \<Rightarrow> (Inl msg, k) | Inr r \<Rightarrow> (Inr (Ret r), k))" for r :: "string + i64"
    by (cases r) (simp_all add: safe_const)
qed (rule safe_edit, auto intro: editsI user_write_same split: option.splits Fd.splits if_splits prod.splits sum.splits)

lemma safe_read_pipe: "safe I (read_pipe e fd buf cnt)"
proof (rule safeI)
  fix k r k' assume k: "I k" and c: "read_pipe e fd buf cnt k = (r, k')"
  obtain x k1 where l: "look_fds (\<lambda>fs. case get_fd fs fd of Some (Fd_PipeRead i) \<Rightarrow> Some i | _ \<Rightarrow> None) k = (x, k1)" by fastforce
  from safeD [OF safe_look k l] have k1: "I k1" .
  have b: "safe I (ebind (on_mach block_current_on_pipe) (\<lambda>_. ret (Wait AtStart)))" by (intro safe_rules)
  have w: "I k2" if "user_write e buf bs (upd_pipe i (\<lambda>b. b\<lparr>pdata := f b\<rparr>) k1) = (r, k2)" for bs i f r k2
    using user_write_same [OF that] same_data [of k1 i f] k1 I_same by blast
  show "I k'" using c l k1 safeD [OF b k1]
    by (auto simp: read_pipe_def Let_def split: option.splits if_splits prod.splits sum.splits dest: w)
qed

lemma safe_write_pipe: "safe I (write_pipe e fd buf cnt)"
proof (rule safeI)
  fix k r k' assume k: "I k" and c: "write_pipe e fd buf cnt k = (r, k')"
  obtain x k1 where l: "look_fds (\<lambda>fs. case get_fd fs fd of Some (Fd_PipeWrite i) \<Rightarrow> Some i | _ \<Rightarrow> None) k = (x, k1)" by fastforce
  from safeD [OF safe_look k l] have k1: "I k1" .
  have "I (upd_pipe i (\<lambda>b. b\<lparr>pdata := f b\<rparr>) k1)" "I (wake_pipes (upd_pipe i (\<lambda>b. b\<lparr>pdata := f b\<rparr>) k1))" for i f
    using same_data [of k1 i f] same_wake k1 I_same by blast+
  moreover have "upd_pipe i (\<lambda>b. b) k1 = k1" for i by (simp add: upd_pipe_def)
  ultimately show "I k'" using c l k1
    by (auto simp: write_pipe_def Let_def split: option.splits if_splits sum.splits)
qed

lemma safe_read_stdin: "safe I (read_stdin e buf cnt)"
proof (rule safeI)
  fix k r k' assume k: "I k" and c: "read_stdin e buf cnt k = (r, k')"
  have b: "safe I (ebind (on_mach block_current_on_stdin) (\<lambda>_. ret (Wait AtStart)))" by (intro safe_rules)
  have s: "I (k1\<lparr>console := g\<rparr>) = I k1" for k1 g
    by (rule iffI; erule I_same [rotated]; simp add: same_fds_def ends_of_def)
  have "I k2" if "ebind (on_mach block_current_on_stdin) (\<lambda>_. ret (Wait AtStart)) (k\<lparr>console := g\<rparr>) = (r2, k2)" for g r2 k2
    using safeD [OF b _ that] s k by blast
  moreover have "I k2" if "user_write e buf bs (k\<lparr>console := g\<rparr>) = (r2, k2)" for bs g r2 k2
    using safeD [OF safe_user_write _ that] s k by blast
  ultimately show "I k'" using c k
    by (auto simp: read_stdin_def Let_def s split: if_splits prod.splits sum.splits)
qed

lemma safe_write_device:
  assumes "\<And>bs k. same_fds k (sink bs k)"
  shows "safe I (write_device e fd buf cnt ursp sink)"
proof (rule safe_same)
  fix k r k' assume "write_device e fd buf cnt ursp sink k = (r, k')"
  moreover have "same_fds (sink bs k) (record_write fd bs ursp (sink bs k))" for bs
    by (simp add: same_fds_def record_write_def ends_of_def)
  moreover have "same_fds k (record_write fd bs ursp (sink bs k))" for bs
    using same_fds_trans [OF assms [of k bs]] calculation(2) by blast
  ultimately show "same_fds k k'" by (auto simp: write_device_def split: sum.splits)
qed

lemma safe_sys_write: "safe I (sys_write e fd buf cnt ursp)"
proof (rule safeI)
  fix k r k' assume k: "I k" and c: "sys_write e fd buf cnt ursp k = (r, k')"
  define k1 where "k1 = put_current (current_proc k) k k"
  have l: "look_fds (write_kind_of (unat fd)) k = (write_kind_of (unat fd) (fds (current_proc k1)), k1)"
    by (simp add: look_fds_eq k1_def)
  from safeD [OF safe_look k l] have k1: "I k1" .
  have d: "I k2" if "write_device e fd buf cnt ursp vga_sink k1 = (x, k2) \<or> write_device e fd buf cnt ursp serial_sink k1 = (x, k2) \<or>
      write_pipe e (unat fd) buf cnt k1 = (x, k2)" for x k2
    using that safeD [OF safe_write_device k1, of vga_sink] safeD [OF safe_write_device k1, of serial_sink]
      safeD [OF safe_write_pipe k1] by (metis same_sinks)
  show "I k'"
    using c l k1 d write_file_keeps [OF k1]
    by (cases "write_kind_of (unat fd) (fds (current_proc k1))") (auto simp: sys_write_def apfst_def map_prod_def split: prod.splits)
qed

lemma safe_sys_read: "safe I (sys_read e fd buf cnt)"
proof (rule safeI)
  fix k r k' assume k: "I k" and c: "sys_read e fd buf cnt k = (r, k')"
  obtain x k1 where l: "look_fds (read_kind_of (unat fd)) k = (x, k1)" by fastforce
  from safeD [OF safe_look k l] have k1: "I k1" .
  show "I k'"
    using c l k1 safeD [OF safe_read_stdin k1] safeD [OF safe_read_pipe k1]
      safeD [OF safe_simple [OF safe_read_file] k1]
    by (cases x) (auto simp: sys_read_def)
qed

lemma safe_writev_loop: "safe I (writev_loop e fd iov ursp i n tot)"
proof (induction n arbitrary: i tot)
  case 0
  then show ?case by (simp add: safe_def)
next
  case (Suc n)
  show ?case
  proof (rule safeI)
    fix k r k' assume k: "I k" and c: "writev_loop e fd iov ursp i (Suc n) tot k = (r, k')"
    have w: "I k1" if "sys_write e fd base len ursp k = (x, k1)" for base len x k1
      using safeD [OF safe_sys_write k that] .
    show "I k'" using c k w safeD [OF Suc.IH]
      by (fastforce split: sum.splits prod.splits if_splits)
  qed
qed

lemma safe_readv_loop: "safe I (readv_loop e fd iov i n tot)"
proof (induction n arbitrary: i tot)
  case 0
  then show ?case by (simp add: safe_def)
next
  case (Suc n)
  show ?case
  proof (rule safeI)
    fix k r k' assume k: "I k" and c: "readv_loop e fd iov i (Suc n) tot k = (r, k')"
    have w: "I k1" if "sys_read e fd base len k = (x, k1)" for base len x k1
      using safeD [OF safe_sys_read k that] .
    show "I k'" using c k w safeD [OF Suc.IH]
      by (fastforce split: sum.splits prod.splits if_splits outcome.splits)
  qed
qed

lemma safe_sys_writev: "safe I (sys_writev e fd iov n ursp)"
  by (rule safeI) (auto simp: sys_writev_def split: if_splits dest: safeD [OF safe_writev_loop])

lemma safe_sys_readv: "safe I (sys_readv e fd iov n at)"
  by (rule safeI) (auto simp: sys_readv_def split: if_splits resume.splits dest: safeD [OF safe_readv_loop])

lemma safe_sys_pipe: "safe I (sys_pipe e ptr)"
proof (rule safeI)
  fix k r k' assume k: "I k" and c: "sys_pipe e ptr k = (r, k')"
  have w: "safe I (negating (ebind (user_write e ptr bs) (\<lambda>_. ret 0)))" for bs by (intro safe_rules)
  obtain rw k1 where f: "with_current_fds (alloc_pipe e (length (pipes k))) (new_pipe k) = (rw, k1)" by fastforce
  from safeD [OF I_pipe k f] have k1: "I k1" .
  show "I k'" using c f k1 safeD [OF w k1] by (auto simp: sys_pipe_def split: prod.splits if_splits)
qed

lemma safe_sys_socket: "safe I (sys_socket e dm ty)"
proof (rule safeI)
  fix k r k' assume k: "I k" and c: "sys_socket e dm ty k = (r, k')"
  have n: "I k1" if "on_net f k = (x, k1)" for f :: "('n netst, i64, Handle) eff" and x k1
    using safeD [OF safe_on_net k that] .
  have "I k2" if "add_socket e h kd k1 = (y, k2)" "on_net f k = (x, k1)" for f :: "('n netst, i64, Handle) eff" and x y h kd k1 k2
    using safeD [OF I_socket n [OF that(2)] that(1)] .
  with n show "I k'" using c k
    by (auto simp: sys_socket_def split: if_splits prod.splits sum.splits)
qed

lemma safe_socket_handle: "safe I (socket_handle fd)"
  unfolding socket_handle_def by (rule safe_look)

lemma fd_inv_turn_end:
  assumes "I k" "\<And>x. safe I (fin x)" "turn_end d fin (t, k) = (r, k')"
  shows "I k'"
proof -
  have y: "safe I (ebind (on_mach yield_now) (\<lambda>_. ret (Wait (AtDeadline d n))))" for n by (intro safe_rules)
  have "I k2" if "ebind (on_mach yield_now) (\<lambda>_. ret (Wait (AtDeadline d n))) k = (y, k2)" for n y k2
    by (rule safeD [OF y assms(1) that])
  moreover have "I k2" if "simple (fin x) k = (y, k2)" for x y k2
    by (rule safeD [OF safe_simple [OF assms(2)] assms(1) that])
  ultimately show ?thesis using assms(1,3)
    by (auto simp: turn_end_def split: turn.splits sum.splits)
qed

lemma safe_turn:
  assumes "\<And>x. safe I (fin x)"
  shows "safe I (\<lambda>k. turn_end d fin (on_net f k))"
proof (rule safeI)
  fix k r k' assume k: "I k" and c: "turn_end d fin (on_net f k) = (r, k')"
  obtain t k1 where t: "on_net f k = (t, k1)" by fastforce
  from fd_inv_turn_end [OF safeD [OF safe_on_net k t] assms] c t show "I k'" by simp
qed

lemma safe_sys_connect: "safe I (sys_connect e fd ptr len at)"
proof (rule safeI)
  fix k r k' assume k: "I k" and c: "sys_connect e fd ptr len at k = (r, k')"
  obtain x k1 where h: "socket_handle fd k = (x, k1)" by fastforce
  from safeD [OF safe_socket_handle k h] have k1: "I k1" .
  have t: "I k3" if "turn_end d (\<lambda>_ k. (0, k)) (on_net f k2) = (y, k3)" "I k2"
    for d k2 y k3 and f :: "'n netst \<Rightarrow> (i64 + unit) turn \<times> 'n netst"
    by (rule safeD [OF safe_turn that(2,1)]) (rule safe_const)
  have n: "I k2" if "on_net f k1 = (y, k2)" for f :: "('n netst, i64, unit) eff" and y k2
    using safeD [OF safe_on_net k1 that] .
  show "I k'" using c h k1 t n
    by (auto simp: sys_connect_def Let_def split: sum.splits prod.splits if_splits resume.splits)
qed

lemma safe_sys_bind: "safe I (sys_bind e fd ptr len)"
  unfolding sys_bind_def
proof (intro safe_negating safe_ebind safe_socket_handle)
  fix x :: "Handle \<times> SockKind"
  have n: "safe I (ebind (on_net f) (\<lambda>_. ret 0))" for f :: "('n netst, i64, unit) eff" by (intro safe_rules)
  show "safe I (case x of (h, kd) \<Rightarrow> \<lambda>k :: 'n kernel. if kd \<noteq> Udp then (Inl EOPNOTSUPP, k)
      else case parse_sockaddr_in e ptr len k of Inl err \<Rightarrow> (Inl err, k)
        | Inr (_, port) \<Rightarrow> ebind (on_net (udp_bind (tcpip e) h port)) (\<lambda>_. ret 0) k)"
    by (rule safeI) (auto split: prod.splits if_splits sum.splits dest: safeD [OF n])
qed

lemma safe_sys_sendto: "safe I (sys_sendto e fd buf len ptr alen at)"
proof (rule safeI)
  fix k r k' assume k: "I k" and c: "sys_sendto e fd buf len ptr alen at k = (r, k')"
  obtain x k1 where h: "socket_handle fd k = (x, k1)" by fastforce
  from safeD [OF safe_socket_handle k h] have k1: "I k1" .
  have t: "I k3" if "turn_end d (\<lambda>n k. (int n, k)) (on_net f k1) = (y, k3)"
    for d y k3 and f :: "'n netst \<Rightarrow> (i64 + nat) turn \<times> 'n netst"
    by (rule safeD [OF safe_turn k1 that]) (rule safe_const)
  have n: "I k2" if "on_net f k1 = (y, k2)" for f :: "('n netst, i64, nat) eff" and y k2
    using safeD [OF safe_on_net k1 that] .
  show "I k'" using c h k1 t n
    by (auto simp: sys_sendto_def Let_def split: sum.splits prod.splits if_splits SockKind.splits)
qed

lemma safe_give_source: "safe I (give_source e src alen ip port)"
proof (rule safeI)
  fix k r k' assume "I k" "give_source e src alen ip port k = (r, k')"
  moreover have "safe I (ebind (if w then user_write e src bs else ret ()) (\<lambda>_. user_write e alen bs'))" for w bs bs'
    by (intro safe_ebind safe_if safe_rules)
  ultimately show "I k'" by (auto simp: give_source_def Let_def split: sum.splits dest: safeD)
qed

lemma safe_recv_done: "safe I (recv_done e kd buf src alen r)"
proof -
  have "safe I (negating (ebind (user_write e buf bs) (\<lambda>_.
          ebind (if w then give_source e src alen ip port else ret ()) (\<lambda>_. ret (int (length bs))))))" for w bs ip port
    by (intro safe_negating safe_ebind safe_if safe_rules safe_give_source)
  then show ?thesis by (simp add: recv_done_def split: prod.splits)
qed

lemma safe_sys_recvfrom: "safe I (sys_recvfrom e fd buf len src alen at)"
proof (rule safeI)
  fix k r k' assume k: "I k" and c: "sys_recvfrom e fd buf len src alen at k = (r, k')"
  obtain x k1 where h: "socket_handle fd k = (x, k1)" by fastforce
  from safeD [OF safe_socket_handle k h] have k1: "I k1" .
  have t1: "I k3" if "turn_end d (recv_done e Udp buf src alen) (on_net f k1) = (y, k3)" for d y k3 f
    by (rule safeD [OF safe_turn k1 that]) (rule safe_recv_done)
  have t2: "I k3" if "turn_end d (\<lambda>bs. recv_done e Tcp buf src alen (bs, [0, 0, 0, 0], 0)) (on_net f k1) = (y, k3)" for d y k3 f
    by (rule safeD [OF safe_turn k1 that]) (rule safe_recv_done)
  show "I k'" using c h k1 t1 t2
    by (auto simp: sys_recvfrom_def Let_def split: sum.splits prod.splits if_splits SockKind.splits)
qed

lemma path_arg_normal: "path_arg e p k = (Inr path, k') \<Longrightarrow> \<exists>q. path = normalize q"
  by (auto simp: path_arg_def resolve_path_def Let_def split: sum.splits prod.splits if_splits)

lemma safe_sys_chdir: "safe I (sys_chdir e p)"
  unfolding sys_chdir_def
proof (rule safe_negating, rule safeI)
  fix k r k'
  assume k: "I k" and c: "ebind (path_arg e p) (\<lambda>resolved k. case fs_lookup (kdisk k) resolved of
      Inr (DirNode _) \<Rightarrow> (case with_current_proc (\<lambda>p k. ((), p\<lparr>cwd := resolved\<rparr>, k)) k of (_, k) \<Rightarrow> (Inr 0, k))
    | Inr (FileNode _) \<Rightarrow> (Inl ENOTDIR, k) | Inl err \<Rightarrow> (Inl (fat_errno err), k)) k = (r, k')"
  obtain x k1 where a: "path_arg e p k = (x, k1)" by fastforce
  from safeD [OF safe_path_arg k a] have k1: "I k1" .
  show "I k'"
  proof (cases x)
    case (Inr path)
    then obtain q where "path = normalize q" using path_arg_normal a by blast
    with c a k1 Inr I_cwd [OF k1, of q] show ?thesis
      by (auto simp: with_current_proc_def split: sum.splits Node.splits)
  qed (use c a k1 in simp)
qed

lemma safe_sys_getcwd: "safe I (sys_getcwd e buf sz)"
proof (rule safeI)
  fix k r k' assume k: "I k" and c: "sys_getcwd e buf sz k = (r, k')"
  obtain w k1 where cw: "current_cwd k = (w, k1)" by fastforce
  have "safe I (negating (ebind (user_write e buf bs) (\<lambda>_. ret x)))" for bs x by (intro safe_rules)
  with c cw safeD [OF safe_current_cwd k cw] show "I k'"
    by (auto simp: sys_getcwd_def split: if_splits dest: safeD)
qed

lemma safe_sys_mkdir: "safe I (sys_mkdir e p)" "safe I (sys_unlink e p)" "safe I (sys_rmdir e p)"
  unfolding sys_mkdir_def sys_unlink_def sys_rmdir_def by (intro safe_rules safe_path_arg)+

lemma safe_sys_stat: "safe I (sys_stat e p buf)"
proof -
  have w: "safe I (ebind (user_write e buf bs) (\<lambda>_. ret 0))" for bs by (intro safe_rules)
  have "safe I (\<lambda>k. case fs_stat (kdisk k) resolved of Inl err \<Rightarrow> (Inl (fat_errno err), k)
      | Inr meta \<Rightarrow> ebind (user_write e buf (build_stat (file_mode (meta_is_dir meta)) (ucast (meta_first_cluster meta))
          (if meta_is_dir meta then 2 else 1) (ucast (meta_size meta)))) (\<lambda>_. ret 0) k)" for resolved
    by (rule safeI) (auto split: sum.splits dest: safeD [OF w])
  then show ?thesis unfolding sys_stat_def by (intro safe_negating safe_ebind safe_path_arg)
qed

lemma safe_sys_fstat: "safe I (sys_fstat e fd buf)"
proof (rule safeI)
  fix k r k' assume k: "I k" and c: "sys_fstat e fd buf k = (r, k')"
  obtain w k1 where l: "look_fds (\<lambda>fs. map_option fstat_of (get_fd fs (unat fd))) k = (w, k1)" by fastforce
  have "safe I (negating (ebind (user_write e buf bs) (\<lambda>_. ret 0)))" for bs by (intro safe_rules)
  with c l safeD [OF safe_look k l] show "I k'"
    by (auto simp: sys_fstat_def split: option.splits dest: safeD)
qed

lemma safe_sys_brk: "safe I (sys_brk e addr)"
proof (rule safeI)
  fix k r k' assume k: "I k" and c: "sys_brk e addr k = (r, k')"
  have f: "same_fds k (k\<lparr>kframes := g\<rparr>)" for g by (simp add: same_fds_def ends_of_def)
  have stay: "I (put_current (current_proc k) k k)" "I (put_current (current_proc k) k (k\<lparr>kframes := g\<rparr>))" for g
    using I_brk [OF k same_fds_refl, of "brk (current_proc k)"] I_brk [OF k f, of "brk (current_proc k)"] by simp_all
  have move: "I (put_current ((current_proc k)\<lparr>brk := addr\<rparr>) k k)"
    "I (put_current ((current_proc k)\<lparr>brk := addr\<rparr>) k (k\<lparr>kframes := g\<rparr>))" if "heap_end_ok addr" for g
    using I_brk [OF k same_fds_refl, of addr] I_brk [OF k f, of addr] that by simp_all
  show "I k'"
  proof (cases "heap_end_ok addr")
    case True
    obtain b g where "map_pages e (current_key k) [] (step_by_4096 (page_up (brk (current_proc k))) (page_up addr)) (kframes k) = (b, g)"
      by (rule prod.exhaust)
    with True c show ?thesis
      using move(1) [OF True] move(2) [OF True, of g] stay(1) stay(2) [of g]
        move(2) [OF True, of "unmap_pages e (current_key k) (step_by_4096 (page_up addr) (page_up (brk (current_proc k)))) (kframes k)"]
      by (cases b) (auto simp: sys_brk_def with_current_proc_def heap_end_ok_def Let_def split: if_splits)
  next
    case False
    with c stay(1) show ?thesis
      by (auto simp: sys_brk_def with_current_proc_def heap_end_ok_def Let_def)
  qed
qed

lemma safe_times: "safe I (sys_clock_gettime e c tp)" "safe I (sys_gettimeofday e tv)" "safe I (sys_time e tloc)"
  "safe I (sys_uname e buf)"
proof -
  have w: "safe I (negating (ebind (user_write e buf bs) (\<lambda>_. ret x)))" for bs x buf by (intro safe_rules)
  have t: "safe I (negating (ebind (if b then user_write e tloc bs else ret ()) (\<lambda>_. ret x)))" for b bs x
    by (intro safe_negating safe_ebind safe_if safe_rules)
  show "safe I (sys_clock_gettime e c tp)" "safe I (sys_gettimeofday e tv)" "safe I (sys_time e tloc)" "safe I (sys_uname e buf)"
    by (rule safeI, auto simp: sys_clock_gettime_def sys_gettimeofday_def sys_time_def sys_uname_def Let_def
      split: if_splits dest: safeD [OF w] safeD [OF t])+
qed

lemma safe_sys_wait4: "safe I (sys_wait4 e want ptr)"
  unfolding sys_wait4_def
proof (rule safe_ebind [OF safe_on_mach])
  fix r :: "(u32 \<times> i32 \<times> u8 option) option reply"
  have "safe I (simple (negating (ebind (if b then user_write e ptr bs else ret ()) (\<lambda>_. ret x))))" for b bs x
    by (intro safe_simple safe_negating safe_ebind safe_if safe_rules)
  then show "safe I (case r of Away \<Rightarrow> ret (Wait AtStart)
       | reply.Return None \<Rightarrow> ret (Ret (- ECHILD))
       | reply.Return (Some (child_pid, code, sig)) \<Rightarrow>
           simple (negating (ebind
             (if ptr \<noteq> 0 then user_write e ptr (le_bytes 4 (encode_status code sig)) else ret ())
             (\<lambda>_. ret (uint child_pid)))))"
    by (auto simp: safe_ret split: reply.splits option.splits prod.splits)
qed

lemma safe_sys_kill: "safe I (sys_kill target sig)"
proof -
  have s: "safe I (ebind (on_mach (signal t s)) (\<lambda>r. case r of Away \<Rightarrow> ret Gone | reply.Return Delivered \<Rightarrow> ret (Ret 0)
        | reply.Return NoSuchProcess \<Rightarrow> ret (Ret (- ESRCH))))" for t s
    by (rule safe_ebind [OF safe_on_mach]) (auto simp: safe_ret split: reply.splits SignalOutcome.splits)
  show ?thesis by (rule safeI) (auto simp: sys_kill_def split: if_splits dest: safeD [OF s])
qed

lemma safe_sys_exit: "safe I (sys_exit e arg)"
proof -
  have x: "safe I (ebind (on_mach (exit_current s)) (\<lambda>_. ret Gone))" for s by (intro safe_rules)
  have "I ((release_current_process_fds e k)\<lparr>LAST_EXIT_CODE := a, EXIT_CODE_SUM := b, EXIT_CALLS := c\<rparr>)"
    if "I k" for k a b c
    using I_release [OF that] by (rule I_same [rotated]) (simp add: same_fds_def ends_of_def)
  from safeD [OF x this] show ?thesis by (intro safeI) (simp add: sys_exit_def Let_def)
qed

lemmas safe_calls = safe_sys_write safe_sys_open safe_sys_read safe_sys_writev safe_sys_readv
  safe_sys_fcntl safe_sys_socket safe_sys_connect safe_sys_bind safe_sys_sendto safe_sys_recvfrom
  safe_sys_close safe_sys_brk safe_sys_stat safe_sys_fstat safe_times safe_sys_pipe I_dup2
  safe_sys_getdents64 safe_sys_lseek safe_sys_chdir safe_sys_getcwd safe_sys_mkdir safe_sys_wait4
  safe_sys_kill safe_sys_exit safe_reader

lemma safe_dispatch: "safe I (dispatch e nr a ursp at)"
  unfolding dispatch_def by (intro safe_if safe_panicky safe_simple safe_ret safe_calls)

end

section \<open>Reachable states\<close>

text \<open>
  What can happen to the kernel: system calls of any process, the table operations of \<open>fork\<close>,
  \<open>exec\<close> and the reaper, keys, and anything that concerns only memory, the scheduler and the clock
  (user programs, context switches, ticks).
\<close>

inductive kstep :: "'n env \<Rightarrow> 'n kernel \<Rightarrow> 'n kernel \<Rightarrow> bool" for e where
  call: "dispatch e nr a ursp at k = (r, k') \<Longrightarrow> kstep e k k'"
| fork: "kstep e k (fork_fds e par child k)"
| exec: "kstep e k (rekey_process e old new k)"
| reap: "kstep e k (forget_process e key k)"
| key: "feed_char c (console k, kscreen k, kmach k) = (r, con, scr, m) \<Longrightarrow>
    kstep e k (k\<lparr>console := con, kscreen := scr, kmach := m\<rparr>)"
| other: "kstep e k (k\<lparr>kframes := g, kmach := m, ticks := t\<rparr>)"

inductive kreach :: "'n env \<Rightarrow> 'n kernel \<Rightarrow> bool" for e where
  boot: "procs k = [] \<Longrightarrow> pipes k = [] \<Longrightarrow> socks k = [] \<Longrightarrow> kreach e k"
| step: "kreach e k \<Longrightarrow> kstep e k k' \<Longrightarrow> kreach e k'"

lemma kstep_call: "kstep e k (snd (dispatch e nr a ursp at k))"
  by (rule kstep.call) (rule prod.collapse [symmetric])

locale process_invariant = kernel_invariant +
  assumes I_boot: "procs k = [] \<Longrightarrow> pipes k = [] \<Longrightarrow> socks k = [] \<Longrightarrow> I k"
    and I_fork: "I k \<Longrightarrow> I (fork_fds e par child k)"
    and I_exec: "I k \<Longrightarrow> I (rekey_process e old new k)"
    and I_reap: "I k \<Longrightarrow> I (forget_process e key k)"
begin

lemma step_keeps: "kstep e k k' \<Longrightarrow> I k \<Longrightarrow> I k'"
proof (induction rule: kstep.induct)
  case (call nr a ursp at k r k')
  then show ?case using safeD [OF safe_dispatch] by blast
next
  case (key c k r con scr m)
  then show ?case by (elim I_same [rotated]) (simp add: same_fds_def ends_of_def)
next
  case (other k g m t)
  then show ?case by (elim I_same [rotated]) (simp add: same_fds_def ends_of_def)
qed (rule I_fork I_exec I_reap, assumption)+

lemma reach_holds: "kreach e k \<Longrightarrow> I k"
  by (induction rule: kreach.induct) (auto intro: I_boot step_keeps)

end

end
