(* ===== verification/Fd_Inv.thy ===== *)
theory Fd_Inv
  imports Call_Inv "HOL-Library.Multiset"
begin

text \<open>
  The bookkeeping of shared objects. The counters of a pipe's ends and of a socket's references
  always equal the number of descriptors, over all processes, that refer to it. \<open>Clone\<close> and \<open>Drop\<close>
  keep a balance between the counters and the collection of descriptors held anywhere, in the
  tables or by a running system call; every operation on the tables is then an exchange between the
  two.
\<close>

section \<open>Descriptors held\<close>

fun fd_mset :: "Fd option list \<Rightarrow> Fd multiset" where
  "fd_mset [] = {#}"
| "fd_mset (None # fs) = fd_mset fs"
| "fd_mset (Some f # fs) = add_mset f (fd_mset fs)"

fun opt_mset :: "Fd option \<Rightarrow> Fd multiset" where
  "opt_mset None = {#}"
| "opt_mset (Some f) = {#f#}"

fun tab :: "(u64 \<times> ProcState) list \<Rightarrow> Fd multiset" where
  "tab [] = {#}"
| "tab (kp # ps) = fd_mset (fds (snd kp)) + tab ps"

lemma fd_mset_Cons: "fd_mset (x # fs) = opt_mset x + fd_mset fs"
  by (cases x) auto

lemma fd_mset_append [simp]: "fd_mset (xs @ ys) = fd_mset xs + fd_mset ys"
  by (induction xs rule: fd_mset.induct) auto

lemma fd_mset_replicate [simp]: "fd_mset (replicate n None) = {#}"
  by (induction n) auto

lemma fd_mset_update:
  "i < length fs \<Longrightarrow> fd_mset (fs[i := v]) + opt_mset (fs ! i) = fd_mset fs + opt_mset v"
  by (induction fs arbitrary: i) (auto simp: fd_mset_Cons nth_Cons split: nat.splits)

lemma tab_update_None:
  "map_of ps key = None \<Longrightarrow> tab (AList.update key p ps) = tab ps + fd_mset (fds p)"
  by (induction ps) (auto split: if_splits)

lemma tab_update_Some:
  "map_of ps key = Some q \<Longrightarrow> tab (AList.update key p ps) + fd_mset (fds q) = tab ps + fd_mset (fds p)"
  by (induction ps) (auto split: if_splits simp: add.assoc)

lemma delete_absent: "key \<notin> fst ` set ps \<Longrightarrow> AList.delete key ps = ps"
  by (induction ps) (auto simp: AList.delete_eq)

lemma tab_delete:
  "distinct (map fst ps) \<Longrightarrow> map_of ps key = Some q \<Longrightarrow> tab (AList.delete key ps) + fd_mset (fds q) = tab ps"
proof (induction ps)
  case (Cons a ps)
  show ?case
  proof (cases "fst a = key")
    case True
    then have "AList.delete key (a # ps) = ps" using Cons.prems delete_absent [of key ps] by (auto simp: AList.delete_eq)
    with True Cons.prems show ?thesis by (auto simp: add.commute)
  next
    case False
    with Cons show ?thesis by (cases a) (auto simp: AList.delete_eq add.assoc)
  qed
qed simp

section \<open>Balance\<close>

definition sock_ref :: "nat \<Rightarrow> Fd \<Rightarrow> bool" where
  "sock_ref j f \<longleftrightarrow> (\<exists>s. f = Fd_Socket s \<and> refs s = j)"

fun ref_ok :: "PipeBuf list \<Rightarrow> nat list \<Rightarrow> Fd \<Rightarrow> bool" where
  "ref_ok ps ss (Fd_PipeRead i) = (i < length ps)"
| "ref_ok ps ss (Fd_PipeWrite i) = (i < length ps)"
| "ref_ok ps ss (Fd_Socket s) = (refs s < length ss)"
| "ref_ok ps ss _ = True"

definition balanced :: "PipeBuf list \<Rightarrow> nat list \<Rightarrow> Fd multiset \<Rightarrow> bool" where
  "balanced ps ss L \<longleftrightarrow>
     (\<forall>f \<in># L. ref_ok ps ss f) \<and>
     (\<forall>i < length ps. readers (ps ! i) = count L (Fd_PipeRead i) \<and> writers (ps ! i) = count L (Fd_PipeWrite i)) \<and>
     (\<forall>j < length ss. ss ! j = size (filter_mset (sock_ref j) L))"

abbreviation bal :: "'n kernel \<Rightarrow> Fd multiset \<Rightarrow> bool" where
  "bal k L \<equiv> balanced (pipes k) (socks k) L"

text \<open>Descriptors of devices and files have no counters.\<close>

fun plain :: "Fd \<Rightarrow> bool" where
  "plain (Fd_PipeRead _) = False"
| "plain (Fd_PipeWrite _) = False"
| "plain (Fd_Socket _) = False"
| "plain _ = True"

lemma sock_ref_simps [simp]:
  "sock_ref j (Fd_Socket s) \<longleftrightarrow> refs s = j" "\<not> sock_ref j Fd_Console" "\<not> sock_ref j Fd_Vga" "\<not> sock_ref j Fd_Serial"
  "\<not> sock_ref j (Fd_File f)" "\<not> sock_ref j (Fd_PipeRead i)" "\<not> sock_ref j (Fd_PipeWrite i)"
  by (auto simp: sock_ref_def)

lemma balanced_plain: "plain f \<Longrightarrow> balanced ps ss (add_mset f L) = balanced ps ss L"
  by (cases f) (auto simp: balanced_def)

lemma ref_ok_update [simp]: "ref_ok (ps[i := b]) (ss[j := n]) f = ref_ok ps ss f"
  by (cases f) auto

lemma ref_ok_update' [simp]: "ref_ok (ps[i := b]) ss f = ref_ok ps ss f" "ref_ok ps (ss[j := n]) f = ref_ok ps ss f"
  by (cases f; simp)+

lemmas end_defs = upd_pipe_def PipeRead_clone_def PipeWrite_clone_def SocketEnd_clone_def PipeRead_drop_def
  PipeWrite_drop_def SocketEnd_drop_def wake_pipes_def Let_def

lemma bal_clone:
  assumes "bal k L" "f \<in># L"
  shows "bal (clone_fd f k) (add_mset f L)"
  using assms by (cases f) (auto simp: balanced_def end_defs nth_list_update)

lemma bal_drop:
  assumes "bal k (add_mset f L)"
  shows "bal (drop_fd e f k) L"
  using assms by (cases f) (auto simp: balanced_def end_defs nth_list_update)

lemma clone_fd_frame [simp]:
  "procs (clone_fd f k) = procs k" "current_key (clone_fd f k) = current_key k"
  by (cases f; simp add: end_defs current_key_def)+

lemma wake_mcpu [simp]: "mcpu (snd (wake_pipe_waiters m)) = mcpu m"
  by (simp add: wake_pipe_waiters_def wake_blocked_def split: option.splits)

lemma drop_frame [simp]:
  "procs (PipeRead_drop i k) = procs k" "procs (PipeWrite_drop i k) = procs k" "procs (SocketEnd_drop e s k) = procs k"
  by (simp_all add: end_defs)

lemma drop_fd_frame [simp]:
  "procs (drop_fd e f k) = procs k" "current_key (drop_fd e f k) = current_key k"
  by (cases f; simp add: end_defs current_key_def)+

lemma bal_clone_fds:
  "bal k L \<Longrightarrow> fd_mset fs \<subseteq># L \<Longrightarrow> bal (clone_fds fs k) (L + fd_mset fs) \<and> procs (clone_fds fs k) = procs k"
proof (induction fs k arbitrary: L rule: clone_fds.induct)
  case (3 f fs k)
  have s: "fd_mset fs \<subseteq># L" "f \<in># L"
    using 3(3) subset_mset.order_trans [OF _ diff_subset_eq_self] by (auto simp: insert_subset_eq_iff)
  then have "fd_mset fs \<subseteq># add_mset f L" by (simp add: subseteq_mset_def le_SucI)
  from 3(1) [OF bal_clone [OF 3(2) s(2)] this] show ?case by simp
qed auto

lemma drop_fds_frame [simp]:
  "procs (drop_fds e fs k) = procs k" "current_key (drop_fds e fs k) = current_key k"
  by (induction e fs k rule: drop_fds.induct) auto

lemma bal_drop_fds:
  "bal k (fd_mset fs + L) \<Longrightarrow> bal (drop_fds e fs k) L \<and> procs (drop_fds e fs k) = procs k"
  by (induction e fs k rule: drop_fds.induct) (auto dest: bal_drop)

section \<open>The invariant\<close>

definition fd_inv :: "'n kernel \<Rightarrow> bool" where
  "fd_inv k \<longleftrightarrow> distinct (map fst (procs k)) \<and> bal k (tab (procs k))"

lemma ends_of_nth:
  assumes "ends_of k' = ends_of k"
  shows "length (pipes k') = length (pipes k)"
    "i < length (pipes k) \<Longrightarrow> readers (pipes k' ! i) = readers (pipes k ! i) \<and> writers (pipes k' ! i) = writers (pipes k ! i)"
proof -
  show l: "length (pipes k') = length (pipes k)" using arg_cong [OF assms, of length] by (simp add: ends_of_def)
  assume "i < length (pipes k)"
  with l arg_cong [OF assms, of "\<lambda>xs. xs ! i"]
  show "readers (pipes k' ! i) = readers (pipes k ! i) \<and> writers (pipes k' ! i) = writers (pipes k ! i)"
    by (simp add: ends_of_def)
qed

lemma ref_ok_len: "length ps' = length ps \<Longrightarrow> ref_ok ps' ss f = ref_ok ps ss f"
  by (cases f) auto

lemma same_bal: "same_fds k k' \<Longrightarrow> bal k' L = bal k L"
proof -
  assume s: "same_fds k k'"
  then have l: "length (pipes k') = length (pipes k)" and ss: "socks k' = socks k"
    and c: "i < length (pipes k) \<Longrightarrow> readers (pipes k' ! i) = readers (pipes k ! i) \<and> writers (pipes k' ! i) = writers (pipes k ! i)" for i
    using ends_of_nth [of k' k] by (auto simp: same_fds_def)
  show ?thesis by (simp add: balanced_def ss l ref_ok_len [OF l] c)
qed

lemma same_fd_inv: "same_fds k k' \<Longrightarrow> fd_inv k \<Longrightarrow> fd_inv k'"
  using same_bal [of k k'] by (simp add: fd_inv_def same_fds_def)

section \<open>Exchanges with the table of the current process\<close>

text \<open>The invariant with descriptors \<open>X\<close> held by the running call itself.\<close>

definition holds :: "'n kernel \<Rightarrow> Fd multiset \<Rightarrow> bool" where
  "holds k X \<longleftrightarrow> distinct (map fst (procs k)) \<and> bal k (X + tab (procs k))"

lemma fd_inv_holds: "fd_inv k = holds k {#}"
  by (simp add: fd_inv_def holds_def)

lemma holds_same: "same_fds k k' \<Longrightarrow> holds k X \<Longrightarrow> holds k' X"
  using same_bal [of k k'] by (simp add: holds_def same_fds_def)

lemma holds_drop: "holds k (add_mset f X) \<Longrightarrow> holds (drop_fd e f k) X"
  using bal_drop [of k f "X + tab (procs k)" e] by (simp add: holds_def)

lemma holds_plain: "plain f \<Longrightarrow> holds k (add_mset f X) = holds k X"
  by (simp add: holds_def balanced_plain)

lemma default_plain: "balanced ps ss (fd_mset (fds ProcState_default) + L) = balanced ps ss L"
  by (simp add: ProcState_default_def balanced_plain)

text \<open>The rest of the tables, without the current process.\<close>

lemma tab_current:
  assumes "distinct (map fst (procs k))"
  obtains R where "\<forall>L. bal k (L + tab (procs k)) = bal k (L + fd_mset (fds (current_proc k)) + R)"
    "\<forall>p. tab (AList.update (current_key k) p (procs k)) = fd_mset (fds p) + R"
proof (cases "map_of (procs k) (current_key k)")
  case None
  have "bal k (L + tab (procs k)) = bal k (L + fd_mset (fds (current_proc k)) + tab (procs k))" for L
    using default_plain [of "pipes k" "socks k" "L + tab (procs k)"] None
    by (simp add: current_proc_def ac_simps)
  moreover have "tab (AList.update (current_key k) p (procs k)) = fd_mset (fds p) + tab (procs k)" for p
    by (simp add: tab_update_None [OF None] ac_simps)
  ultimately show ?thesis by (intro that [of "tab (procs k)"]) blast+
next
  case (Some q)
  let ?R = "tab (AList.delete (current_key k) (procs k))"
  have d: "tab (procs k) = fd_mset (fds q) + ?R" using tab_delete [OF assms Some] by (simp add: ac_simps)
  have "tab (AList.update (current_key k) p (procs k)) = fd_mset (fds p) + ?R" for p
    using tab_update_Some [OF Some, of p] d by (simp add: ac_simps)
  moreover have "bal k (L + tab (procs k)) = bal k (L + fd_mset (fds (current_proc k)) + ?R)" for L
    by (simp add: current_proc_def Some d ac_simps)
  ultimately show ?thesis by (intro that [of ?R]) blast+
qed

text \<open>A closure that takes the descriptors \<open>X\<close> from the call and gives \<open>Y r\<close> back.\<close>

definition exchange :: "Fd multiset \<Rightarrow> (Fd option list \<Rightarrow> 'n kernel \<Rightarrow> 'r \<times> Fd option list \<times> 'n kernel) \<Rightarrow>
    ('r \<Rightarrow> Fd multiset) \<Rightarrow> bool" where
  "exchange X f Y \<longleftrightarrow> (\<forall>fs k r fs' k' R. f fs k = (r, fs', k') \<longrightarrow>
     procs k' = procs k \<and> (bal k (X + fd_mset fs + R) \<longrightarrow> bal k' (Y r + fd_mset fs' + R)))"

lemma exchangeI:
  assumes "\<And>fs k r fs' k' R. f fs k = (r, fs', k') \<Longrightarrow> procs k' = procs k"
    "\<And>fs k r fs' k' R. f fs k = (r, fs', k') \<Longrightarrow> bal k (X + fd_mset fs + R) \<Longrightarrow> bal k' (Y r + fd_mset fs' + R)"
  shows "exchange X f Y"
  using assms unfolding exchange_def by blast

lemma with_current_proc_holds:
  assumes "holds k X" "with_current_proc f k = (r, k')"
    "\<And>p' k1. f (current_proc k) k = (r, p', k1) \<Longrightarrow> procs k1 = procs k \<and>
       (\<forall>R. bal k (X + fd_mset (fds (current_proc k)) + R) \<longrightarrow> bal k1 (Y + fd_mset (fds p') + R))"
  shows "holds k' Y"
proof -
  have d: "distinct (map fst (procs k))" using assms(1) by (simp add: holds_def)
  obtain p' k1 where f: "f (current_proc k) k = (r, p', k1)" "k' = put_proc (current_key k) p' k1"
    using assms(2) by (auto simp: with_current_proc_def split: prod.splits)
  obtain R where R: "\<forall>L. bal k (L + tab (procs k)) = bal k (L + fd_mset (fds (current_proc k)) + R)"
    "\<forall>p. tab (AList.update (current_key k) p (procs k)) = fd_mset (fds p) + R"
    by (rule tab_current [OF d])
  from assms(1) have "bal k (X + fd_mset (fds (current_proc k)) + R)" by (simp add: holds_def R(1))
  with assms(3) [OF f(1)] have "bal k1 (Y + fd_mset (fds p') + R)" "procs k1 = procs k" by blast+
  then show ?thesis using d by (simp add: f(2) holds_def put_proc_def R(2) distinct_update add.assoc)
qed

lemma with_fds_holds:
  assumes "exchange X f Y" "holds k X" "with_current_fds f k = (r, k')"
  shows "holds k' (Y r)"
  using assms(2,3) unfolding with_current_fds_def
proof (rule with_current_proc_holds)
  fix p' k1 assume "(case f (fds (current_proc k)) k of (r, fs, k') \<Rightarrow> (r, (current_proc k)\<lparr>fds := fs\<rparr>, k')) = (r, p', k1)"
  then obtain fs where "f (fds (current_proc k)) k = (r, fs, k1)" "p' = (current_proc k)\<lparr>fds := fs\<rparr>"
    by (auto split: prod.splits)
  with assms(1) show "procs k1 = procs k \<and>
      (\<forall>R. bal k (X + fd_mset (fds (current_proc k)) + R) \<longrightarrow> bal k1 (Y r + fd_mset (fds p') + R))"
    unfolding exchange_def by fastforce
qed

lemma look_fds_holds: "holds k X \<Longrightarrow> look_fds f k = (r, k') \<Longrightarrow> holds k' X"
  unfolding look_fds_def by (rule with_fds_holds [of X _ "\<lambda>_. X"]) (auto intro: exchangeI)

section \<open>The closures of the system calls\<close>

lemma fd_mset_fill: "i < length fs \<Longrightarrow> fs ! i = None \<Longrightarrow> fd_mset (fs[i := Some f]) = add_mset f (fd_mset fs)"
  using fd_mset_update [of i fs "Some f"] by simp

lemma fd_mset_empty: "i < length fs \<Longrightarrow> fs ! i = Some f \<Longrightarrow> add_mset f (fd_mset (fs[i := None])) = fd_mset fs"
  using fd_mset_update [of i fs None] by simp

lemma alloc_fd_cases:
  assumes "alloc_fd e entry fs k = (r, fs', k')"
  obtains (slot) i where "i < length fs" "fs ! i = None" "r = int i" "fs' = fs[i := Some entry]" "k' = k"
      "\<forall>j < i. fs ! j \<noteq> None"
  | (push) "r = int (length fs)" "fs' = fs @ [Some entry]" "k' = k" "length fs < MAX_FDS" "\<forall>j < length fs. fs ! j \<noteq> None"
  | (full) "r = - EMFILE" "fs' = fs" "k' = drop_fd e entry k" "MAX_FDS \<le> length fs" "\<forall>j < length fs. fs ! j \<noteq> None"
proof (cases "List.find (\<lambda>i. fs ! i = None) [0..<length fs]")
  case None
  then have "\<forall>j < length fs. fs ! j \<noteq> None" by (simp add: find_None_iff)
  with None assms push full show ?thesis by (auto simp: alloc_fd_def split: if_splits)
next
  case (Some i)
  then obtain l where "l < length fs" "fs ! ([0..<length fs] ! l) = None" "i = [0..<length fs] ! l"
    "\<forall>j < l. fs ! ([0..<length fs] ! j) \<noteq> None"
    by (auto simp: find_Some_iff)
  then have "i < length fs" "fs ! i = None" "\<forall>j < i. fs ! j \<noteq> None" by auto
  with Some assms slot show ?thesis by (auto simp: alloc_fd_def)
qed

lemma alloc_fd_exchange: "exchange {#entry#} (alloc_fd e entry) (\<lambda>_. {#})"
proof (rule exchangeI)
  fix fs k r fs' k' R
  assume a: "alloc_fd e entry fs k = (r, fs', k')"
  from a show "procs k' = procs k" by (cases rule: alloc_fd_cases) auto
  assume b: "bal k ({#entry#} + fd_mset fs + R)"
  from a show "bal k' ({#} + fd_mset fs' + R)"
  proof (cases rule: alloc_fd_cases)
    case full
    then show ?thesis using bal_drop [of k entry "fd_mset fs + R"] b by simp
  qed (use b in \<open>auto simp: fd_mset_fill\<close>)
qed

lemma take_fd_exchange: "exchange {#} (take_fd i) opt_mset"
proof (rule exchangeI)
  fix fs k r fs' k' R
  assume a: "take_fd i fs k = (r, fs', k')"
  then show "procs k' = procs k" by (simp add: take_fd_def)
  assume b: "bal k ({#} + fd_mset fs + R)"
  have "opt_mset r + fd_mset fs' = fd_mset fs"
    using a fd_mset_update [of i fs None] by (auto simp: take_fd_def get_fd_def ac_simps)
  with a b show "bal k' (opt_mset r + fd_mset fs' + R)" by (simp add: take_fd_def)
qed

lemma same_bal_mono: "same_fds k k' \<Longrightarrow> bal k L \<Longrightarrow> bal k' L"
  by (simp add: same_bal)

text \<open>Replacing a file by another state of it.\<close>

lemma fd_mset_file:
  assumes "get_fd fs i = Some (Fd_File f)"
  shows "balanced ps ss (L + fd_mset (fs[i := Some (Fd_File g)]) + R) = balanced ps ss (L + fd_mset fs + R)"
proof -
  from assms have i: "i < length fs" "fs ! i = Some (Fd_File f)" by (auto simp: get_fd_def split: if_splits)
  have e: "add_mset (Fd_File f) (fd_mset (fs[i := Some (Fd_File g)])) = add_mset (Fd_File g) (fd_mset fs)"
    using fd_mset_update [OF i(1), of "Some (Fd_File g)"] i(2) by simp
  have "balanced ps ss (L + fd_mset (fs[i := Some (Fd_File g)]) + R)
      = balanced ps ss (add_mset (Fd_File f) (fd_mset (fs[i := Some (Fd_File g)])) + (L + R))"
    by (simp add: balanced_plain ac_simps)
  also have "\<dots> = balanced ps ss (L + fd_mset fs + R)" by (simp add: e balanced_plain ac_simps)
  finally show ?thesis .
qed

lemma get_fd_in: "get_fd fs i = Some f \<Longrightarrow> f \<in># fd_mset fs"
proof -
  assume "get_fd fs i = Some f"
  then have "i < length fs" "fs ! i = Some f" by (auto simp: get_fd_def split: if_splits)
  from fd_mset_empty [OF this] show ?thesis by (metis union_single_eq_member)
qed

lemma assign_fd_bal:
  assumes "i < length fs" "assign_fd e i (Some f) fs k = (fs', k')" "bal k (add_mset f (fd_mset fs + R))"
  shows "bal k' (fd_mset fs' + R)" "procs k' = procs k"
proof -
  have "fd_mset (fs[i := Some f]) + opt_mset (fs ! i) = add_mset f (fd_mset fs)" using fd_mset_update [OF assms(1), of "Some f"] by simp
  then have e: "add_mset f (fd_mset fs + R) = fd_mset [fs ! i] + (fd_mset (fs[i := Some f]) + R)"
    by (simp add: fd_mset_Cons ac_simps)
  from bal_drop_fds [of k "[fs ! i]" "fd_mset (fs[i := Some f]) + R" e] assms(2,3)
  show "bal k' (fd_mset fs' + R)" "procs k' = procs k" by (auto simp: assign_fd_def e)
qed

lemma length_extend_to [simp]: "length (extend_to n fs) = max (n + 1) (length fs)"
  by (simp add: extend_to_def)

lemma fd_mset_extend_to [simp]: "fd_mset (extend_to n fs) = fd_mset fs"
  by (simp add: extend_to_def)

lemma dup2_exchange:
  "exchange {#} (\<lambda>fs k. case get_fd fs o1 of None \<Rightarrow> (x, fs, k)
     | Some old \<Rightarrow> if same then (y, fs, k)
       else (let k = clone_fd old k; fs = extend_to n fs
             in case assign_fd e n (Some old) fs k of (fs, k) \<Rightarrow> (z, fs, k))) (\<lambda>_. {#})"
  (is "exchange _ ?f _")
proof (rule exchangeI)
  fix fs k r fs' k' R
  assume a: "?f fs k = (r, fs', k')"
  then show "procs k' = procs k" by (auto simp: Let_def assign_fd_def split: option.splits if_splits)
  assume b: "bal k ({#} + fd_mset fs + R)"
  show "bal k' ({#} + fd_mset fs' + R)"
  proof (cases "get_fd fs o1")
    case (Some old)
    show ?thesis
    proof (cases same)
      case False
      have "old \<in># fd_mset fs + R" using get_fd_in [OF Some] by simp
      with b have "bal (clone_fd old k) (add_mset old (fd_mset (extend_to n fs) + R))" using bal_clone [of k _ old] by simp
      from assign_fd_bal(1) [OF _ _ this, of n] a Some False show ?thesis by (auto simp: Let_def split: prod.splits)
    qed (use a b Some in auto)
  qed (use a b in auto)
qed

lemma dupfd_exchange:
  "exchange {#} (\<lambda>fs k. case get_fd fs o1 of None \<Rightarrow> (x, fs, k)
     | Some b \<Rightarrow> (let k = clone_fd b k
         in case first_free_from start fs of None \<Rightarrow> (y, fs, drop_fd e b k)
            | Some idx \<Rightarrow> (int idx, (extend_to idx fs)[idx := Some b], k))) (\<lambda>_. {#})"
  (is "exchange _ ?f _")
proof (rule exchangeI)
  fix fs k r fs' k' R
  assume a: "?f fs k = (r, fs', k')"
  then show "procs k' = procs k" by (auto simp: Let_def split: option.splits)
  assume b: "bal k ({#} + fd_mset fs + R)"
  show "bal k' ({#} + fd_mset fs' + R)"
  proof (cases "get_fd fs o1")
    case (Some f)
    have "f \<in># fd_mset fs + R" using get_fd_in [OF Some] by simp
    with b have c: "bal (clone_fd f k) (add_mset f (fd_mset fs + R))" using bal_clone [of k _ f] by simp
    show ?thesis
    proof (cases "first_free_from start fs")
      case None
      with a Some bal_drop [OF c, of e] show ?thesis by (auto simp: Let_def)
    next
      case (Some idx)
      then have "get_fd fs idx = None" by (auto simp: first_free_from_def find_Some_iff)
      then have "extend_to idx fs ! idx = None"
        by (auto simp: get_fd_def extend_to_def nth_append split: if_splits)
      then have "fd_mset ((extend_to idx fs)[idx := Some f]) = add_mset f (fd_mset fs)"
        by (subst fd_mset_fill) auto
      with a Some \<open>get_fd fs o1 = Some f\<close> c show ?thesis by (auto simp: Let_def)
    qed
  qed (use a b in auto)
qed

section \<open>Pipes and sockets\<close>

lemma new_pipe_holds:
  assumes "fd_inv k"
  shows "holds (new_pipe k) {#Fd_PipeRead (length (pipes k)), Fd_PipeWrite (length (pipes k))#}"
proof -
  let ?L = "tab (procs k)"
  have r: "\<forall>f \<in># ?L. ref_ok (pipes k) (socks k) f" using assms by (simp add: fd_inv_def balanced_def)
  then have "count ?L (Fd_PipeRead (length (pipes k))) = 0" "count ?L (Fd_PipeWrite (length (pipes k))) = 0"
    by (auto simp: count_eq_zero_iff)
  moreover have "ref_ok (pipes k @ [b]) (socks k) f" if "ref_ok (pipes k) (socks k) f" for f b
    using that by (cases f) auto
  ultimately show ?thesis using assms r
    by (auto simp: holds_def fd_inv_def balanced_def new_pipe_def nth_append less_Suc_eq)
qed

lemma pipe_exchange: "exchange {#Fd_PipeRead i, Fd_PipeWrite i#} (alloc_pipe e i) (\<lambda>_. {#})"
  (is "exchange ?X ?f _")
  unfolding alloc_pipe_def
proof (rule exchangeI)
  fix fs k rw fs' k' R
  assume a: "(case alloc_fd e (Fd_PipeRead i) fs k of (r, fs, k) \<Rightarrow>
       if r < 0 then ((r, r), fs, drop_fd e (Fd_PipeWrite i) k)
       else case alloc_fd e (Fd_PipeWrite i) fs k of (w, fs, k) \<Rightarrow>
         if w < 0 then ((w, w), fs[nat r := None], drop_fd e (Fd_PipeRead i) k)
         else ((r, w), fs, k)) = (rw, fs', k')"
  obtain r fs1 k1 where p: "alloc_fd e (Fd_PipeRead i) fs k = (r, fs1, k1)" by (metis prod_cases3)
  obtain w fs2 k2 where q: "alloc_fd e (Fd_PipeWrite i) fs1 k1 = (w, fs2, k2)" by (metis prod_cases3)
  have pk: "procs k1 = procs k" "procs k2 = procs k1"
    using p q alloc_fd_exchange [unfolded exchange_def, rule_format, THEN conjunct1] by blast+
  then show "procs k' = procs k" using a p q by (auto split: if_splits)
  assume b: "bal k (?X + fd_mset fs + R)"
  have b1: "bal k1 (add_mset (Fd_PipeWrite i) (fd_mset fs1 + R))"
    using p b alloc_fd_exchange [of "Fd_PipeRead i" e, unfolded exchange_def, rule_format, of fs k r fs1 k1 "add_mset (Fd_PipeWrite i) R"]
    by (simp add: add_mset_commute)
  have b2: "bal k2 (fd_mset fs2 + R)"
    using q b1 alloc_fd_exchange [of "Fd_PipeWrite i" e, unfolded exchange_def, rule_format, of fs1 k1 w fs2 k2 R] by simp
  consider "r < 0" | "0 \<le> r" "w < 0" | "0 \<le> r" "0 \<le> w" by linarith
  then show "bal k' ({#} + fd_mset fs' + R)"
  proof cases
    case 1
    with a p bal_drop [OF b1, of e] show ?thesis by auto
  next
    case 2
    from q 2(2) have fs2: "fs2 = fs1" by (cases rule: alloc_fd_cases) auto
    from p 2(1) have n: "nat r < length fs1" "fs1 ! nat r = Some (Fd_PipeRead i)"
      by (cases rule: alloc_fd_cases; auto simp: nth_append)+
    from fd_mset_empty [OF n] b2 fs2 have "bal k2 (add_mset (Fd_PipeRead i) (fd_mset (fs1[nat r := None]) + R))"
      by (metis union_mset_add_mset_left)
    from bal_drop [OF this, of e] a p q 2 fs2 show ?thesis by auto
  next
    case 3
    with a p q b2 show ?thesis by auto
  qed
qed

lemma new_socket_holds:
  assumes "fd_inv k" "refs s = length (socks k)"
  shows "holds (k\<lparr>socks := socks k @ [1]\<rparr>) {#Fd_Socket s#}"
proof -
  let ?L = "tab (procs k)"
  have r: "\<forall>f \<in># ?L. ref_ok (pipes k) (socks k) f" using assms(1) by (simp add: fd_inv_def balanced_def)
  have "filter_mset (sock_ref (length (socks k))) ?L = {#}"
  proof (rule ccontr)
    assume "filter_mset (sock_ref (length (socks k))) ?L \<noteq> {#}"
    then obtain f where "f \<in># filter_mset (sock_ref (length (socks k))) ?L" by (rule multiset_nonemptyE)
    then have "f \<in># ?L" "sock_ref (length (socks k)) f" by auto
    with r show False by (auto simp: sock_ref_def)
  qed
  moreover have "ref_ok (pipes k) (socks k @ [b]) f" if "ref_ok (pipes k) (socks k) f" for f b
    using that by (cases f) auto
  ultimately show ?thesis using assms r
    by (auto simp: holds_def fd_inv_def balanced_def nth_append less_Suc_eq)
qed

section \<open>The table of processes\<close>

lemma release_holds:
  "holds k (fd_mset fs) \<Longrightarrow> fd_inv (release_fds e fs k)"
proof (induction e fs k rule: release_fds.induct)
  case (3 e fd fs k)
  have "same_fds k (case fd of Fd_File f \<Rightarrow> if writable f \<and> dirty f then snd (on_disk (fs_write_file (name f) (data f)) k) else k | _ \<Rightarrow> k)"
    by (auto split: Fd.splits intro: on_disk_same prod.collapse [symmetric])
  from holds_same [OF this 3(2)] have "holds (drop_fd e fd (case fd of Fd_File f \<Rightarrow>
      if writable f \<and> dirty f then snd (on_disk (fs_write_file (name f) (data f)) k) else k | _ \<Rightarrow> k)) (fd_mset fs)"
    by (intro holds_drop) simp
  with 3(1) show ?case by simp
qed (simp_all add: fd_inv_holds)

lemma release_safe: "fd_inv k \<Longrightarrow> fd_inv (release_current_process_fds e k)"
proof (cases "map_of (procs k) (current_key k)")
  case (Some p)
  assume k: "fd_inv k"
  have "tab (AList.update (current_key k) (p\<lparr>fds := []\<rparr>) (procs k)) + fd_mset (fds p) = tab (procs k)"
    using tab_update_Some [OF Some, of "p\<lparr>fds := []\<rparr>"] by simp
  with k have "holds (k\<lparr>procs := AList.update (current_key k) (p\<lparr>fds := []\<rparr>) (procs k)\<rparr>) (fd_mset (fds p))"
    by (simp add: holds_def fd_inv_def distinct_update add.commute)
  with Some release_holds show ?thesis by (simp add: release_current_process_fds_def)
qed (simp add: release_current_process_fds_def)

lemma insert_proc_inv:
  assumes "holds k (fd_mset (fds p))"
  shows "fd_inv (insert_proc e key p k)"
proof (cases "map_of (procs k) key")
  case None
  with assms show ?thesis
    by (simp add: insert_proc_def Let_def fd_inv_def holds_def tab_update_None distinct_update add.commute)
next
  case (Some old)
  let ?k = "k\<lparr>procs := AList.update key p (procs k)\<rparr>"
  have "holds ?k (fd_mset (fds old))"
    using assms tab_update_Some [OF Some, of p] by (simp add: holds_def distinct_update add.commute)
  then have "bal ?k (fd_mset (fds old) + tab (procs ?k))" "distinct (map fst (procs ?k))" by (simp_all add: holds_def)
  with bal_drop_fds [of ?k "fds old" "tab (procs ?k)" e] Some show ?thesis
    by (simp add: insert_proc_def Let_def fd_inv_def)
qed

lemma forget_inv: "fd_inv k \<Longrightarrow> fd_inv (forget_process e key k)"
proof (cases "map_of (procs k) key")
  case (Some p)
  assume k: "fd_inv k"
  let ?k = "k\<lparr>procs := AList.delete key (procs k)\<rparr>"
  have "bal ?k (fd_mset (fds p) + tab (procs ?k))" "distinct (map fst (procs ?k))"
    using k tab_delete [of "procs k" key p] Some by (simp_all add: fd_inv_def distinct_delete add.commute)
  with bal_drop_fds [of ?k "fds p" "tab (procs ?k)" e] Some show ?thesis
    by (simp add: forget_process_def fd_inv_def)
qed (simp add: forget_process_def)

lemma rekey_inv: "fd_inv k \<Longrightarrow> fd_inv (rekey_process e old new k)"
proof (cases "map_of (procs k) old")
  case (Some p)
  assume k: "fd_inv k"
  have "holds (k\<lparr>procs := AList.delete old (procs k)\<rparr>) (fd_mset (fds (p\<lparr>brk := USER_HEAP_BASE\<rparr>)))"
    using k tab_delete [of "procs k" old p] Some by (simp add: holds_def fd_inv_def distinct_delete add.commute)
  from insert_proc_inv [OF this] Some show ?thesis by (simp add: rekey_process_def)
qed (simp add: rekey_process_def)

lemma fork_inv: "fd_inv k \<Longrightarrow> fd_inv (fork_fds e par child k)"
proof (cases "map_of (procs k) par")
  case (Some p)
  assume k: "fd_inv k"
  have "fd_mset (fds p) \<subseteq># tab (procs k)"
    using tab_delete [of "procs k" par p] Some k by (simp add: fd_inv_def) (metis mset_subset_eq_add_right)
  from bal_clone_fds [OF _ this, of k] k have "holds (clone_fds (fds p) k) (fd_mset (fds p))"
    by (simp add: holds_def fd_inv_def add.commute)
  from insert_proc_inv [OF this] Some show ?thesis by (simp add: fork_fds_def)
qed (simp add: fork_fds_def)

section \<open>Every call keeps the counters exact\<close>

lemma put_current_inv:
  assumes "fd_inv k" "procs k1 = procs k"
    "\<And>R. bal k (fd_mset (fds (current_proc k)) + R) \<Longrightarrow> bal k1 (fd_mset (fds p) + R)"
  shows "fd_inv (put_current p k k1)"
proof -
  have "with_current_proc (\<lambda>_ _. ((), p, k1)) k = ((), put_current p k k1)" by (simp add: with_current_proc_def)
  from with_current_proc_holds [OF _ this, of "{#}" "{#}"] assms show ?thesis by (simp add: fd_inv_holds)
qed

lemma edits_bal: "edits fs fs' \<Longrightarrow> balanced ps ss (fd_mset fs' + R) = balanced ps ss (fd_mset fs + R)"
  using fd_mset_file [where L = "{#}"] by (auto simp: edits_def)

lemma safe_fds: "exchange {#} f (\<lambda>_. {#}) \<Longrightarrow> safe fd_inv (with_current_fds f)"
  by (rule safeI) (auto simp: fd_inv_holds dest: with_fds_holds)

lemma open_inv:
  assumes "fd_inv k" "alloc_fd e (Fd_File f) (fds (current_proc k)) k = (r, fs, k')"
  shows "fd_inv (put_current ((current_proc k)\<lparr>fds := fs\<rparr>) k k')"
proof -
  have "with_current_fds (alloc_fd e (Fd_File f)) k = (r, put_current ((current_proc k)\<lparr>fds := fs\<rparr>) k k')"
    using assms(2) by (simp add: with_current_fds_def with_current_proc_def)
  from with_fds_holds [OF alloc_fd_exchange _ this] assms(1) show ?thesis by (simp add: fd_inv_holds holds_plain)
qed

lemma close_inv:
  assumes "fd_inv k" "take_fd i (fds (current_proc k)) k = (x, fs, k')"
  shows "fd_inv (drop_fds e [x] (put_current ((current_proc k)\<lparr>fds := fs\<rparr>) k k'))"
proof -
  have "with_current_fds (take_fd i) k = (x, put_current ((current_proc k)\<lparr>fds := fs\<rparr>) k k')"
    using assms(2) by (simp add: with_current_fds_def with_current_proc_def)
  from with_fds_holds [OF take_fd_exchange _ this] assms(1)
  have h: "holds (put_current ((current_proc k)\<lparr>fds := fs\<rparr>) k k') (opt_mset x)" by (simp add: fd_inv_holds)
  then show ?thesis by (cases x) (simp_all add: fd_inv_holds holds_drop)
qed

lemma alloc_pipe_inv: "safe fd_inv (\<lambda>k. with_current_fds (alloc_pipe e (length (pipes k))) (new_pipe k))"
proof (rule safeI)
  fix k r k' assume "fd_inv k" "with_current_fds (alloc_pipe e (length (pipes k))) (new_pipe k) = (r, k')"
  from with_fds_holds [OF pipe_exchange new_pipe_holds [OF this(1)] this(2)] show "fd_inv k'" by (simp add: fd_inv_holds)
qed

lemma add_socket_inv: "safe fd_inv (add_socket e h kd)"
proof (rule safeI)
  fix k r k' assume k: "fd_inv k" and c: "add_socket e h kd k = (r, k')"
  let ?s = "\<lparr>handle = h, kind = kd, refs = length (socks k)\<rparr>"
  have "holds (k\<lparr>socks := socks k @ [1]\<rparr>) {#Fd_Socket ?s#}" by (rule new_socket_holds [OF k]) simp
  from with_fds_holds [OF alloc_fd_exchange this] c show "fd_inv k'"
    by (simp add: add_socket_def Let_def fd_inv_holds)
qed

interpretation counted: process_invariant e fd_inv for e
proof
  show "same_fds k k' \<Longrightarrow> fd_inv k \<Longrightarrow> fd_inv k'" for k k' :: "'a kernel" by (rule same_fd_inv)
  show "fd_inv k \<Longrightarrow> same_fds k k' \<Longrightarrow> edits (fds (current_proc k)) fs \<Longrightarrow>
      fd_inv (put_current ((current_proc k)\<lparr>fds := fs\<rparr>) k k')" for k k' :: "'a kernel" and fs
    by (rule put_current_inv) (simp_all add: same_procs edits_bal same_bal)
  show "fd_inv k \<Longrightarrow> fd_inv (put_current ((current_proc k)\<lparr>cwd := normalize path\<rparr>) k k)" for k :: "'a kernel" and path
    by (rule put_current_inv) simp_all
  show "fd_inv k \<Longrightarrow> same_fds k k' \<Longrightarrow> fd_inv (put_current ((current_proc k)\<lparr>brk := a\<rparr>) k k')" for k k' :: "'a kernel" and a
    by (rule put_current_inv) (simp_all add: same_procs same_bal)
  show "safe fd_inv (sys_dup2 e src dst)" for src dst
    by (rule safeI) (auto simp: sys_dup2_def split: if_splits dest: safeD [OF safe_fds [OF dup2_exchange]])
  show "safe fd_inv (fcntl_dupfd e fd arg)" for fd arg
    by (rule safeI) (auto simp: fcntl_dupfd_def split: if_splits dest: safeD [OF safe_fds [OF dupfd_exchange]])
  show "safe fd_inv (\<lambda>k. with_current_fds (alloc_pipe e (length (pipes k))) (new_pipe k))" by (rule alloc_pipe_inv)
  show "procs k = [] \<Longrightarrow> pipes k = [] \<Longrightarrow> socks k = [] \<Longrightarrow> fd_inv k" for k :: "'a kernel"
    by (simp add: fd_inv_def balanced_def)
qed (simp_all add: open_inv close_inv add_socket_inv release_safe fork_inv rekey_inv forget_inv)

end
