(* ===== verification/Fd_Safe.thy ===== *)
theory Fd_Safe
  imports Fd_Inv
begin

text \<open>
  The counters of shared objects seen from outside: in every state the kernel reaches they equal the
  number of descriptors. A small kernel, on which the properties of the system calls are evaluated.
\<close>

section \<open>Counting descriptors\<close>

text \<open>The number of descriptors, over all processes, that satisfy a condition.\<close>

definition open_fds :: "(Fd \<Rightarrow> bool) \<Rightarrow> 'n kernel \<Rightarrow> nat" where
  "open_fds P k = sum_list (map (\<lambda>(key, p). length (filter (\<lambda>x. case x of None \<Rightarrow> False | Some f \<Rightarrow> P f) (fds p))) (procs k))"

lemma filter_fds: "length (filter (\<lambda>x. case x of None \<Rightarrow> False | Some f \<Rightarrow> P f) fs) = size (filter_mset P (fd_mset fs))"
  by (induction fs rule: fd_mset.induct) auto

lemma open_fds_tab: "open_fds P k = size (filter_mset P (tab (procs k)))"
proof -
  have "sum_list (map (\<lambda>(key, p). length (filter (\<lambda>x. case x of None \<Rightarrow> False | Some f \<Rightarrow> P f) (fds p))) ps) = size (filter_mset P (tab ps))" for ps
    by (induction ps) (auto simp: filter_fds)
  then show ?thesis by (simp add: open_fds_def)
qed

section \<open>A small kernel\<close>

definition demo_cpu :: cpu where
  "demo_cpu = \<lparr>rsp = 0, rbp = 0, rbx = 0, r12 = 0, r13 = 0, r14 = 0, r15 = 0, rip = 0, reg_cs = 0, reg_ss = 0,
     rflags = 0, fpu_regs = [], msr_fs_base = 0, tss_rsp0 = 0, syscall_stack = 0, active_cr3 = 0x1000\<rparr>"

definition demo_mach :: mach where
  "demo_mach = \<lparr>SCHEDULER = None, NEXT_PID = 1, PREEMPTION_ENABLED = False, STDIN_BLOCKS = 0, mcpu = demo_cpu, mmem = (\<lambda>_. 0)\<rparr>"

definition demo_net :: "unit smoltcp" where
  "demo_net = \<lparr>bring_up = Some (), dhcp_configure = (\<lambda>_ _. Some ()), poll = (\<lambda>_ n. n), add_udp = (\<lambda>n. (0, n)),
     add_tcp = (\<lambda>n. (0, n)), remove = (\<lambda>_ n. n), udp_bind_port = (\<lambda>_ _ n. Some n), udp_port = (\<lambda>_ _. 0),
     udp_send_slice = (\<lambda>_ _ _ _ n. Some n), udp_can_recv = (\<lambda>_ _. False), udp_recv = (\<lambda>_ n. (None, n)),
     tcp_open = (\<lambda>_ _ _ _ n. Some n), tcp_may_send = (\<lambda>_ _. False), tcp_is_active = (\<lambda>_ _. False),
     tcp_can_send = (\<lambda>_ _. False), tcp_send_slice = (\<lambda>_ _ n. (None, n)), tcp_can_recv = (\<lambda>_ _. False),
     tcp_may_recv = (\<lambda>_ _. False), tcp_recv_slice = (\<lambda>_ _ n. (None, n))\<rparr>"

definition demo_env :: "unit env" where
  "demo_env = \<lparr>mp = demo_mapper, tcpip = demo_net\<rparr>"

definition demo_kernel :: "unit kernel" where
  "demo_kernel = \<lparr>kframes = (None, \<lambda>_. 0), procs = [], pipes = [], socks = [],
     net = \<lparr>STACK = None, EPHEMERAL_CTR = 0\<rparr>,
     kdisk = \<lparr>present = False, capacity_sectors = 0, media = (\<lambda>_. []), rd_status = (\<lambda>_. 0), wr_status = (\<lambda>_. 0)\<rparr>,
     console = console_init, kscreen = (Writer_new, \<lambda>_. \<lparr>ascii = 32, color = 0\<rparr>), serial_out = [], kmach = demo_mach,
     ticks = 0, LAST_WRITE_FD = 0, LAST_WRITE_LEN = 0, LAST_WRITE_SUM = 0, LAST_WRITE_USER_RSP = 0, LAST_EXIT_CODE = 0,
     EXIT_CODE_SUM = 0, EXIT_CALLS = 0\<rparr>"

text \<open>The state after the first process has opened a pipe and duplicated its write end to 7.\<close>

definition demo_piped :: "unit kernel" where
  "demo_piped = snd (dispatch demo_env SYS_DUP2 [4, 7, 0, 0, 0, 0] 0 AtStart
     (snd (dispatch demo_env SYS_PIPE [0x400000, 0, 0, 0, 0, 0] 0 AtStart demo_kernel)))"

lemma demo_piped_reach: "kreach demo_env demo_piped"
proof -
  have "kreach demo_env demo_kernel" by (rule kreach.boot) (simp_all add: demo_kernel_def)
  then show ?thesis unfolding demo_piped_def by (intro kreach.step [OF _ kstep_call])
qed

section \<open>Properties\<close>

text \<open>
  C5: The counters of shared objects are exact. In every state the kernel reaches, whatever the
  processes do and however their calls interleave, a pipe's count of readers and of writers is the
  number of open descriptors of that end over all processes, and the reference count of a socket the
  number of descriptors of it. So a pipe reports end of file, or a broken pipe, exactly when the last
  descriptor of the other end is gone, no counter ever underflows, and a socket is closed exactly
  once, with its last descriptor.
\<close>

theorem ends_counted:
  assumes "kreach e k"
  shows "(\<forall>i < length (pipes k). readers (pipes k ! i) = open_fds (\<lambda>f. f = Fd_PipeRead i) k \<and>
      writers (pipes k ! i) = open_fds (\<lambda>f. f = Fd_PipeWrite i) k) \<and>
    (\<forall>j < length (socks k). socks k ! j = open_fds (\<lambda>f. \<exists>s. f = Fd_Socket s \<and> refs s = j) k)"
proof -
  have b: "bal k (tab (procs k))" using counted.reach_holds [OF assms] by (simp add: fd_inv_def)
  have "size (filter_mset (\<lambda>f. f = x) L) = count L x" for x :: Fd and L
    by (metis count_filter_mset filter_eq_replicate_mset size_replicate_mset)
  with b show ?thesis by (simp add: balanced_def open_fds_tab sock_ref_def [abs_def])
qed

theorem ends_counted_witness:
  "length (pipes demo_piped) = 1 \<and> writers (pipes demo_piped ! 0) = 2 \<and>
   writers (pipes demo_piped ! 0) = open_fds (\<lambda>f. f = Fd_PipeWrite 0) demo_piped"
proof -
  have "length (pipes demo_piped) = 1 \<and> writers (pipes demo_piped ! 0) = 2" by code_simp
  with ends_counted [OF demo_piped_reach] show ?thesis by simp
qed

end
