(* ===== verification/Fd_Correct.thy ===== *)
theory Fd_Correct
  imports Fd_Safe
begin

text \<open>
  What descriptors do: pipes deliver what was written, in order; a new descriptor is the lowest free
  one; paths are resolved to normal form; the table of a process stays within its bounds; directory
  listings are handed out record by record.
\<close>

section \<open>Pipes\<close>

definition refers :: "u64 \<Rightarrow> Fd \<Rightarrow> 'n kernel \<Rightarrow> bool" where
  "refers fd f k \<longleftrightarrow> get_fd (fds (current_proc k)) (unat fd) = Some f"

definition user_bytes :: "'n env \<Rightarrow> u64 \<Rightarrow> nat \<Rightarrow> 'n kernel \<Rightarrow> bytes" where
  "user_bytes e buf n k = load_bytes (mp e) (umem k) (current_key k) buf n"

lemma user_read_put [simp]: "user_read e buf n (put_proc key p k) = user_read e buf n k"
  by (simp add: user_read_def)

lemma user_read_bytes: "user_read e buf n k = Inr bs \<Longrightarrow> bs = user_bytes e buf (unat n) k"
  by (auto simp: user_read_def with_user_bytes_def user_bytes_def res_simps load_bytes_def split: if_splits)

lemma write_to_pipe:
  assumes "refers fd (Fd_PipeWrite i) k" "sys_write e fd buf cnt ursp k = (Inr n, k')" "i < length (pipes k)"
  shows "length (pipes k') = length (pipes k) \<and>
    (if n < 0 then pipes k' = pipes k
     else n = uint cnt \<and> pipes k' = (pipes k)[i := (pipes k ! i)\<lparr>pdata := pdata (pipes k ! i) @ user_bytes e buf (nat n) k\<rparr>])"
proof -
  let ?k = "put_proc (current_key k) (current_proc k) k"
  have w: "sys_write e fd buf cnt ursp k = apfst Inr (write_pipe e (unat fd) buf cnt ?k)"
    using assms(1) by (simp add: sys_write_def look_fds_eq write_kind_of_def refers_def)
  have n: "write_pipe e (unat fd) buf cnt ?k = (n, k')"
    using assms(2) w by (cases "write_pipe e (unat fd) buf cnt ?k") simp
  show ?thesis
  proof (cases "cnt = 0")
    case True
    with n assms(1) show ?thesis
      by (auto simp: write_pipe_def look_fds_eq refers_def user_bytes_def load_bytes_def)
  next
    case False
    show ?thesis
    proof (cases "user_read e buf cnt k")
      case (Inl errno)
      then have "0 < errno" by (auto simp: user_read_def with_user_bytes_def validate_def res_simps split: if_splits)
      with n False Inl assms(1) show ?thesis by (auto simp: write_pipe_def look_fds_eq refers_def)
    next
      case (Inr bs)
      then have bs: "bs = user_bytes e buf (unat cnt) k" by (rule user_read_bytes)
      then have l: "length bs = unat cnt" by (simp add: user_bytes_def load_bytes_def)
      moreover have "0 < uint cnt" using False by (simp add: word_neq_0_conv word_less_alt)
      ultimately show ?thesis using n False Inr assms(1) bs
        by (auto simp: write_pipe_def look_fds_eq refers_def Let_def upd_pipe_def wake_pipes_def split: if_splits)
    qed
  qed
qed

lemma read_from_pipe:
  assumes "refers fd (Fd_PipeRead i) k" "sys_read e fd buf cnt k = (Inr (Ret n), k')" "0 \<le> n" "i < length (pipes k)"
    "sane_space (mp e) (umem k) (current_key k)" "pages_inj (mp e) (umem k) (current_key k)"
  shows "length (pipes k') = length (pipes k) \<and> nat n \<le> length (pdata (pipes k ! i)) \<and>
    user_bytes e buf (nat n) k' = take (nat n) (pdata (pipes k ! i)) \<and>
    pipes k' = (pipes k)[i := (pipes k ! i)\<lparr>pdata := drop (nat n) (pdata (pipes k ! i))\<rparr>] \<and>
    (n = 0 \<and> cnt \<noteq> 0 \<longrightarrow> pdata (pipes k ! i) = [] \<and> writers (pipes k ! i) = 0)"
proof -
  let ?k = "put_proc (current_key k) (current_proc k) k"
  let ?d = "pdata (pipes k ! i)"
  have "sys_read e fd buf cnt k = read_pipe e (unat fd) buf cnt ?k"
    using assms(1) by (simp add: sys_read_def look_fds_eq read_kind_of_def refers_def)
  with assms(2) have n: "read_pipe e (unat fd) buf cnt ?k = (Inr (Ret n), k')" by simp
  show ?thesis
  proof (cases "cnt = 0")
    case True
    with n assms(1,4) show ?thesis by (auto simp: read_pipe_def look_fds_eq refers_def user_bytes_def load_bytes_def)
  next
    case False
    show ?thesis
    proof (cases "?d = []")
      case True
      have "(pipes k ! i)\<lparr>pdata := []\<rparr> = pipes k ! i" using True by (cases "pipes k ! i") simp
      then have "(pipes k)[i := (pipes k ! i)\<lparr>pdata := []\<rparr>] = pipes k" by (simp only: list_update_id)
      with True n False assms(1,4) show ?thesis
        by (auto simp: read_pipe_def look_fds_eq refers_def user_bytes_def load_bytes_def res_simps split: if_splits)
    next
      case ne: False
      define l where "l = min (unat cnt) (length ?d)"
      define k1 where "k1 = upd_pipe i (\<lambda>b. b\<lparr>pdata := drop l (pdata b)\<rparr>) ?k"
      obtain r k2 where w: "user_write e buf (take l ?d) k1 = (r, k2)" by fastforce
      have kk: "umem k1 = umem k" "current_key k1 = current_key k" "pipes k1 = (pipes k)[i := (pipes k ! i)\<lparr>pdata := drop l ?d\<rparr>]"
        by (simp_all add: k1_def upd_pipe_def umem_def current_key_def put_proc_def)
      have c: "(case r of Inr _ \<Rightarrow> (Inr (Ret (int l)), k2) | Inl errno \<Rightarrow> (Inr (Ret (- errno)), k2)) = (Inr (Ret n), k')"
        using n False ne assms(1) w
        by (simp add: read_pipe_def look_fds_eq refers_def Let_def l_def [symmetric] k1_def [symmetric] split: sum.splits)
      from w obtain m where m: "copy_to_user (mp e) (current_key k) buf (take l ?d) (umem k) = (r, m)"
        and k2: "k2 = k1\<lparr>kframes := (fst (kframes k1), m)\<rparr>"
        by (auto simp: user_write_def kk split: prod.splits)
      have "r \<noteq> Inl x" for x
      proof
        assume "r = Inl x"
        with m have "0 < x" by (auto simp: copy_to_user_def validate_def split: sum.splits if_splits)
        with c \<open>r = Inl x\<close> assms(3) show False by simp
      qed
      then have r: "r = Inr ()" by (cases r) auto
      with c have nl: "n = int l" "k' = k2" by simp_all
      have "l < 2 ^ 64" using unsigned_less [of cnt, where 'a = nat] by (simp add: l_def del: unsigned_less)
      moreover have "validate buf (of_nat l) = Inr ()"
        using m r by (auto simp: copy_to_user_def l_def split: sum.splits)
      ultimately have "l < 2 ^ 63" by (simp add: validate_Inr unsigned_of_nat take_bit_nat_eq_self)
      with copied_back [OF assms(5,6) _ m [unfolded r]] have "load_bytes (mp e) m (current_key k) buf l = take l ?d"
        by (simp add: l_def)
      then show ?thesis using nl k2 kk ne False
        by (auto simp: user_bytes_def umem_def current_key_def l_def unat_gt_0)
    qed
  qed
qed

text \<open>
  A run of the kernel as seen by pipe \<open>i\<close>: \<open>w\<close> are the bytes written to it so far and \<open>r\<close> those read from
  it, as they stand in the memory of the writers and of the readers. In between, anything may happen
  that does not change the contents of the pipe; reads that fail for a bad buffer are left out:
  \<open>read_pipe\<close> takes the bytes out of the pipe before it copies them, so such a read loses them.
\<close>

inductive pipe_run :: "'n env \<Rightarrow> nat \<Rightarrow> bytes \<Rightarrow> bytes \<Rightarrow> 'n kernel \<Rightarrow> bool" for e i where
  created: "i < length (pipes k) \<Longrightarrow> pdata (pipes k ! i) = [] \<Longrightarrow> pipe_run e i [] [] k"
| wrote: "\<lbrakk>pipe_run e i w r k; refers fd (Fd_PipeWrite i) k; sys_write e fd buf cnt ursp k = (Inr n, k')\<rbrakk> \<Longrightarrow>
    pipe_run e i (w @ (if 0 \<le> n then user_bytes e buf (nat n) k else [])) r k'"
| got: "\<lbrakk>pipe_run e i w r k; refers fd (Fd_PipeRead i) k; sys_read e fd buf cnt k = (Inr (Ret n), k'); 0 \<le> n;
    sane_space (mp e) (umem k) (current_key k); pages_inj (mp e) (umem k) (current_key k)\<rbrakk> \<Longrightarrow>
    pipe_run e i w (r @ user_bytes e buf (nat n) k') k'"
| other: "\<lbrakk>pipe_run e i w r k; i < length (pipes k'); pdata (pipes k' ! i) = pdata (pipes k ! i)\<rbrakk> \<Longrightarrow> pipe_run e i w r k'"

lemma pipe_run_fifo: "pipe_run e i w r k \<Longrightarrow> i < length (pipes k) \<and> w = r @ pdata (pipes k ! i)"
proof (induction rule: pipe_run.induct)
  case (wrote w r k fd buf cnt ursp n k')
  from wrote.IH write_to_pipe [OF wrote.hyps(2,3)] show ?case by (auto split: if_splits)
next
  case (got w r k fd buf cnt n k')
  from got.IH read_from_pipe [OF got.hyps(2,3,4) _ got.hyps(5,6)] show ?case by auto
qed auto

text \<open>A read that returns nothing.\<close>

lemma min_eq_0_iff: "min a b = 0 \<longleftrightarrow> a = 0 \<or> b = (0 :: nat)"
  by (auto simp: min_def)

lemma read_nothing:
  assumes "refers fd (Fd_PipeRead i) k" "sys_read e fd buf cnt k = (Inr (Ret 0), k')" "cnt \<noteq> 0"
  shows "pdata (pipes k ! i) = [] \<and> writers (pipes k ! i) = 0"
proof -
  let ?k = "put_proc (current_key k) (current_proc k) k"
  have "sys_read e fd buf cnt k = read_pipe e (unat fd) buf cnt ?k"
    using assms(1) by (simp add: sys_read_def look_fds_eq read_kind_of_def refers_def)
  with assms(2) have "read_pipe e (unat fd) buf cnt ?k = (Inr (Ret 0), k')" by simp
  moreover have "x \<noteq> 0" if "user_write e d bs k1 = (Inl x, k2)" for d bs k1 x k2
    using that by (auto simp: user_write_def copy_to_user_def validate_def split: prod.splits sum.splits if_splits)
  moreover have "min (unat cnt) (length (pdata (pipes k ! i))) \<noteq> 0" if "pdata (pipes k ! i) \<noteq> []"
    using that assms(3) by (auto simp: min_def unat_gt_0)
  ultimately show ?thesis using assms(1,3)
    by (auto simp: read_pipe_def look_fds_eq refers_def Let_def res_simps min_eq_0_iff split: if_splits sum.splits prod.splits)
qed

lemma refers_pipe:
  assumes "kreach e k" "refers fd (Fd_PipeRead i) k"
  shows "i < length (pipes k)"
proof -
  have "distinct (map fst (procs k))" and b: "bal k (tab (procs k))"
    using counted.reach_holds [OF assms(1)] by (simp_all add: fd_inv_def)
  then obtain R where "\<forall>L. bal k (L + tab (procs k)) = bal k (L + fd_mset (fds (current_proc k)) + R)"
    by (metis tab_current)
  from this [rule_format, of "{#}"] b have "bal k (fd_mset (fds (current_proc k)) + R)" by simp
  moreover have "Fd_PipeRead i \<in># fd_mset (fds (current_proc k))"
    using get_fd_in assms(2) by (simp add: refers_def)
  ultimately have "ref_ok (pipes k) (socks k) (Fd_PipeRead i)" unfolding balanced_def by (metis union_iff)
  then show ?thesis by simp
qed

section \<open>The lowest free descriptor\<close>

definition lowest_free :: "Fd option list \<Rightarrow> nat \<Rightarrow> bool" where
  "lowest_free fs i \<longleftrightarrow> get_fd fs i = None \<and> (\<forall>j < i. get_fd fs j \<noteq> None)"

lemma alloc_fd_lowest:
  assumes "alloc_fd e entry fs k = (r, fs', k')" "0 \<le> r"
  shows "lowest_free fs (nat r) \<and> get_fd fs' (nat r) = Some entry \<and> (\<forall>j. j \<noteq> nat r \<longrightarrow> get_fd fs' j = get_fd fs j) \<and>
    nat r < max (length fs) MAX_FDS"
  using assms
proof (cases rule: alloc_fd_cases)
  case (slot i)
  then show ?thesis by (auto simp: lowest_free_def get_fd_def nth_list_update)
next
  case push
  then show ?thesis by (auto simp: lowest_free_def get_fd_def nth_append less_Suc_eq)
qed auto

lemma alloc_fd_full:
  assumes "alloc_fd e entry fs k = (r, fs', k')" "r < 0"
  shows "r = - EMFILE \<and> fs' = fs \<and> MAX_FDS \<le> length fs \<and> (\<forall>j < length fs. get_fd fs j \<noteq> None)"
  using assms by (cases rule: alloc_fd_cases) (auto simp: get_fd_def)

section \<open>Paths\<close>

definition clean :: "bytes list \<Rightarrow> bool" where
  "clean ps \<longleftrightarrow> (\<forall>p \<in> set ps. p \<noteq> [] \<and> p \<noteq> str ''.'' \<and> p \<noteq> str ''..'' \<and> ch CHR ''/'' \<notin> set p)"

lemma split_on_sep: "split_on c (xs @ c # ys) = split_on c xs @ split_on c ys"
proof (induction xs)
  case (Cons x xs)
  then show ?case by (cases "split_on c xs") auto
qed simp

lemma norm_parts_append: "norm_parts (xs @ ys) acc = norm_parts ys (rev (norm_parts xs acc))"
  by (induction xs acc rule: norm_parts.induct) auto

lemma norm_parts_clean: "clean ps \<Longrightarrow> norm_parts ps acc = rev acc @ ps"
  by (induction ps acc rule: norm_parts.induct) (auto simp: clean_def)

lemma clean_tl: "clean acc \<Longrightarrow> clean (tl acc)"
  by (cases acc) (auto simp: clean_def)

lemma norm_parts_is_clean:
  "\<forall>p \<in> set ps. ch CHR ''/'' \<notin> set p \<Longrightarrow> clean acc \<Longrightarrow> clean (norm_parts ps acc)"
proof (induction ps acc rule: norm_parts.induct)
  case (1 comps)
  then show ?case by (simp add: clean_def)
next
  case (2 part parts comps)
  have "clean (part # comps)" if "part \<noteq> []" "part \<noteq> str ''.''" "part \<noteq> str ''..''" using 2(4,5) that by (simp add: clean_def)
  with 2 clean_tl [OF 2(5)] show ?case by simp
qed

definition components :: "bytes \<Rightarrow> bytes list" where
  "components path = norm_parts (split_on (ch CHR ''/'') path) []"

lemma components_clean: "clean (components path)"
  unfolding components_def by (rule norm_parts_is_clean) (auto simp: clean_def dest: split_on_parts)

lemma normalize_components: "normalize path = str ''/'' @ join_with (ch CHR ''/'') (components path)"
  by (simp add: normalize_def components_def)

lemma norm_parts_nils: "norm_parts (split_on (ch CHR ''/'') (join_with (ch CHR ''/'') ps)) acc = rev acc @ ps" if "clean ps"
proof (cases "ps = []")
  case False
  with split_on_join [of ps] that norm_parts_clean [OF that] show ?thesis by (simp add: clean_def)
qed simp

lemma components_normalize: "components (normalize path) = components path"
proof -
  have "str ''/'' = [ch CHR ''/'']" by (simp add: str_def)
  then have "split_on (ch CHR ''/'') (normalize path) =
      [] # split_on (ch CHR ''/'') (join_with (ch CHR ''/'') (components path))"
    by (simp add: normalize_components)
  then show ?thesis using norm_parts_nils [OF components_clean] by (simp add: components_def [of "normalize path"])
qed

lemma components_join: "components (a @ str ''/'' @ b) = norm_parts (split_on (ch CHR ''/'') b) (rev (components a))"
  by (simp add: components_def str_def split_on_sep norm_parts_append)

section \<open>Resolving\<close>

text \<open>Walking a path from a directory given by its components.\<close>

fun walk_path :: "bytes list \<Rightarrow> bytes list \<Rightarrow> bytes list" where
  "walk_path dir [] = dir"
| "walk_path dir (p # ps) =
     walk_path (if p = [] \<or> p = str ''.'' then dir else if p = str ''..'' then butlast dir else dir @ [p]) ps"

definition is_absolute :: "bytes \<Rightarrow> bool" where
  "is_absolute path \<longleftrightarrow> path \<noteq> [] \<and> hd path = ch CHR ''/''"

lemma butlast_rev: "butlast (rev xs) = rev (tl xs)"
  by (cases xs) auto

lemma norm_parts_walk: "norm_parts ps acc = walk_path (rev acc) ps"
  by (induction ps acc rule: norm_parts.induct) (auto simp: butlast_rev)

lemma components_dir: "components (d @ str ''/'' @ path) = walk_path (components d) (split_on (ch CHR ''/'') path)"
  by (simp add: components_join norm_parts_walk)

lemma components_slash: "last d = ch CHR ''/'' \<Longrightarrow> d \<noteq> [] \<Longrightarrow> components (d @ path) = walk_path (components d) (split_on (ch CHR ''/'') path)"
proof -
  assume "last d = ch CHR ''/''" "d \<noteq> []"
  then have d: "d = butlast d @ str ''/''" by (metis append_butlast_last_id list.simps(8,9) str_def)
  have "components (butlast d @ str ''/'' @ []) = components (butlast d)"
    by (simp only: components_dir) simp
  then have "components d = components (butlast d)" using d by simp
  moreover have "components (d @ path) = components (butlast d @ str ''/'' @ path)" using d by (metis append.assoc)
  ultimately show ?thesis by (simp only: components_dir)
qed

lemma normalize_eq_iff: "normalize a = normalize b \<longleftrightarrow> components a = components b"
  by (metis components_normalize normalize_components)

lemma normalize_idem: "normalize (normalize path) = normalize path"
  by (simp add: normalize_eq_iff components_normalize)

section \<open>Properties\<close>


text \<open>Two bytes written and one of them read.\<close>

definition demo_written :: "unit kernel" where
  "demo_written = snd (sys_write demo_env 4 0x400004 2 0 demo_piped)"

definition demo_received :: "unit kernel" where
  "demo_received = snd (sys_read demo_env 3 0x400010 1 demo_written)"


text \<open>
  C15: End of file means what it says. In every state the kernel reaches, a read from a pipe that
  returns 0 (with room in the buffer) finds the pipe empty and no process with its write end open, so
  nothing can ever arrive.
\<close>

theorem eof_is_final:
  assumes "kreach e k" "refers fd (Fd_PipeRead i) k" "sys_read e fd buf cnt k = (Inr (Ret 0), k')" "cnt \<noteq> 0"
  shows "pdata (pipes k ! i) = [] \<and> open_fds (\<lambda>f. f = Fd_PipeWrite i) k = 0"
proof -
  have "bal k (tab (procs k))" using counted.reach_holds [OF assms(1)] by (simp add: fd_inv_def)
  with refers_pipe [OF assms(1,2)] have "writers (pipes k ! i) = count (tab (procs k)) (Fd_PipeWrite i)"
    by (simp add: balanced_def)
  moreover have "open_fds (\<lambda>f. f = Fd_PipeWrite i) k = count (tab (procs k)) (Fd_PipeWrite i)"
    by (simp add: open_fds_tab filter_eq_replicate_mset)
  ultimately show ?thesis using read_nothing [OF assms(2-4)] by simp
qed

definition demo_closed :: "unit kernel" where
  "demo_closed = snd (dispatch demo_env SYS_CLOSE [7, 0, 0, 0, 0, 0] 0 AtStart
     (snd (dispatch demo_env SYS_CLOSE [4, 0, 0, 0, 0, 0] 0 AtStart demo_piped)))"

theorem eof_is_final_witness: "open_fds (\<lambda>f. f = Fd_PipeWrite 0) demo_closed = 0"
proof -
  have "kreach demo_env demo_closed"
    unfolding demo_closed_def by (intro kreach.step [OF _ kstep_call] demo_piped_reach)
  moreover have "refers 3 (Fd_PipeRead 0) demo_closed" by code_simp
  moreover have "fst (sys_read demo_env 3 0x400010 1 demo_closed) = Inr (Ret 0)" by code_simp
  then have "sys_read demo_env 3 0x400010 1 demo_closed = (Inr (Ret 0), snd (sys_read demo_env 3 0x400010 1 demo_closed))"
    by (simp add: prod_eq_iff)
  ultimately show ?thesis using eof_is_final by fastforce
qed

text \<open>
  C36: Paths mean what a walk from the working directory finds. Whatever the path -- with empty
  components, dots, parents beyond the root -- the resolved path is the root followed by the
  components of that walk, none of which is empty or a dot, and resolving it again changes nothing.
\<close>

theorem resolve_path_walks:
  defines "sep \<equiv> ch CHR ''/''"
  shows "\<exists>names. clean names \<and> fst (resolve_path path k) = str ''/'' @ join_with sep names \<and>
     names = walk_path (if is_absolute path then [] else components (cwd (current_proc k))) (split_on sep path) \<and>
     normalize (fst (resolve_path path k)) = fst (resolve_path path k)"
proof -
  let ?c = "cwd (current_proc k)"
  have n: "fst (resolve_path path k) = normalize (if is_absolute path then path
      else (if ?c \<noteq> [] \<and> last ?c = ch CHR ''/'' then ?c else ?c @ str ''/'') @ path)"
    by (auto simp: resolve_path_def is_absolute_def current_cwd_def with_current_proc_def Let_def)
  have "components (if is_absolute path then path else (if ?c \<noteq> [] \<and> last ?c = ch CHR ''/'' then ?c else ?c @ str ''/'') @ path)
      = walk_path (if is_absolute path then [] else components ?c) (split_on sep path)"
    using components_slash [of ?c path] components_dir [of ?c path] by (simp add: sep_def components_def [of path] norm_parts_walk)
  then show ?thesis unfolding n using components_clean normalize_idem normalize_components
    by (metis sep_def)
qed

text \<open>
  C37: A new descriptor is the lowest free one, as POSIX asks, and no other descriptor changes; with
  none free the call fails with \<open>EMFILE\<close> and the table is untouched.
\<close>

theorem alloc_fd_is_lowest:
  "case alloc_fd e entry fs k of (r, fs', k') \<Rightarrow>
     if 0 \<le> r then get_fd fs (nat r) = None \<and> nat r < max (length fs) MAX_FDS \<and> get_fd fs' (nat r) = Some entry \<and>
       {j. get_fd fs j = None \<and> j < nat r} = {} \<and> (\<forall>j. get_fd fs' j = (if j = nat r then Some entry else get_fd fs j))
     else r = - EMFILE \<and> fs' = fs \<and> MAX_FDS \<le> length fs \<and> {j. get_fd fs j = None \<and> j < length fs} = {}"
proof -
  obtain r fs' k' where a: "alloc_fd e entry fs k = (r, fs', k')" by (metis prod_cases3)
  show ?thesis
  proof (cases "0 \<le> r")
    case True
    with alloc_fd_lowest [OF a True] a show ?thesis by (auto simp: lowest_free_def)
  next
    case False
    with alloc_fd_full [OF a] a show ?thesis by auto
  qed
qed

end
