(* ===== verification/Table_Inv.thy ===== *)
theory Table_Inv
  imports Fd_Correct
begin

text \<open>
  The type of a process's entry in the table: how many descriptors it may have, where its heap may
  end, that its working directory is a normal path, and what its open files may look like. A second
  instance of the contract \<open>process_invariant\<close>.
\<close>

section \<open>Well-formed processes\<close>

definition file_ok :: "OpenFile \<Rightarrow> bool" where
  "file_ok f \<longleftrightarrow> (is_dir f \<longrightarrow> \<not> writable f) \<and> (dirty f \<longrightarrow> writable f)"

definition fds_ok :: "Fd option list \<Rightarrow> bool" where
  "fds_ok fs \<longleftrightarrow> length fs \<le> MAX_FDS \<and> (\<forall>f. Some (Fd_File f) \<in> set fs \<longrightarrow> file_ok f)"

definition proc_ok :: "ProcState \<Rightarrow> bool" where
  "proc_ok p \<longleftrightarrow> fds_ok (fds p) \<and> heap_end_ok (brk p) \<and> (\<exists>path. cwd p = normalize path)"

definition tables_ok :: "'n kernel \<Rightarrow> bool" where
  "tables_ok k \<longleftrightarrow> (\<forall>key p. (key, p) \<in> set (procs k) \<longrightarrow> proc_ok p)"

lemma fds_ok_set: "fds_ok fs \<Longrightarrow> (\<And>f. v = Some (Fd_File f) \<Longrightarrow> file_ok f) \<Longrightarrow> fds_ok (fs[i := v])"
  using set_update_subset_insert [of fs i v] by (auto simp: fds_ok_def)

lemma fds_ok_push: "fds_ok fs \<Longrightarrow> length fs < MAX_FDS \<Longrightarrow> (\<And>f. v = Some (Fd_File f) \<Longrightarrow> file_ok f) \<Longrightarrow> fds_ok (fs @ [v])"
  by (auto simp: fds_ok_def)

lemma fds_ok_extend: "fds_ok fs \<Longrightarrow> n < MAX_FDS \<Longrightarrow> fds_ok (extend_to n fs)"
  by (auto simp: fds_ok_def extend_to_def)

lemma fds_ok_edits: "fds_ok fs \<Longrightarrow> edits fs fs' \<Longrightarrow> fds_ok fs'"
  unfolding edits_def
proof (elim disjE exE conjE)
  fix i f g
  assume ok: "fds_ok fs" and f: "get_fd fs i = Some (Fd_File f)" and g: "fs' = fs[i := Some (Fd_File g)]"
    "is_dir g = is_dir f" "writable g = writable f" "dirty g \<longrightarrow> dirty f \<or> writable f"
  from f have "Some (Fd_File f) \<in> set fs" by (auto simp: get_fd_def split: if_splits) (metis nth_mem)
  with ok have "file_ok f" by (simp add: fds_ok_def)
  with g ok show "fds_ok fs'" by (auto intro!: fds_ok_set simp: file_ok_def)
qed simp

lemma fds_ok_get: "fds_ok fs \<Longrightarrow> get_fd fs i = Some (Fd_File f) \<Longrightarrow> file_ok f"
  by (auto simp: fds_ok_def get_fd_def split: if_splits) (metis nth_mem)

lemma fds_ok_alloc:
  assumes "fds_ok fs" "alloc_fd e entry fs k = (r, fs', k')" "\<And>f. entry = Fd_File f \<Longrightarrow> file_ok f"
  shows "fds_ok fs' \<and> procs k' = procs k"
  using assms(2) by (cases rule: alloc_fd_cases) (use assms(1,3) in \<open>auto intro: fds_ok_set fds_ok_push\<close>)

lemma proc_ok_default: "proc_ok ProcState_default"
proof -
  have "str ''/'' = normalize []" by (simp add: normalize_def)
  then show ?thesis by (auto simp: proc_ok_def ProcState_default_def fds_ok_def heap_end_ok_def MAX_FDS_def)
qed

section \<open>The invariant\<close>

lemma tables_ok_current: "tables_ok k \<Longrightarrow> proc_ok (current_proc k)"
  using proc_ok_default by (auto simp: tables_ok_def current_proc_def split: option.splits dest: map_of_SomeD)

lemma in_update: "(k', p') \<in> set (AList.update key p ps) \<Longrightarrow> p' = p \<or> (k', p') \<in> set ps"
  by (induction ps) (auto split: if_splits)

lemma tables_ok_update: "tables_ok k \<Longrightarrow> proc_ok p \<Longrightarrow> procs k' = AList.update key p (procs k) \<Longrightarrow> tables_ok k'"
  by (auto simp: tables_ok_def dest!: in_update)

lemma tables_ok_put:
  "tables_ok k \<Longrightarrow> procs k' = procs k \<Longrightarrow> proc_ok p \<Longrightarrow> tables_ok (put_proc key p k')"
  by (rule tables_ok_update [of k p _ key]) (simp_all add: put_proc_def)

lemma tables_ok_procs: "tables_ok k \<Longrightarrow> procs k' = procs k \<Longrightarrow> tables_ok k'"
  by (simp add: tables_ok_def)

lemma tables_ok_fds:
  "tables_ok k \<Longrightarrow> procs k' = procs k \<Longrightarrow> (fds_ok (fds (current_proc k)) \<Longrightarrow> fds_ok fs) \<Longrightarrow>
   tables_ok (put_proc key ((current_proc k)\<lparr>fds := fs\<rparr>) k')"
  using tables_ok_current [of k] by (intro tables_ok_put) (auto simp: proc_ok_def)

lemma tables_ok_with_fds:
  assumes "\<And>fs k r fs' k'. f fs k = (r, fs', k') \<Longrightarrow> procs k' = procs k \<and> (fds_ok fs \<longrightarrow> fds_ok fs')"
  shows "safe tables_ok (with_current_fds f)"
  by (rule safeI) (auto simp: with_current_fds_def with_current_proc_def split: prod.splits dest!: assms intro: tables_ok_fds)

lemma release_fds_procs [simp]: "procs (release_fds e fs k) = procs k"
  by (induction e fs k rule: release_fds.induct) (auto split: Fd.splits simp: on_disk_def split: prod.splits)

lemma tables_ok_release: "tables_ok k \<Longrightarrow> tables_ok (release_current_process_fds e k)"
proof (cases "map_of (procs k) (current_key k)")
  case (Some p)
  assume k: "tables_ok k"
  with Some have "proc_ok (p\<lparr>fds := []\<rparr>)" by (auto simp: tables_ok_def proc_ok_def fds_ok_def dest: map_of_SomeD)
  with Some k show ?thesis by (auto simp: release_current_process_fds_def intro: tables_ok_update)
qed (simp add: release_current_process_fds_def)

lemma tables_ok_delete: "tables_ok k \<Longrightarrow> tables_ok (k\<lparr>procs := AList.delete key (procs k)\<rparr>)"
  by (auto simp: tables_ok_def AList.delete_eq)

lemma tables_ok_insert: "tables_ok k \<Longrightarrow> proc_ok p \<Longrightarrow> tables_ok (insert_proc e key p k)"
  by (rule tables_ok_update [of k p _ key]) (auto simp: insert_proc_def Let_def split: option.splits)

lemma tables_ok_lookup: "tables_ok k \<Longrightarrow> map_of (procs k) key = Some p \<Longrightarrow> proc_ok p"
  by (auto simp: tables_ok_def dest: map_of_SomeD)

lemma clone_fds_procs [simp]: "procs (clone_fds fs k) = procs k"
  by (induction fs k rule: clone_fds.induct) auto

lemma tables_ok_processes:
  assumes "tables_ok k"
  shows "tables_ok (fork_fds e par child k)" "tables_ok (rekey_process e old new k)" "tables_ok (forget_process e key k)"
proof -
  show "tables_ok (fork_fds e par child k)"
    using tables_ok_procs [OF assms clone_fds_procs] tables_ok_lookup [OF assms] assms
    by (auto simp: fork_fds_def split: option.splits intro: tables_ok_insert)
  have "proc_ok (p\<lparr>brk := USER_HEAP_BASE\<rparr>)" if "proc_ok p" for p using that by (auto simp: proc_ok_def heap_end_ok_def)
  then show "tables_ok (rekey_process e old new k)"
    using tables_ok_delete [OF assms] tables_ok_lookup [OF assms] assms
    by (auto simp: rekey_process_def split: option.splits intro!: tables_ok_insert)
  show "tables_ok (forget_process e key k)"
    using tables_ok_procs [OF tables_ok_delete [OF assms], of "drop_fds e fs (k\<lparr>procs := AList.delete key (procs k)\<rparr>)" key for fs] assms
    by (auto simp: forget_process_def split: option.splits)
qed

lemma first_free_bound: "first_free_from n fs = Some i \<Longrightarrow> i < MAX_FDS"
  by (auto simp: first_free_from_def find_Some_iff split: if_splits)

lemma tables_ok_dup2: "safe tables_ok (sys_dup2 e src dst)"
proof (cases "unat dst < MAX_FDS")
  case True
  have "safe tables_ok (with_current_fds (\<lambda>fs k. case get_fd fs (unat src) of None \<Rightarrow> (- EBADF, fs, k)
    | Some old \<Rightarrow> if src = dst then (uint dst, fs, k)
        else (let k = clone_fd old k; fs = extend_to (unat dst) fs
              in case assign_fd e (unat dst) (Some old) fs k of (fs, k) \<Rightarrow> (uint dst, fs, k))))"
    by (rule tables_ok_with_fds)
       (auto simp: Let_def assign_fd_def split: option.splits if_splits intro!: fds_ok_set fds_ok_extend True dest: fds_ok_get)
  with True show ?thesis by (simp add: sys_dup2_def [abs_def])
qed (simp add: sys_dup2_def [abs_def] safe_const)

lemma tables_ok_dupfd: "safe tables_ok (fcntl_dupfd e fd arg)"
proof (cases "unat arg < MAX_FDS")
  case True
  have "safe tables_ok (with_current_fds (\<lambda>fs k. case get_fd fs (unat fd) of None \<Rightarrow> (- EBADF, fs, k)
    | Some b \<Rightarrow> (let k = clone_fd b k in case first_free_from (unat arg) fs of None \<Rightarrow> (- EMFILE, fs, drop_fd e b k)
        | Some idx \<Rightarrow> (int idx, (extend_to idx fs)[idx := Some b], k))))"
    by (rule tables_ok_with_fds)
       (auto simp: Let_def split: option.splits if_splits intro!: fds_ok_set fds_ok_extend first_free_bound dest: fds_ok_get)
  with True show ?thesis by (simp add: fcntl_dupfd_def [abs_def])
qed (simp add: fcntl_dupfd_def [abs_def] safe_const)

lemma fds_ok_pipe: "alloc_pipe e i fs k = (r, fs', k') \<Longrightarrow> procs k' = procs k \<and> (fds_ok fs \<longrightarrow> fds_ok fs')"
proof -
  assume p: "alloc_pipe e i fs k = (r, fs', k')"
  obtain a fs1 k1 where a: "alloc_fd e (Fd_PipeRead i) fs k = (a, fs1, k1)" by (metis prod_cases3)
  obtain b fs2 k2 where b: "alloc_fd e (Fd_PipeWrite i) fs1 k1 = (b, fs2, k2)" by (metis prod_cases3)
  have "procs k1 = procs k" "procs k2 = procs k1"
    using a b alloc_fd_exchange [unfolded exchange_def, rule_format, THEN conjunct1] by blast+
  moreover have "fds_ok fs \<longrightarrow> fds_ok fs1 \<and> fds_ok fs2" using fds_ok_alloc [OF _ a] fds_ok_alloc [OF _ b] by auto
  ultimately show ?thesis using p a b by (auto simp: alloc_pipe_def split: if_splits intro: fds_ok_set)
qed

lemma tables_ok_pipe: "safe tables_ok (\<lambda>k. with_current_fds (alloc_pipe e (length (pipes k))) (new_pipe k))"
proof (rule safeI)
  fix k r k' assume k: "tables_ok k" and w: "with_current_fds (alloc_pipe e (length (pipes k))) (new_pipe k) = (r, k')"
  from k have "tables_ok (new_pipe k)" by (rule tables_ok_procs) (simp add: new_pipe_def)
  from safeD [OF tables_ok_with_fds this w] fds_ok_pipe show "tables_ok k'" by blast
qed

lemma tables_ok_socket: "safe tables_ok (add_socket e h kd)"
proof (rule safeI)
  fix k r k' assume k: "tables_ok k" and w: "add_socket e h kd k = (r, k')"
  let ?s = "\<lparr>handle = h, kind = kd, refs = length (socks k)\<rparr>"
  have "safe tables_ok (with_current_fds (alloc_fd e (Fd_Socket ?s)))"
    using fds_ok_alloc alloc_fd_exchange [unfolded exchange_def, rule_format, THEN conjunct1]
    by (intro tables_ok_with_fds) blast
  from safeD [OF this, of "k\<lparr>socks := socks k @ [1]\<rparr>"] k w show "tables_ok k'"
    by (simp add: add_socket_def Let_def tables_ok_def)
qed

interpretation typed: process_invariant e tables_ok for e
proof
  show "same_fds k k' \<Longrightarrow> tables_ok k \<Longrightarrow> tables_ok k'" for k k' :: "'a kernel" by (simp add: tables_ok_def same_fds_def)
  show "tables_ok k \<Longrightarrow> same_fds k k' \<Longrightarrow> edits (fds (current_proc k)) fs \<Longrightarrow>
      tables_ok (put_current ((current_proc k)\<lparr>fds := fs\<rparr>) k k')" for k k' :: "'a kernel" and fs
    by (rule tables_ok_fds) (auto simp: same_procs intro: fds_ok_edits)
  show "tables_ok k \<Longrightarrow> tables_ok (put_current ((current_proc k)\<lparr>cwd := normalize path\<rparr>) k k)" for k :: "'a kernel" and path
    using tables_ok_current [of k] by (intro tables_ok_put) (auto simp: proc_ok_def)
  show "tables_ok k \<Longrightarrow> same_fds k k' \<Longrightarrow> heap_end_ok a \<or> a = brk (current_proc k) \<Longrightarrow>
      tables_ok (put_current ((current_proc k)\<lparr>brk := a\<rparr>) k k')" for k k' :: "'a kernel" and a
    using tables_ok_current [of k] by (intro tables_ok_put) (auto simp: proc_ok_def same_procs)
  show "tables_ok k \<Longrightarrow> fresh_file f \<Longrightarrow> alloc_fd e (Fd_File f) (fds (current_proc k)) k = (r, fs, k') \<Longrightarrow>
      tables_ok (put_current ((current_proc k)\<lparr>fds := fs\<rparr>) k k')" for k k' :: "'a kernel" and f r fs
    using fds_ok_alloc [of "fds (current_proc k)" e "Fd_File f" k r fs k'] tables_ok_current [of k]
    by (intro tables_ok_fds) (auto simp: fresh_file_def file_ok_def proc_ok_def)
  show "tables_ok k \<Longrightarrow> take_fd i (fds (current_proc k)) k = (x, fs, k') \<Longrightarrow>
      tables_ok (drop_fds e [x] (put_current ((current_proc k)\<lparr>fds := fs\<rparr>) k k'))" for k k' :: "'a kernel" and i x fs
    by (rule tables_ok_procs [OF tables_ok_fds]) (auto simp: take_fd_def intro!: fds_ok_set split: if_splits)
  show "safe tables_ok (sys_dup2 e src dst)" for src dst by (rule tables_ok_dup2)
  show "safe tables_ok (fcntl_dupfd e fd arg)" for fd arg by (rule tables_ok_dupfd)
  show "safe tables_ok (\<lambda>k. with_current_fds (alloc_pipe e (length (pipes k))) (new_pipe k))" by (rule tables_ok_pipe)
  show "safe tables_ok (add_socket e h kd)" for h kd by (rule tables_ok_socket)
  show "procs k = [] \<Longrightarrow> tables_ok k" for k :: "'a kernel" by (simp add: tables_ok_def)
qed (simp_all add: tables_ok_release tables_ok_processes)

section \<open>Properties\<close>

text \<open>
  C14: The table of processes is well typed. In every state the kernel reaches, each process has at
  most \<open>MAX_FDS\<close> descriptors, a heap that ends in its window, and a working directory that is an
  absolute path in normal form; none of its files is a directory open for writing or has unsaved
  changes without being writable.
\<close>

theorem table_well_typed:
  assumes "kreach e k" "(key, p) \<in> set (procs k)"
  shows "length (fds p) \<le> MAX_FDS \<and> USER_HEAP_BASE \<le> brk p \<and> brk p \<le> USER_HEAP_MAX \<and>
    is_absolute (cwd p) \<and> normalize (cwd p) = cwd p \<and>
    (\<forall>i f. get_fd (fds p) i = Some (Fd_File f) \<longrightarrow> \<not> (is_dir f \<and> writable f) \<and> \<not> (dirty f \<and> \<not> writable f))"
proof -
  have p: "proc_ok p" using typed.reach_holds [OF assms(1)] assms(2) unfolding tables_ok_def by blast
  have "is_absolute (normalize path)" for path by (simp add: is_absolute_def normalize_def str_def)
  with p fds_ok_get [of "fds p"] show ?thesis
    by (auto simp: proc_ok_def fds_ok_def heap_end_ok_def file_ok_def normalize_idem)
qed

theorem table_well_typed_witness: "normalize (cwd (current_proc demo_piped)) = cwd (current_proc demo_piped)"
proof -
  have "map_of (procs demo_piped) (current_key demo_piped) = Some (current_proc demo_piped)" by code_simp
  from table_well_typed [OF demo_piped_reach map_of_SomeD [OF this]] show ?thesis by simp
qed

end
