(* ===== verification/Dns.thy ===== *)
theory Dns
  imports Rust_Str
begin

text \<open>
  Resolving a name, \<open>src/net/dns.rs\<close>: the query for an A record and the search for the first IPv4
  address in a reply. The reply comes from the network; every read of it is checked. A panic is the
  error of a result, \<open>None\<close> is the source's \<open>None\<close>.
\<close>

section \<open>The query\<close>

definition QTYPE_A :: u16 where
  "QTYPE_A = 1"

definition QCLASS_IN :: u16 where
  "QCLASS_IN = 1"

text \<open>\<open>usize::checked_add\<close>.\<close>

definition checked_add :: "nat \<Rightarrow> nat \<Rightarrow> nat option" where
  "checked_add a b = (if a + b < 2 ^ 64 then Some (a + b) else None)"

text \<open>The buffer and the position in it; \<open>Inl ()\<close> is \<open>None\<close>.\<close>

definition dns_write :: "bytes \<Rightarrow> (bytes \<times> nat, unit, unit) eff" where
  "dns_write bs s =
     (case s of (out, pos) \<Rightarrow>
        (case checked_add pos (length bs) of
           None \<Rightarrow> (Inl (), s)
         | Some e \<Rightarrow> if e > length out then (Inl (), s) else (Inr (), put_at pos bs out, e)))"

definition strip_suffix :: "u8 \<Rightarrow> bytes \<Rightarrow> bytes" where
  "strip_suffix c s = (if s \<noteq> [] \<and> last s = c then butlast s else s)"

fun write_labels :: "bytes list \<Rightarrow> (bytes \<times> nat, unit, unit) eff" where
  "write_labels [] = ret ()"
| "write_labels (label # labels) =
     (if label = [] \<or> length label > 63 then fail ()
      else ebind (dns_write [of_nat (length label)]) (\<lambda>_.
           ebind (dns_write label) (\<lambda>_. write_labels labels)))"

text \<open>The length of the query, and the buffer afterwards.\<close>

definition build_query :: "u16 \<Rightarrow> bytes \<Rightarrow> bytes \<Rightarrow> nat option \<times> bytes" where
  "build_query qid hostname out =
     (case (ebind (dns_write (be_bytes 2 qid)) (\<lambda>_.
            ebind (dns_write [0x01, 0x00]) (\<lambda>_.
            ebind (dns_write [0x00, 0x01]) (\<lambda>_.
            ebind (dns_write [0, 0, 0, 0, 0, 0]) (\<lambda>_.
            ebind (write_labels (split_on (ch CHR ''.'') (strip_suffix (ch CHR ''.'') hostname))) (\<lambda>_.
            ebind (dns_write [0x00]) (\<lambda>_.
            ebind (dns_write (be_bytes 2 QTYPE_A)) (\<lambda>_.
            dns_write (be_bytes 2 QCLASS_IN))))))))) (out, 0) of
        (Inl _, out, _) \<Rightarrow> (None, out)
      | (Inr _, out, pos) \<Rightarrow> (Some pos, out))"

section \<open>The reply\<close>

function skip_name :: "bytes \<Rightarrow> nat \<Rightarrow> nat option" where
  "skip_name msg pos =
     (if pos < length msg then
        (let len = msg ! pos
         in if len AND 0xC0 = 0xC0 then (if pos + 1 < length msg then Some (pos + 2) else None)
            else if len = 0 then Some (pos + 1)
            else
              (case checked_add pos (1 + unat len) of
                 None \<Rightarrow> None
               | Some pos \<Rightarrow> skip_name msg pos))
      else None)"
  by pat_completeness auto
termination
  by (relation "measure (\<lambda>(msg, pos). length msg - pos)") (auto simp: checked_add_def split: if_splits)

declare skip_name.simps [simp del]

datatype Answer = Ipv4 bytes | NoIpv4 | Ignore

text \<open>\<open>u16::from_be_bytes([*msg.get(i)?, *msg.get(i + 1)?])\<close>.\<close>

definition get_u16 :: "bytes \<Rightarrow> nat \<Rightarrow> u16 option" where
  "get_u16 msg i = (if i < length msg \<and> i + 1 < length msg then Some (from_be [msg ! i, msg ! (i + 1)]) else None)"

text \<open>\<open>msg[i]\<close>.\<close>

definition index_msg :: "bytes \<Rightarrow> nat \<Rightarrow> string + u8" where
  "index_msg msg i = (if i < length msg then Inr (msg ! i) else Inl ''index out of bounds'')"

fun skip_questions :: "bytes \<Rightarrow> nat \<Rightarrow> nat \<Rightarrow> nat option" where
  "skip_questions msg 0 pos = Some pos"
| "skip_questions msg (Suc n) pos =
     (case skip_name msg pos of
        None \<Rightarrow> None
      | Some pos \<Rightarrow>
          (case checked_add pos 4 of
             None \<Rightarrow> None
           | Some pos \<Rightarrow> skip_questions msg n pos))"

fun find_record :: "bytes \<Rightarrow> nat \<Rightarrow> nat \<Rightarrow> string + bytes option" where
  "find_record msg 0 pos = Inr None"
| "find_record msg (Suc n) pos =
     (case skip_name msg pos of
        None \<Rightarrow> Inr None
      | Some pos \<Rightarrow>
          (case get_u16 msg pos of None \<Rightarrow> Inr None | Some rtype \<Rightarrow>
          (case get_u16 msg (pos + 2) of None \<Rightarrow> Inr None | Some rclass \<Rightarrow>
          (case get_u16 msg (pos + 8) of None \<Rightarrow> Inr None | Some rdlen \<Rightarrow>
          (case checked_add pos 10 of None \<Rightarrow> Inr None | Some rdata \<Rightarrow>
          (case checked_add rdata (unat rdlen) of None \<Rightarrow> Inr None | Some rend \<Rightarrow>
             if rend > length msg then Inr None
             else if rtype = QTYPE_A \<and> rclass = QCLASS_IN \<and> rdlen = 4 then
               rbind (index_msg msg rdata) (\<lambda>a.
               rbind (index_msg msg (rdata + 1)) (\<lambda>b.
               rbind (index_msg msg (rdata + 2)) (\<lambda>c.
               rbind (index_msg msg (rdata + 3)) (\<lambda>d. Inr (Some [a, b, c, d])))))
             else find_record msg n rend))))))"

definition find_a :: "bytes \<Rightarrow> string + bytes option" where
  "find_a msg =
     rbind (index_msg msg 3) (\<lambda>flags.
       if flags AND 0x0F \<noteq> 0 then Inr None
       else
         rbind (index_msg msg 4) (\<lambda>q0. rbind (index_msg msg 5) (\<lambda>q1.
         rbind (index_msg msg 6) (\<lambda>a0. rbind (index_msg msg 7) (\<lambda>a1.
           let qdcount = from_be [q0, q1] :: u16; ancount = from_be [a0, a1] :: u16
           in case skip_questions msg (unat qdcount) 12 of
                None \<Rightarrow> Inr None
              | Some pos \<Rightarrow> find_record msg (unat ancount) pos)))))"

definition parse_answer :: "u16 \<Rightarrow> bytes \<Rightarrow> string + Answer" where
  "parse_answer qid msg =
     (if length msg < 12 \<or> from_be [msg ! 0, msg ! 1] \<noteq> qid then Inr Ignore
      else rbind (find_a msg) (\<lambda>r. case r of Some addr \<Rightarrow> Inr (Ipv4 addr) | None \<Rightarrow> Inr NoIpv4))"

section \<open>Messages as RFC 1035 lays them out\<close>

datatype name_end = Root | Pointer u8 u8

type_synonym dname = "bytes list \<times> name_end"

record question =
  q_name :: dname
  q_type :: u16
  q_class :: u16

record answer_record =
  rr_name :: dname
  rr_type :: u16
  rr_class :: u16
  rr_ttl :: u32
  rr_data :: bytes

definition label_ok :: "bytes \<Rightarrow> bool" where
  "label_ok l \<longleftrightarrow> l \<noteq> [] \<and> length l \<le> 63"

definition enc_label :: "bytes \<Rightarrow> bytes" where
  "enc_label l = of_nat (length l) # l"

fun enc_end :: "name_end \<Rightarrow> bytes" where
  "enc_end Root = [0]"
| "enc_end (Pointer hi lo) = [hi OR 0xC0, lo]"

definition enc_name :: "dname \<Rightarrow> bytes" where
  "enc_name nm = concat (map enc_label (fst nm)) @ enc_end (snd nm)"

definition name_ok :: "dname \<Rightarrow> bool" where
  "name_ok nm \<longleftrightarrow> list_all label_ok (fst nm)"

definition enc_question :: "question \<Rightarrow> bytes" where
  "enc_question q = enc_name (q_name q) @ be_bytes 2 (q_type q) @ be_bytes 2 (q_class q)"

definition enc_record :: "answer_record \<Rightarrow> bytes" where
  "enc_record r = enc_name (rr_name r) @ be_bytes 2 (rr_type r) @ be_bytes 2 (rr_class r) @ be_bytes 4 (rr_ttl r) @
     be_bytes 2 (of_nat (length (rr_data r)) :: u16) @ rr_data r"

definition record_ok :: "answer_record \<Rightarrow> bool" where
  "record_ok r \<longleftrightarrow> name_ok (rr_name r) \<and> length (rr_data r) < 65536"

text \<open>A message with its sections; \<open>tail\<close> are the authority and additional sections, \<open>ns\<close> their
  counters.\<close>

definition enc_message :: "u16 \<Rightarrow> u8 \<Rightarrow> u8 \<Rightarrow> question list \<Rightarrow> answer_record list \<Rightarrow> u32 \<Rightarrow> bytes \<Rightarrow> bytes" where
  "enc_message qid f1 f2 qs rs ns tail =
     be_bytes 2 qid @ [f1, f2] @ be_bytes 2 (of_nat (length qs) :: u16) @ be_bytes 2 (of_nat (length rs) :: u16) @
     be_bytes 4 ns @ concat (map enc_question qs) @ concat (map enc_record rs) @ tail"

definition is_a :: "answer_record \<Rightarrow> bool" where
  "is_a r \<longleftrightarrow> rr_type r = QTYPE_A \<and> rr_class r = QCLASS_IN \<and> length (rr_data r) = 4"

section \<open>Lemmas\<close>

lemma small_label_byte: "n \<le> 63 \<Longrightarrow> (of_nat n :: u8) AND 0xC0 = 0"
proof -
  assume "n \<le> 63"
  then have "take_bit 6 (of_nat n :: u8) = of_nat n"
    by (simp add: take_bit_eq_mod word_unat_eq_iff unat_mod unsigned_of_nat take_bit_nat_eq_self)
  then have "(of_nat n :: u8) AND 0xC0 = of_nat n AND (mask 6 AND 0xC0)"
    by (metis and.assoc take_bit_eq_mask)
  then show ?thesis by (simp add: mask_eq_exp_minus_1)
qed

lemma unat_small_label: "n \<le> 63 \<Longrightarrow> unat (of_nat n :: u8) = n"
  by (simp add: unsigned_of_nat take_bit_nat_eq_self)

lemma of_nat_label_0: "0 < n \<Longrightarrow> n \<le> 63 \<Longrightarrow> (of_nat n :: u8) \<noteq> 0"
  using unat_small_label [of n] by auto

lemma skip_name_enc:
  assumes "name_ok nm" "length (pre @ enc_name nm @ post) < 2 ^ 64"
  shows "skip_name (pre @ enc_name nm @ post) (length pre) = Some (length (pre @ enc_name nm))"
  using assms
proof (induction "fst nm" arbitrary: nm pre)
  case Nil
  show ?case
  proof (cases "snd nm")
    case Root
    with Nil show ?thesis by (subst skip_name.simps) (simp add: enc_name_def nth_append)
  next
    case (Pointer hi lo)
    have "(hi OR 0xC0) AND 0xC0 = (0xC0 :: u8)" by (rule bit_word_eqI) (auto simp: bit_simps)
    with Pointer Nil show ?thesis by (subst skip_name.simps) (simp add: enc_name_def nth_append)
  qed
next
  case (Cons l ls)
  let ?nm = "(ls, snd nm)"
  have e: "enc_name nm = enc_label l @ enc_name ?nm" using Cons.hyps(2) [symmetric] by (simp add: enc_name_def)
  have l: "l \<noteq> []" "length l \<le> 63" "name_ok ?nm"
    using Cons.prems(1) Cons.hyps(2) [symmetric] by (simp_all add: name_ok_def label_ok_def)
  have "skip_name (pre @ enc_name nm @ post) (length pre) = skip_name ((pre @ enc_label l) @ enc_name ?nm @ post) (length (pre @ enc_label l))"
    using l Cons.prems(2) small_label_byte [of "length l"] of_nat_label_0 [of "length l"]
    by (subst skip_name.simps) (simp add: e enc_label_def nth_append checked_add_def unat_small_label Let_def)
  also have "\<dots> = Some (length ((pre @ enc_label l) @ enc_name ?nm))"
    using Cons.hyps(1) [of ?nm "pre @ enc_label l"] l(3) Cons.prems(2) by (simp add: e)
  finally show ?case by (simp add: e)
qed

lemma skip_questions_enc:
  "list_all (\<lambda>q. name_ok (q_name q)) qs \<Longrightarrow> length (pre @ concat (map enc_question qs) @ post) < 2 ^ 64 \<Longrightarrow>
   skip_questions (pre @ concat (map enc_question qs) @ post) (length qs) (length pre)
     = Some (length (pre @ concat (map enc_question qs)))"
proof (induction qs arbitrary: pre)
  case (Cons q qs)
  define m where "m = pre @ concat (map enc_question (q # qs)) @ post"
  have l: "length m < 2 ^ 64" using Cons.prems(2) by (simp add: m_def)
  have "m = pre @ enc_name (q_name q) @ (be_bytes 2 (q_type q) @ be_bytes 2 (q_class q) @ concat (map enc_question qs) @ post)"
    by (simp add: m_def enc_question_def)
  then have 1: "skip_name m (length pre) = Some (length pre + length (enc_name (q_name q)))"
    using skip_name_enc [of "q_name q" pre] Cons.prems(1) l by simp
  have m: "m = (pre @ enc_question q) @ concat (map enc_question qs) @ post" by (simp add: m_def)
  with Cons.IH [of "pre @ enc_question q"] Cons.prems(1) l
  have "skip_questions m (length qs) (length (pre @ enc_question q)) = Some (length (pre @ concat (map enc_question (q # qs))))"
    by simp
  moreover have "length pre + length (enc_name (q_name q)) + 4 = length (pre @ enc_question q)" by (simp add: enc_question_def)
  moreover have "length (pre @ enc_question q) < 2 ^ 64" using l by (simp add: m)
  ultimately have "skip_questions m (Suc (length qs)) (length pre) = Some (length (pre @ concat (map enc_question (q # qs))))"
    using 1 by (simp add: checked_add_def add.assoc)
  then show ?case by (simp add: m_def)
qed simp

lemma get_u16_enc: "length pre = i \<Longrightarrow> get_u16 (pre @ be_bytes 2 w @ post) i = Some w"
proof -
  assume i: "length pre = i"
  obtain a b where ab: "be_bytes 2 w = [a, b]"
    by (metis (no_types, lifting) One_nat_def Suc_1 length_0_conv length_Suc_conv length_be_bytes)
  have "from_be [a, b] = w" using from_be_be_bytes [of 2 w] ab by simp
  with i ab show ?thesis by (simp add: get_u16_def nth_append)
qed

text \<open>The fixed part of a record.\<close>

lemma record_fields:
  assumes "record_ok r" "m = pre @ enc_record r @ post" "length m < 2 ^ 64"
  defines "at \<equiv> length pre + length (enc_name (rr_name r))"
  shows "skip_name m (length pre) = Some at"
    "get_u16 m at = Some (rr_type r)" "get_u16 m (at + 2) = Some (rr_class r)"
    "get_u16 m (at + 8) = Some (of_nat (length (rr_data r)))"
    "unat (of_nat (length (rr_data r)) :: u16) = length (rr_data r)"
    "at + 10 + length (rr_data r) = length (pre @ enc_record r)"
    "slice (at + 10) (length (rr_data r)) m = rr_data r"
proof -
  let ?n = "pre @ enc_name (rr_name r)"
  let ?l = "be_bytes 2 (of_nat (length (rr_data r)) :: u16)"
  have m: "m = pre @ enc_name (rr_name r) @ (be_bytes 2 (rr_type r) @ be_bytes 2 (rr_class r) @ be_bytes 4 (rr_ttl r) @ ?l @ rr_data r @ post)"
    using assms(2) by (simp add: enc_record_def)
  then show "skip_name m (length pre) = Some at"
    using skip_name_enc [of "rr_name r" pre] assms(1,3) by (metis at_def length_append record_ok_def)
  have "m = ?n @ be_bytes 2 (rr_type r) @ (be_bytes 2 (rr_class r) @ be_bytes 4 (rr_ttl r) @ ?l @ rr_data r @ post)"
    using m by simp
  then show "get_u16 m at = Some (rr_type r)" by (metis at_def get_u16_enc length_append)
  have "m = (?n @ be_bytes 2 (rr_type r)) @ be_bytes 2 (rr_class r) @ (be_bytes 4 (rr_ttl r) @ ?l @ rr_data r @ post)"
    using m by simp
  then show "get_u16 m (at + 2) = Some (rr_class r)" by (metis at_def get_u16_enc length_append length_be_bytes)
  have "m = (?n @ be_bytes 2 (rr_type r) @ be_bytes 2 (rr_class r) @ be_bytes 4 (rr_ttl r)) @ ?l @ (rr_data r @ post)"
    using m by simp
  moreover have "length (?n @ be_bytes 2 (rr_type r) @ be_bytes 2 (rr_class r) @ be_bytes 4 (rr_ttl r)) = at + 8"
    by (simp add: at_def)
  ultimately show "get_u16 m (at + 8) = Some (of_nat (length (rr_data r)))" by (metis get_u16_enc)
  show "unat (of_nat (length (rr_data r)) :: u16) = length (rr_data r)"
    using assms(1) by (simp add: record_ok_def unsigned_of_nat take_bit_nat_eq_self)
  show "at + 10 + length (rr_data r) = length (pre @ enc_record r)" by (simp add: at_def enc_record_def)
  have "m = (?n @ be_bytes 2 (rr_type r) @ be_bytes 2 (rr_class r) @ be_bytes 4 (rr_ttl r) @ ?l) @ rr_data r @ post"
    using m by simp
  moreover have "length (?n @ be_bytes 2 (rr_type r) @ be_bytes 2 (rr_class r) @ be_bytes 4 (rr_ttl r) @ ?l) = at + 10"
    by (simp add: at_def)
  ultimately show "slice (at + 10) (length (rr_data r)) m = rr_data r"
    by (metis append_eq_conv_conj slice_def)
qed

lemma four_bytes: "at + 4 \<le> length m \<Longrightarrow> [m ! at, m ! (at + 1), m ! (at + 2), m ! (at + 3)] = slice at 4 m"
  by (rule nth_equalityI) (auto simp: less_Suc_eq nth_Cons numeral_eq_Suc)

lemma find_record_step:
  assumes "record_ok r" "m = pre @ enc_record r @ post" "length m < 2 ^ 64"
  shows "find_record m (Suc n) (length pre) =
    (if is_a r then Inr (Some (rr_data r)) else find_record m n (length (pre @ enc_record r)))"
proof -
  define at where "at = length pre + length (enc_name (rr_name r))"
  note f = record_fields [OF assms, folded at_def]
  have b: "at + 10 + length (rr_data r) \<le> length m" unfolding f(6) assms(2) by simp
  have four: "(of_nat (length (rr_data r)) :: u16) = 4 \<longleftrightarrow> length (rr_data r) = 4"
    using f(5) by (auto simp: word_unat_eq_iff)
  show ?thesis
  proof (cases "is_a r")
    case True
    with b four_bytes [of "at + 10" m] f assms(3) show ?thesis
      by (simp add: is_a_def checked_add_def index_msg_def four)
  next
    case False
    have "at + 10 + length (rr_data r) < 2 ^ 64" using b assms(3) by linarith
    with False b f show ?thesis by (auto simp: is_a_def checked_add_def four)
  qed
qed

lemma find_record_enc:
  "list_all record_ok rs \<Longrightarrow> m = pre @ concat (map enc_record rs) @ post \<Longrightarrow> length m < 2 ^ 64 \<Longrightarrow>
   find_record m (length rs) (length pre) = Inr (map_option rr_data (List.find is_a rs))"
proof (induction rs arbitrary: pre)
  case (Cons r rs)
  have m: "m = pre @ enc_record r @ (concat (map enc_record rs) @ post)"
    and m': "m = (pre @ enc_record r) @ concat (map enc_record rs) @ post" using Cons.prems(2) by simp_all
  have "find_record m (length rs) (length (pre @ enc_record r)) = Inr (map_option rr_data (List.find is_a rs))"
    using Cons.IH [OF _ m'] Cons.prems by simp
  with find_record_step [OF _ m Cons.prems(3)] Cons.prems(1) show ?case by simp
qed simp

lemma two_bytes:
  fixes w :: u16
  obtains a b where "be_bytes 2 w = [a, b]" "from_be [a, b] = w"
proof -
  obtain a b where ab: "be_bytes 2 w = [a, b]"
    by (metis (no_types, lifting) One_nat_def Suc_1 length_0_conv length_Suc_conv length_be_bytes)
  moreover have "from_be [a, b] = w" using from_be_be_bytes [of 2 w] ab by simp
  ultimately show ?thesis by (rule that)
qed

lemma find_record_total: "\<exists>a. find_record msg n pos = Inr a"
proof (induction n arbitrary: pos)
  case (Suc n)
  show ?case
    by (auto simp: checked_add_def index_msg_def res_simps Suc.IH split: option.splits if_splits)
qed simp

text \<open>The buffer with \<open>q\<close> written at its start.\<close>

definition filled :: "bytes \<Rightarrow> bytes \<Rightarrow> bytes \<times> nat" where
  "filled out q = (q @ drop (length q) out, length q)"

text \<open>A piece of code that appends \<open>bs\<close> if it fits and \<open>ok\<close> holds, and fails otherwise.\<close>

definition writes :: "bytes \<Rightarrow> (bytes \<times> nat, unit, unit) eff \<Rightarrow> bytes \<Rightarrow> bool \<Rightarrow> bool" where
  "writes out m bs ok \<longleftrightarrow> (\<forall>q. length q \<le> length out \<longrightarrow>
     (if ok \<and> length (q @ bs) \<le> length out then m (filled out q) = (Inr (), filled out (q @ bs))
      else fst (m (filled out q)) = Inl ()))"

lemma writes_bytes: "length out < 2 ^ 64 \<Longrightarrow> writes out (dns_write bs) bs True"
  by (auto simp: writes_def dns_write_def filled_def checked_add_def put_at_def add.commute)

lemma writes_bind:
  assumes "writes out m bs ok" "writes out m' bs' ok'"
  shows "writes out (ebind m (\<lambda>_. m')) (bs @ bs') (ok \<and> ok')"
  unfolding writes_def
proof (intro allI impI)
  fix q :: bytes assume q: "length q \<le> length out"
  show "if (ok \<and> ok') \<and> length (q @ bs @ bs') \<le> length out
     then ebind m (\<lambda>_. m') (filled out q) = (Inr (), filled out (q @ bs @ bs')) else fst (ebind m (\<lambda>_. m') (filled out q)) = Inl ()"
  proof (cases "ok \<and> length (q @ bs) \<le> length out")
    case True
    then have "m (filled out q) = (Inr (), filled out (q @ bs))" using assms(1) q by (simp add: writes_def)
    moreover have "if ok' \<and> length ((q @ bs) @ bs') \<le> length out
        then m' (filled out (q @ bs)) = (Inr (), filled out ((q @ bs) @ bs')) else fst (m' (filled out (q @ bs))) = Inl ()"
      using assms(2) True unfolding writes_def by blast
    ultimately show ?thesis using True by simp
  next
    case False
    then have "fst (m (filled out q)) = Inl ()" using assms(1) q by (auto simp: writes_def)
    then have "fst (ebind m (\<lambda>_. m') (filled out q)) = Inl ()" by (cases "m (filled out q)") simp
    with False show ?thesis by auto
  qed
qed

lemma writes_labels: "length out < 2 ^ 64 \<Longrightarrow> writes out (write_labels ls) (concat (map enc_label ls)) (list_all label_ok ls)"
proof (induction ls)
  case Nil
  then show ?case by (simp add: writes_def ret_def)
next
  case (Cons l ls)
  show ?case
  proof (cases "label_ok l")
    case True
    from writes_bind [OF writes_bytes writes_bind [OF writes_bytes Cons.IH], of "[of_nat (length l)]" l] Cons.prems True
    show ?thesis by (simp add: label_ok_def enc_label_def)
  next
    case False
    then show ?thesis by (auto simp: writes_def label_ok_def fail_def)
  qed
qed

definition enc_query :: "u16 \<Rightarrow> bytes list \<Rightarrow> bytes" where
  "enc_query qid labels = enc_message qid 1 0 [\<lparr>q_name = (labels, Root), q_type = QTYPE_A, q_class = QCLASS_IN\<rparr>] [] 0 []"

lemma count_bytes: "be_bytes 2 (1 :: u16) = [0, 1]" "be_bytes 2 (0 :: u16) = [0, 0]" "be_bytes 4 (0 :: u32) = [0, 0, 0, 0]"
  by (simp_all add: be_bytes_def le_bytes_def upt_rec)

lemma enc_query_bytes:
  "enc_query qid labels = be_bytes 2 qid @ [1, 0] @ [0, 1] @ [0, 0, 0, 0, 0, 0] @ concat (map enc_label labels) @ [0] @
     be_bytes 2 QTYPE_A @ be_bytes 2 QCLASS_IN"
  by (simp add: enc_query_def enc_message_def enc_question_def enc_name_def count_bytes)

section \<open>Properties\<close>

text \<open>
  C23: A reply from the network cannot crash the kernel: whatever bytes arrive, the parser returns one
  of its three answers, and never indexes outside the message.
\<close>

theorem parse_answer_total: "\<exists>a. parse_answer qid msg = Inr a"
proof -
  have "\<exists>a. find_a msg = Inr a" if "12 \<le> length msg"
    using that find_record_total by (auto simp: find_a_def index_msg_def Let_def split: option.splits)
  then show ?thesis by (auto simp: parse_answer_def split: option.splits)
qed

text \<open>
  C22: The resolver understands RFC 1035. Given any well-formed reply to the query, with any number of
  questions and records, names compressed or not, and anything after the answers, the result is the
  address of the first A record of class IN with four bytes of data, and \<open>NoIpv4\<close> if there is none.
\<close>

theorem parse_answer_finds_first_a:
  assumes "list_all (\<lambda>q. name_ok (q_name q)) qs" "list_all record_ok rs" "length qs < 65536" "length rs < 65536"
    "f2 AND 0x0F = 0" "length (enc_message qid f1 f2 qs rs ns post) < 2 ^ 64"
  shows "parse_answer qid (enc_message qid f1 f2 qs rs ns post) =
    Inr (case List.find is_a rs of Some r \<Rightarrow> Ipv4 (rr_data r) | None \<Rightarrow> NoIpv4)"
proof -
  define m where "m = enc_message qid f1 f2 qs rs ns post"
  obtain i0 i1 where i: "be_bytes 2 qid = [i0, i1]" "from_be [i0, i1] = qid" by (rule two_bytes)
  obtain q0 q1 where q: "be_bytes 2 (of_nat (length qs) :: u16) = [q0, q1]" "from_be [q0, q1] = (of_nat (length qs) :: u16)"
    by (rule two_bytes)
  obtain a0 a1 where a: "be_bytes 2 (of_nat (length rs) :: u16) = [a0, a1]" "from_be [a0, a1] = (of_nat (length rs) :: u16)"
    by (rule two_bytes)
  let ?h = "[i0, i1, f1, f2, q0, q1, a0, a1] @ be_bytes 4 ns"
  have m1: "m = ?h @ concat (map enc_question qs) @ (concat (map enc_record rs) @ post)"
    and m2: "m = (?h @ concat (map enc_question qs)) @ concat (map enc_record rs) @ post"
    by (simp_all add: m_def enc_message_def i q a)
  have l: "length m < 2 ^ 64" using assms(6) by (simp add: m_def)
  have n: "unat (of_nat (length qs) :: u16) = length qs" "unat (of_nat (length rs) :: u16) = length rs"
    using assms(3,4) by (simp_all add: unsigned_of_nat take_bit_nat_eq_self)
  have "skip_questions m (length qs) 12 = Some (length (?h @ concat (map enc_question qs)))"
    using skip_questions_enc [OF assms(1), of ?h] l m1 by simp
  moreover have "find_record m (length rs) (length (?h @ concat (map enc_question qs))) = Inr (map_option rr_data (List.find is_a rs))"
    by (rule find_record_enc [OF assms(2) m2 l])
  moreover have "12 \<le> length m" by (simp add: m1)
  moreover have "m ! 0 = i0" "m ! 1 = i1" "m ! 3 = f2" "m ! 4 = q0" "m ! 5 = q1" "m ! 6 = a0" "m ! 7 = a1" by (simp_all add: m1)
  ultimately have "parse_answer qid m = Inr (case List.find is_a rs of Some r \<Rightarrow> Ipv4 (rr_data r) | None \<Rightarrow> NoIpv4)"
    using assms(5) i(2) q(2) a(2) n
    by (simp add: parse_answer_def find_a_def index_msg_def split: option.splits)
  then show ?thesis by (simp add: m_def)
qed

text \<open>A reply with an alias before the address.\<close>

definition demo_records :: "answer_record list" where
  "demo_records =
     [\<lparr>rr_name = ([], Pointer 0 12), rr_type = 5, rr_class = 1, rr_ttl = 60, rr_data = [1, 120, 0]\<rparr>,
      \<lparr>rr_name = ([[120]], Root), rr_type = 1, rr_class = 1, rr_ttl = 60, rr_data = [93, 184, 216, 34]\<rparr>]"

definition demo_questions :: "question list" where
  "demo_questions = [\<lparr>q_name = ([str ''www'', str ''org''], Root), q_type = 1, q_class = 1\<rparr>]"

theorem parse_answer_finds_first_a_witness:
  "parse_answer 7 (enc_message 7 0x81 0x80 demo_questions demo_records 0 []) = Inr (Ipv4 [93, 184, 216, 34])"
proof -
  have "list_all (\<lambda>q. name_ok (q_name q)) demo_questions" "list_all record_ok demo_records"
    by (simp_all add: demo_questions_def demo_records_def record_ok_def name_ok_def label_ok_def str_def)
  moreover have "length demo_questions < 65536" "length demo_records < 65536"
    by (simp_all add: demo_questions_def demo_records_def)
  moreover have "(0x80 :: u8) AND 0x0F = 0" by simp
  moreover have "length (enc_message 7 0x81 0x80 demo_questions demo_records 0 []) < 2 ^ 64"
    by (simp add: enc_message_def demo_questions_def demo_records_def enc_question_def enc_record_def enc_name_def enc_label_def str_def)
  ultimately have "parse_answer 7 (enc_message 7 0x81 0x80 demo_questions demo_records 0 []) =
      Inr (case List.find is_a demo_records of Some r \<Rightarrow> Ipv4 (rr_data r) | None \<Rightarrow> NoIpv4)"
    by (rule parse_answer_finds_first_a)
  then show ?thesis by (simp add: demo_records_def is_a_def QTYPE_A_def QCLASS_IN_def)
qed

text \<open>
  C38: The query is the RFC 1035 message that asks for the host. \<open>build_query\<close> succeeds exactly when
  every label of the name (a trailing dot apart) has 1 to 63 bytes and the message fits the buffer; it
  then writes that message, with the identifier, at the start of the buffer, and returns its length.
\<close>

theorem build_query_encodes:
  fixes hostname out :: bytes
  assumes "length out < 2 ^ 64"
  defines "labels \<equiv> split_on (ch CHR ''.'') (strip_suffix (ch CHR ''.'') hostname)"
  shows "if list_all label_ok labels \<and> length (enc_query qid labels) \<le> length out
    then build_query qid hostname out = (Some (length (enc_query qid labels)), enc_query qid labels @ drop (length (enc_query qid labels)) out)
    else fst (build_query qid hostname out) = None"
proof -
  let ?m = "ebind (dns_write (be_bytes 2 qid)) (\<lambda>_. ebind (dns_write [0x01, 0x00]) (\<lambda>_. ebind (dns_write [0x00, 0x01]) (\<lambda>_.
    ebind (dns_write [0, 0, 0, 0, 0, 0]) (\<lambda>_. ebind (write_labels labels) (\<lambda>_. ebind (dns_write [0x00]) (\<lambda>_.
    ebind (dns_write (be_bytes 2 QTYPE_A)) (\<lambda>_. dns_write (be_bytes 2 QCLASS_IN))))))))"
  have w: "writes out ?m (enc_query qid labels) (True \<and> True \<and> True \<and> True \<and> list_all label_ok labels \<and> True \<and> True \<and> True)"
    unfolding enc_query_bytes by (intro writes_bind writes_bytes writes_labels assms(1))
  have z: "filled out [] = (out, 0)" "length ([] :: bytes) \<le> length out" by (simp_all add: filled_def)
  from w [unfolded writes_def, rule_format, OF z(2), unfolded z(1) append_Nil simp_thms]
  have r: "if list_all label_ok labels \<and> length (enc_query qid labels) \<le> length out
      then ?m (out, 0) = (Inr (), filled out (enc_query qid labels)) else fst (?m (out, 0)) = Inl ()" .
  show ?thesis
  proof (cases "list_all label_ok labels \<and> length (enc_query qid labels) \<le> length out")
    case True
    with r show ?thesis unfolding build_query_def labels_def [symmetric] by (simp add: filled_def)
  next
    case False
    with r have "fst (?m (out, 0)) = Inl ()" by (simp only: if_False)
    with False show ?thesis unfolding build_query_def labels_def [symmetric]
      by (cases "?m (out, 0)") (simp only: fst_conv prod.case sum.case if_False split: prod.split)
  qed
qed

theorem build_query_encodes_witness:
  "build_query 7 (str ''a.bc.'') (replicate 32 9) =
     (Some 22, [0, 7, 1, 0, 0, 1, 0, 0, 0, 0, 0, 0, 1, 97, 2, 98, 99, 0, 0, 1, 0, 1] @ replicate 10 9)"
proof -
  have l: "split_on (ch CHR ''.'') (strip_suffix (ch CHR ''.'') (str ''a.bc.'')) = [[97], [98, 99]]" by code_simp
  have "enc_query 7 [[97], [98, 99]] = [0, 7, 1, 0, 0, 1, 0, 0, 0, 0, 0, 0, 1, 97, 2, 98, 99, 0, 0, 1, 0, 1]" by code_simp
  moreover have "length (replicate 32 9 :: bytes) < 2 ^ 64" by simp
  note build_query_encodes [OF this, of "str ''a.bc.''" 7]
  ultimately show ?thesis by (simp add: l label_ok_def)
qed

end
