(* ===== verification/Addr_Space.thy ===== *)
theory Addr_Space
  imports Paging
begin

text \<open>
  Address spaces of processes, \<open>src/mm/addr_space.rs\<close>: a new root that shares the kernel's part, the
  copy for \<open>fork\<close> and the release of the private part. Tables are read and written in physical memory,
  entry \<open>i\<close> of the table in frame \<open>f\<close> at \<open>f + 8 * i\<close>. The meaning of an entry (\<open>flags\<close>, \<open>addr\<close>, \<open>frame\<close>
  of \<open>PageTableEntry\<close>) comes from the \<open>x86_64\<close> crate: it is the parameter \<open>ptes\<close>. The error is the
  message of a panic, debug assertions included.
\<close>

section \<open>Page table entries\<close>

record ptes =
  pte_flags :: "u64 \<Rightarrow> u64"
  pte_addr :: "u64 \<Rightarrow> u64"
  pte_frame :: "u64 \<Rightarrow> u64 option"

abbreviation (input) "HUGE_PAGE \<equiv> 128 :: u64"

definition entry_at :: "pmem \<Rightarrow> u64 \<Rightarrow> nat \<Rightarrow> u64" where
  "entry_at m table i = m (table + 8 * of_nat i)"

definition present :: "ptes \<Rightarrow> u64 \<Rightarrow> bool" where
  "present pt entry \<longleftrightarrow> contains_flag (pte_flags pt entry) PRESENT"

text \<open>An entry of the root that the process shares with the kernel.\<close>

definition shared_entry :: "ptes \<Rightarrow> u64 \<Rightarrow> u64 \<Rightarrow> bool" where
  "shared_entry pt kentry entry \<longleftrightarrow> present pt kentry \<and> pte_addr pt kentry = pte_addr pt entry"

text \<open>\<open>for x in xs { f(x)? }\<close>.\<close>

fun for_each :: "('a \<Rightarrow> ('s, 'e, unit) eff) \<Rightarrow> 'a list \<Rightarrow> ('s, 'e, unit) eff" where
  "for_each f [] s = (Inr (), s)"
| "for_each f (x # xs) s = ebind (f x) (\<lambda>_. for_each f xs) s"

section \<open>A new address space\<close>

text \<open>\<open>PageTable::zero\<close>, and the bytes of one frame copied to another, a word at a time.\<close>

definition zero_frame :: "u64 \<Rightarrow> pmem \<Rightarrow> pmem" where
  "zero_frame f m = (\<lambda>a. if a - f < 4096 \<and> a AND 7 = 0 then 0 else m a)"

definition copy_frame :: "u64 \<Rightarrow> u64 \<Rightarrow> pmem \<Rightarrow> pmem" where
  "copy_frame src dst m = (\<lambda>a. if a - dst < 4096 \<and> a AND 7 = 0 then m (src + (a - dst)) else m a)"

definition new_sharing_kernel :: "u64 \<Rightarrow> (frames, string, u64) eff" where
  "new_sharing_kernel kernel_pml4 s =
     (case allocate_frame s of
        (None, s) \<Rightarrow> (Inl ''out of frames for a process PML4'', s)
      | (Some frame, (a, m)) \<Rightarrow> (Inr frame, (a, copy_frame kernel_pml4 frame (zero_frame frame m))))"

section \<open>The copy for fork\<close>

definition copy_leaf :: "mapper \<Rightarrow> u64 \<Rightarrow> u64 \<Rightarrow> u64 \<Rightarrow> (frames, string, unit) eff" where
  "copy_leaf mp child va parent_leaf s =
     (case allocate_frame s of
        (None, s) \<Rightarrow> (Inl ''out of frames for fork page copy'', s)
      | (Some child_leaf, (a, m)) \<Rightarrow>
          (case map_to mp child (page_of va) child_leaf USER_RW (a, copy_frame parent_leaf child_leaf m) of
             (Inl _, s) \<Rightarrow> (Inl ''fork: map child page'', s)
           | (Inr _, s) \<Rightarrow> (Inr (), s)))"

text \<open>One turn of the loop over the entries of a table of level \<open>l + 1\<close>; \<open>copy_child\<close> is the recursive call.\<close>

definition copy_entry :: "ptes \<Rightarrow> mapper \<Rightarrow> u64 \<Rightarrow> nat \<Rightarrow> (u64 \<Rightarrow> u64 \<Rightarrow> (frames, string, unit) eff) \<Rightarrow>
    u64 \<Rightarrow> u64 \<Rightarrow> nat \<Rightarrow> (frames, string, unit) eff" where
  "copy_entry pt mp child l copy_child frame va_base i s =
     (let entry = entry_at (snd s) frame i; va = va_base OR push_bit (12 + 9 * l) (of_nat i)
      in if \<not> present pt entry then (Inr (), s)
         else if l = 0 then
           (case pte_frame pt entry of
              Some parent_leaf \<Rightarrow> copy_leaf mp child va parent_leaf s
            | None \<Rightarrow> (Inr (), s))
         else
           (case pte_frame pt entry of
              Some child_tbl \<Rightarrow>
                if contains_flag (pte_flags pt entry) HUGE_PAGE then (Inl ''huge pages are not supported in fork'', s)
                else copy_child child_tbl va s
            | None \<Rightarrow> (Inr (), s)))"

primrec copy_subtree :: "ptes \<Rightarrow> mapper \<Rightarrow> u64 \<Rightarrow> nat \<Rightarrow> u64 \<Rightarrow> u64 \<Rightarrow> (frames, string, unit) eff" where
  "copy_subtree pt mp child 0 frame va_base = fail ''attempt to subtract with overflow''"
| "copy_subtree pt mp child (Suc l) frame va_base =
     for_each (copy_entry pt mp child l (copy_subtree pt mp child l) frame va_base) [0..<512]"

definition copy_root_entry :: "ptes \<Rightarrow> mapper \<Rightarrow> u64 \<Rightarrow> u64 \<Rightarrow> u64 \<Rightarrow> nat \<Rightarrow> (frames, string, unit) eff" where
  "copy_root_entry pt mp child parent_pml4 kernel_pml4 i s =
     (let entry = entry_at (snd s) parent_pml4 i
      in if \<not> present pt entry then (Inr (), s)
         else if shared_entry pt (entry_at (snd s) kernel_pml4 i) entry then (Inr (), s)
         else
           (case pte_frame pt entry of
              Some l3 \<Rightarrow> copy_subtree pt mp child 3 l3 (push_bit 39 (of_nat i)) s
            | None \<Rightarrow> (Inr (), s)))"

definition fork_from :: "ptes \<Rightarrow> mapper \<Rightarrow> u64 \<Rightarrow> u64 \<Rightarrow> (frames, string, u64) eff" where
  "fork_from pt mp parent_pml4 kernel_pml4 =
     ebind (new_sharing_kernel kernel_pml4) (\<lambda>child.
     ebind (for_each (copy_root_entry pt mp child parent_pml4 kernel_pml4) [0..<512]) (\<lambda>_. ret child))"

section \<open>The release of an address space\<close>

text \<open>One turn of the loop over the entries of a table of level \<open>l + 1\<close>; \<open>free_child\<close> is the recursive call.\<close>

definition free_entry :: "ptes \<Rightarrow> nat \<Rightarrow> (u64 \<Rightarrow> (frames, string, unit) eff) \<Rightarrow> u64 \<Rightarrow> nat \<Rightarrow> (frames, string, unit) eff" where
  "free_entry pt l free_child frame i s =
     (let entry = entry_at (snd s) frame i
      in if \<not> present pt entry then (Inr (), s)
         else if l = 0 then
           (if \<not> contains_flag (pte_flags pt entry) USER_ACCESSIBLE
            then (Inl ''freeing a non-user leaf during teardown'', s)
            else
              (case pte_frame pt entry of
                 Some leaf \<Rightarrow> (Inr (), deallocate_frame leaf s)
               | None \<Rightarrow> (Inr (), s)))
         else if contains_flag (pte_flags pt entry) HUGE_PAGE
           then (Inl ''huge pages are not supported in teardown'', s)
         else
           (case pte_frame pt entry of
              Some child \<Rightarrow> free_child child s
            | None \<Rightarrow> (Inr (), s)))"

primrec free_subtree :: "ptes \<Rightarrow> nat \<Rightarrow> u64 \<Rightarrow> (frames, string, unit) eff" where
  "free_subtree pt 0 frame = fail ''attempt to subtract with overflow''"
| "free_subtree pt (Suc l) frame =
     ebind (for_each (free_entry pt l (free_subtree pt l) frame) [0..<512]) (\<lambda>_ s. (Inr (), deallocate_frame frame s))"

definition free_root_entry :: "ptes \<Rightarrow> u64 \<Rightarrow> u64 \<Rightarrow> nat \<Rightarrow> (frames, string, unit) eff" where
  "free_root_entry pt kernel_frame pml4_frame i s =
     (let entry = entry_at (snd s) pml4_frame i
      in if \<not> present pt entry then (Inr (), s)
         else if shared_entry pt (entry_at (snd s) kernel_frame i) entry then (Inr (), s)
         else
           (case pte_frame pt entry of
              Some l3 \<Rightarrow> free_subtree pt 3 l3 s
            | None \<Rightarrow> (Inr (), s)))"

text \<open>\<open>kernel_frame\<close> is the active root.\<close>

definition destroy :: "ptes \<Rightarrow> u64 \<Rightarrow> u64 \<Rightarrow> (frames, string, unit) eff" where
  "destroy pt kernel_frame pml4_frame s =
     (if pml4_frame = kernel_frame then (Inl ''must not destroy the active address space'', s)
      else
        ebind (for_each (free_root_entry pt kernel_frame pml4_frame) [0..<512])
          (\<lambda>_ s. (Inr (), deallocate_frame pml4_frame s)) s)"

section \<open>What an address space consists of\<close>

text \<open>The frames of a subtree, the table itself last, and those of the private part of a space.\<close>

primrec sub_frames :: "ptes \<Rightarrow> pmem \<Rightarrow> nat \<Rightarrow> u64 \<Rightarrow> u64 list" where
  "sub_frames pt m 0 frame = []"
| "sub_frames pt m (Suc l) frame =
     concat (map (\<lambda>i. if \<not> present pt (entry_at m frame i) then []
        else case pte_frame pt (entry_at m frame i) of
          None \<Rightarrow> []
        | Some f \<Rightarrow> if l = 0 then [f] else sub_frames pt m l f) [0..<512]) @ [frame]"

definition root_frames :: "ptes \<Rightarrow> pmem \<Rightarrow> u64 \<Rightarrow> u64 \<Rightarrow> u64 list" where
  "root_frames pt m kern root =
     concat (map (\<lambda>i. if \<not> present pt (entry_at m root i) \<or> shared_entry pt (entry_at m kern i) (entry_at m root i) then []
        else case pte_frame pt (entry_at m root i) of
          None \<Rightarrow> []
        | Some f \<Rightarrow> sub_frames pt m 3 f) [0..<512]) @ [root]"

text \<open>Only 4 KiB pages, and all of them of the user.\<close>

primrec sub_ok :: "ptes \<Rightarrow> pmem \<Rightarrow> nat \<Rightarrow> u64 \<Rightarrow> bool" where
  "sub_ok pt m 0 frame = True"
| "sub_ok pt m (Suc l) frame =
     list_all (\<lambda>i. present pt (entry_at m frame i) \<longrightarrow>
        (if l = 0 then contains_flag (pte_flags pt (entry_at m frame i)) USER_ACCESSIBLE
         else \<not> contains_flag (pte_flags pt (entry_at m frame i)) HUGE_PAGE \<and>
           (case pte_frame pt (entry_at m frame i) of None \<Rightarrow> True | Some f \<Rightarrow> sub_ok pt m l f))) [0..<512]"

definition root_ok :: "ptes \<Rightarrow> pmem \<Rightarrow> u64 \<Rightarrow> u64 \<Rightarrow> bool" where
  "root_ok pt m kern root \<longleftrightarrow>
     list_all (\<lambda>i. present pt (entry_at m root i) \<longrightarrow> \<not> shared_entry pt (entry_at m kern i) (entry_at m root i) \<longrightarrow>
        (case pte_frame pt (entry_at m root i) of None \<Rightarrow> True | Some f \<Rightarrow> sub_ok pt m 3 f)) [0..<512]"

section \<open>Lemmas\<close>

lemma for_each_append: "for_each f (xs @ ys) s = ebind (for_each f xs) (\<lambda>_. for_each f ys) s"
  by (induction f xs s rule: for_each.induct) (auto simp: ebind_def split: prod.splits sum.splits)

text \<open>A loop whose steps each give back a list of frames.\<close>

lemma for_each_frees:
  assumes "\<And>i s. i \<in> set xs \<Longrightarrow> Q s i \<Longrightarrow> f i s = (Inr (), fold deallocate_frame (g i) s)"
    "\<And>i ys zs. xs = ys @ i # zs \<Longrightarrow> Q (fold deallocate_frame (concat (map g ys)) s) i"
  shows "for_each f xs s = (Inr (), fold deallocate_frame (concat (map g xs)) s)"
  using assms
proof (induction xs arbitrary: s rule: rev_induct)
  case (snoc x xs)
  have "for_each f xs s = (Inr (), fold deallocate_frame (concat (map g xs)) s)"
    by (rule snoc.IH) (use snoc.prems in auto)
  moreover have "Q (fold deallocate_frame (concat (map g xs)) s) x" using snoc.prems(2) [of xs x "[]"] by simp
  ultimately show ?case using snoc.prems(1) [of x] by (simp add: for_each_append)
qed simp

lemma frees_memory: "snd (fold deallocate_frame fs s) a = snd s a" if "a \<notin> set fs"
  using that by (induction fs arbitrary: s) (auto simp: deallocate_frame_def Let_def split: prod.splits)

lemma frees_agree:
  assumes "\<forall>a. containing_address a \<in> F \<longrightarrow> snd s a = m a" "\<forall>f \<in> set fs. containing_address f = f" "set fs \<inter> F = {}"
  shows "\<forall>a. containing_address a \<in> F \<longrightarrow> snd (fold deallocate_frame fs s) a = m a"
proof (intro allI impI)
  fix a assume a: "containing_address a \<in> F"
  then have "a \<notin> set fs" using assms(2,3) by fastforce
  with a assms(1) show "snd (fold deallocate_frame fs s) a = m a" by (simp add: frees_memory)
qed

lemma containing_page: "containing_address f = page_of f"
  by (simp add: containing_address_def page_of_def)

lemma containing_entry:
  assumes "containing_address f = f" "i < 512"
  shows "containing_address (f + 8 * of_nat i) = f"
proof -
  have o: "unat (8 * of_nat i :: u64) = 8 * i" using assms(2) by (simp add: unat_word_ariths unsigned_of_nat take_bit_nat_eq_self)
  have a: "unat f mod 4096 = 0" using assms(1) by (simp add: containing_page page_of_eq)
  have "unat f + 8 * i < 2 ^ 64"
    using a assms(2) unat_u64 [of f] by (auto elim!: dvdE simp: mod_eq_0_iff_dvd)
  then have "unat (f + 8 * of_nat i) = unat f + 8 * i" using o by (simp add: unat_word_ariths(1))
  with a assms(2) show ?thesis by (simp add: containing_page page_of_eq)
qed

text \<open>The frames entry \<open>i\<close> of a table contributes.\<close>

definition entry_frames :: "ptes \<Rightarrow> pmem \<Rightarrow> nat \<Rightarrow> u64 \<Rightarrow> nat \<Rightarrow> u64 list" where
  "entry_frames pt m l frame i =
     (if \<not> present pt (entry_at m frame i) then []
      else case pte_frame pt (entry_at m frame i) of
        None \<Rightarrow> []
      | Some f \<Rightarrow> if l = 0 then [f] else sub_frames pt m l f)"

lemma sub_frames_entries: "sub_frames pt m (Suc l) frame = concat (map (entry_frames pt m l frame) [0..<512]) @ [frame]"
  by (simp add: entry_frames_def [abs_def])

definition root_entry_frames :: "ptes \<Rightarrow> pmem \<Rightarrow> u64 \<Rightarrow> u64 \<Rightarrow> nat \<Rightarrow> u64 list" where
  "root_entry_frames pt m kern root i =
     (if \<not> present pt (entry_at m root i) \<or> shared_entry pt (entry_at m kern i) (entry_at m root i) then []
      else case pte_frame pt (entry_at m root i) of None \<Rightarrow> [] | Some f \<Rightarrow> sub_frames pt m 3 f)"

lemma root_frames_entries: "root_frames pt m kern root = concat (map (root_entry_frames pt m kern root) [0..<512]) @ [root]"
  by (simp add: root_frames_def root_entry_frames_def [abs_def])

declare sub_frames.simps(2) [simp del]

text \<open>A loop over the entries of a table that gives back the frames \<open>g i\<close> for entry \<open>i\<close>, all of them
  distinct and none the table.\<close>

lemma frees_table:
  assumes "distinct (concat (map g [0..<512]) @ [table])"
    "\<forall>f \<in> set (concat (map g [0..<512]) @ [table]). containing_address f = f"
    "\<forall>a. containing_address a \<in> set (concat (map g [0..<512]) @ [table]) \<union> K \<longrightarrow> snd s a = m a"
    "K \<inter> set (concat (map g [0..<512])) = {}"
    "\<And>i s. i < 512 \<Longrightarrow> distinct (g i) \<Longrightarrow> \<forall>f \<in> set (g i). containing_address f = f \<Longrightarrow>
      \<forall>a. containing_address a \<in> set (g i) \<union> insert table K \<longrightarrow> snd s a = m a \<Longrightarrow>
      step i s = (Inr (), fold deallocate_frame (g i) s)"
  shows "ebind (for_each step [0..<512]) (\<lambda>_ s. (Inr (), deallocate_frame table s)) s
    = (Inr (), fold deallocate_frame (concat (map g [0..<512]) @ [table]) s)"
proof -
  have "for_each step [0..<512] s = (Inr (), fold deallocate_frame (concat (map g [0..<512])) s)"
  proof (rule for_each_frees [where Q = "\<lambda>s i. \<forall>a. containing_address a \<in> set (g i) \<union> insert table K \<longrightarrow> snd s a = m a"])
    fix i and s :: frames assume i: "i \<in> set [0..<512]" and q: "\<forall>a. containing_address a \<in> set (g i) \<union> insert table K \<longrightarrow> snd s a = m a"
    obtain us vs where x: "[0..<512] = us @ i # vs" using split_list [OF i] by blast
    have "distinct (g i)" using assms(1) unfolding x by auto
    moreover have "\<forall>f \<in> set (g i). containing_address f = f" using assms(2) i by auto
    ultimately show "step i s = (Inr (), fold deallocate_frame (g i) s)" using assms(5) i q by auto
  next
    fix i ys zs assume x: "[0..<512] = ys @ i # zs"
    then have i: "i \<in> set [0..<512]" and ys: "set ys \<subseteq> set [0..<512]" by auto
    show "\<forall>a. containing_address a \<in> set (g i) \<union> insert table K \<longrightarrow> snd (fold deallocate_frame (concat (map g ys)) s) a = m a"
    proof (rule frees_agree)
      have "set (g i) \<subseteq> set (concat (map g [0..<512]))" using i by auto
      then show "\<forall>a. containing_address a \<in> set (g i) \<union> insert table K \<longrightarrow> snd s a = m a" using assms(3) by auto
      show "\<forall>f \<in> set (concat (map g ys)). containing_address f = f" using assms(2) ys by fastforce
      have "set (concat (map g ys)) \<inter> (set (g i) \<union> {table}) = {}" using assms(1) unfolding x by auto
      moreover have "set (concat (map g ys)) \<inter> K = {}" using assms(4) ys by auto
      ultimately show "set (concat (map g ys)) \<inter> (set (g i) \<union> insert table K) = {}" by auto
    qed
  qed
  then show ?thesis by simp
qed

lemma free_subtree_ok:
  assumes "sub_ok pt m l frame" "distinct (sub_frames pt m l frame)"
    "\<forall>f \<in> set (sub_frames pt m l frame). containing_address f = f" "0 < l"
    "\<forall>a. containing_address a \<in> set (sub_frames pt m l frame) \<longrightarrow> snd s a = m a"
  shows "free_subtree pt l frame s = (Inr (), fold deallocate_frame (sub_frames pt m l frame) s)"
  using assms
proof (induction l arbitrary: frame s)
  case (Suc l)
  let ?g = "entry_frames pt m l frame"
  have al: "containing_address frame = frame" using Suc.prems(3) by (simp add: sub_frames_entries)
  show ?case unfolding free_subtree.simps sub_frames_entries
  proof (rule frees_table [where K = "{}" and m = m])
    fix i and s :: frames
    assume i: "i < 512" and d: "distinct (?g i)" "\<forall>f \<in> set (?g i). containing_address f = f"
      and q: "\<forall>a. containing_address a \<in> set (?g i) \<union> {frame} \<longrightarrow> snd s a = m a"
    have e: "entry_at (snd s) frame i = entry_at m frame i" using q containing_entry [OF al i] by (simp add: entry_at_def)
    have "if l = 0 then contains_flag (pte_flags pt (entry_at m frame i)) USER_ACCESSIBLE
      else \<not> contains_flag (pte_flags pt (entry_at m frame i)) HUGE_PAGE \<and>
        (case pte_frame pt (entry_at m frame i) of None \<Rightarrow> True | Some f \<Rightarrow> sub_ok pt m l f)"
      if "present pt (entry_at m frame i)" using Suc.prems(1) that i by (auto simp: list_all_iff)
    with Suc.IH [of _ s] d q show "free_entry pt l (free_subtree pt l) frame i s = (Inr (), fold deallocate_frame (?g i) s)"
      by (auto simp: free_entry_def entry_frames_def e Let_def split: option.splits if_splits)
  qed (use Suc.prems in \<open>simp_all add: sub_frames_entries\<close>)
qed simp

lemma destroy_ok:
  assumes "root_ok pt m kern root" "distinct (root_frames pt m kern root)"
    "\<forall>f \<in> set (root_frames pt m kern root). containing_address f = f"
    "containing_address kern = kern" "kern \<notin> set (root_frames pt m kern root)"
  shows "destroy pt kern root (a, m) = (Inr (), fold deallocate_frame (root_frames pt m kern root) (a, m))"
proof -
  let ?g = "root_entry_frames pt m kern root"
  have ne: "root \<noteq> kern" and al: "containing_address root = root" using assms(3,5) by (auto simp: root_frames_entries)
  have "ebind (for_each (free_root_entry pt kern root) [0..<512]) (\<lambda>_ s. (Inr (), deallocate_frame root s)) (a, m)
      = (Inr (), fold deallocate_frame (concat (map ?g [0..<512]) @ [root]) (a, m))"
  proof (rule frees_table [where K = "{kern}" and m = m])
    fix i and s :: frames
    assume i: "i < 512" and d: "distinct (?g i)" "\<forall>f \<in> set (?g i). containing_address f = f"
      and q: "\<forall>a. containing_address a \<in> set (?g i) \<union> {root, kern} \<longrightarrow> snd s a = m a"
    have e: "entry_at (snd s) root i = entry_at m root i" "entry_at (snd s) kern i = entry_at m kern i"
      using q containing_entry [OF al i] containing_entry [OF assms(4) i] by (simp_all add: entry_at_def)
    have "case pte_frame pt (entry_at m root i) of None \<Rightarrow> True | Some f \<Rightarrow> sub_ok pt m 3 f"
      if "present pt (entry_at m root i)" "\<not> shared_entry pt (entry_at m kern i) (entry_at m root i)"
      using assms(1) that i by (auto simp: root_ok_def list_all_iff)
    with free_subtree_ok [of pt m 3 _ s] d q show "free_root_entry pt kern root i s = (Inr (), fold deallocate_frame (?g i) s)"
      by (auto simp: free_root_entry_def root_entry_frames_def e Let_def split: option.splits if_splits)
  qed (use assms in \<open>simp_all add: root_frames_entries\<close>)
  with ne show ?thesis by (simp add: destroy_def root_frames_entries)
qed

section \<open>A small address space\<close>

text \<open>The entries of the architecture: flags in the low bits, the frame above them.\<close>

definition demo_ptes :: ptes where
  "demo_ptes = \<lparr>pte_flags = (\<lambda>e. e AND 0xFFF), pte_addr = (\<lambda>e. e AND 0x000FFFFFFFFFF000),
     pte_frame = (\<lambda>e. if e AND 1 = 1 \<and> e AND 128 = 0 then Some (e AND 0x000FFFFFFFFFF000) else None)\<rparr>"

text \<open>One page at \<open>0x7F8000000000\<close>: root, two intermediate tables, last table and page.\<close>

definition demo_tables :: pmem where
  "demo_tables a =
     (if a = 0x1000 + 8 * of_nat 255 then 0x2007 else if a = 0x2000 + 8 * of_nat 0 then 0x5007
      else if a = 0x5000 + 8 * of_nat 0 then 0x6007 else if a = 0x6000 + 8 * of_nat 0 then 0x7007 else 0)"

lemma entry_addr_eq:
  assumes "containing_address f = f" "containing_address g = g" "i < 512" "j < 512"
  shows "f + 8 * of_nat i = g + 8 * of_nat j \<longleftrightarrow> f = g \<and> i = j"
proof
  assume e: "f + 8 * of_nat i = g + 8 * of_nat j"
  then have fg: "f = g" using containing_entry assms by metis
  with e have "(of_nat (8 * i) :: u64) = of_nat (8 * j)" by simp
  then have "unat (of_nat (8 * i) :: u64) = unat (of_nat (8 * j) :: u64)" by (rule arg_cong)
  with assms(3,4) have "8 * i = 8 * j" by (simp only: unsigned_of_nat take_bit_nat_eq_self) (simp add: take_bit_nat_eq_self)
  with fg show "f = g \<and> i = j" by simp
qed simp

lemma demo_aligned: "containing_address 0x1000 = 0x1000" "containing_address 0x2000 = 0x2000" "containing_address 0x5000 = 0x5000"
  "containing_address 0x6000 = 0x6000" "containing_address 0x9000 = 0x9000"
  by (simp_all add: containing_address_def)

lemma demo_entries:
  assumes "j < 512"
  shows "entry_at demo_tables 0x1000 j = (if j = 255 then 0x2007 else 0)"
    "entry_at demo_tables 0x2000 j = (if j = 0 then 0x5007 else 0)"
    "entry_at demo_tables 0x5000 j = (if j = 0 then 0x6007 else 0)"
    "entry_at demo_tables 0x6000 j = (if j = 0 then 0x7007 else 0)"
    "entry_at demo_tables 0x9000 j = 0"
  using assms unfolding entry_at_def demo_tables_def by (simp_all only: entry_addr_eq demo_aligned) simp_all

lemma single_entry:
  assumes "i < 512" "\<And>j. j < 512 \<Longrightarrow> j \<noteq> i \<Longrightarrow> g j = []"
  shows "concat (map g [0..<512]) = g i"
proof -
  have "[0..<512] = [0..<i] @ i # [Suc i..<512]"
    using assms(1) upt_add_eq_append [of 0 i "512 - i"] upt_conv_Cons [of i 512]
    by (simp only: le_add_diff_inverse less_imp_le le0)
  moreover have "concat (map g [0..<i]) = []" "concat (map g [Suc i..<512]) = []" using assms by auto
  ultimately show ?thesis by (simp del: concat_eq_Nil_conv)
qed

lemma demo_pte:
  "pte_flags demo_ptes e = e AND 0xFFF" "pte_addr demo_ptes e = e AND 0x000FFFFFFFFFF000"
  "pte_frame demo_ptes e = (if e AND 1 = 1 \<and> e AND 128 = 0 then Some (e AND 0x000FFFFFFFFFF000) else None)"
  by (simp_all add: demo_ptes_def)

lemmas demo_entry_simps = demo_entries present_def demo_pte contains_flag_def shared_entry_def

lemma demo_sub:
  "sub_frames demo_ptes demo_tables 3 0x2000 = [0x7000, 0x6000, 0x5000, 0x2000]" "sub_ok demo_ptes demo_tables 3 0x2000"
proof -
  have 1: "sub_frames demo_ptes demo_tables (Suc 0) 0x6000 = [0x7000, 0x6000]"
    unfolding sub_frames_entries by (subst single_entry [of 0]) (simp_all add: entry_frames_def demo_entry_simps)
  have 2: "sub_frames demo_ptes demo_tables (Suc (Suc 0)) 0x5000 = [0x7000, 0x6000, 0x5000]"
    unfolding sub_frames_entries [of _ _ "Suc 0"]
    by (subst single_entry [of 0]) (simp_all add: entry_frames_def demo_entry_simps 1)
  have "sub_frames demo_ptes demo_tables (Suc (Suc (Suc 0))) 0x2000 = [0x7000, 0x6000, 0x5000, 0x2000]"
    unfolding sub_frames_entries [of _ _ "Suc (Suc 0)"]
    by (subst single_entry [of 0]) (simp_all add: entry_frames_def demo_entry_simps 2)
  then show "sub_frames demo_ptes demo_tables 3 0x2000 = [0x7000, 0x6000, 0x5000, 0x2000]" by (simp add: numeral_3_eq_3)
  have 3: "sub_ok demo_ptes demo_tables (Suc 0) 0x6000" by (auto simp: list_all_iff demo_entry_simps)
  have 4: "sub_ok demo_ptes demo_tables (Suc (Suc 0)) 0x5000"
    unfolding sub_ok.simps(2) [of _ _ "Suc 0"] using 3 by (auto simp: list_all_iff demo_entry_simps simp del: sub_ok.simps)
  have "sub_ok demo_ptes demo_tables (Suc (Suc (Suc 0))) 0x2000"
    unfolding sub_ok.simps(2) [of _ _ "Suc (Suc 0)"] using 4 by (auto simp: list_all_iff demo_entry_simps simp del: sub_ok.simps)
  then show "sub_ok demo_ptes demo_tables 3 0x2000" by (simp only: numeral_3_eq_3)
qed

lemma demo_root:
  "root_frames demo_ptes demo_tables 0x9000 0x1000 = [0x7000, 0x6000, 0x5000, 0x2000, 0x1000]"
  "root_ok demo_ptes demo_tables 0x9000 0x1000"
proof -
  show "root_frames demo_ptes demo_tables 0x9000 0x1000 = [0x7000, 0x6000, 0x5000, 0x2000, 0x1000]"
    unfolding root_frames_entries
    by (subst single_entry [of 255]) (simp_all add: root_entry_frames_def demo_entry_simps demo_sub(1))
  show "root_ok demo_ptes demo_tables 0x9000 0x1000"
    using demo_sub(2) by (auto simp: root_ok_def list_all_iff demo_entry_simps)
qed

section \<open>Properties\<close>



end
