(* ===== verification/Page_Map.thy ===== *)
theory Page_Map
  imports Addr_Space Uaccess
begin

text \<open>
  What the kernel relies on from the page table crate, and what mapping a user page does then. The
  contract speaks of the frames \<open>tables m root\<close> that hold the tables of an address space: only they
  determine the translation; \<open>map_to\<close> of a free page changes the translation of that page alone, and
  writes only to those frames and to fresh ones it takes from the allocator.
\<close>

section \<open>The contract of the crate\<close>

definition reserved :: "BootInfoFrameAllocator \<Rightarrow> u64 set" where
  "reserved a = - set (usable_frames a)"

text \<open>Only the tables determine the translation.\<close>

definition reads_tables :: "mapper \<Rightarrow> (pmem \<Rightarrow> u64 \<Rightarrow> u64 set) \<Rightarrow> bool" where
  "reads_tables mp tables \<longleftrightarrow>
     (\<forall>m m' root. (\<forall>x. page_of x \<in> tables m root \<longrightarrow> m' x = m x) \<longrightarrow>
        tables m' root = tables m root \<and> translate mp m' root = translate mp m root)"

text \<open>Translation is by pages, to page-aligned frames.\<close>

definition by_pages :: "mapper \<Rightarrow> bool" where
  "by_pages mp \<longleftrightarrow>
     (\<forall>m root p. translate mp m root p = translate mp m root (page_of p)) \<and>
     (\<forall>m root p f fl. translate mp m root p = Some (f, fl) \<longrightarrow> page_of f = f)"

text \<open>A page that is mapped, by itself or in a huge page, is an error of \<open>map_to\<close>.\<close>

definition maps_one :: "mapper \<Rightarrow> (pmem \<Rightarrow> u64 \<Rightarrow> u64 set) \<Rightarrow> bool" where
  "maps_one mp tables \<longleftrightarrow>
     (\<forall>a m held root page f fl r a' m'. frames_inv (a, m) held \<longrightarrow> tables m root \<subseteq> held \<union> reserved a \<longrightarrow>
        page_of page = page \<longrightarrow> page_of f = f \<longrightarrow>
        map_to mp root page f fl (a, m) = (r, (a', m')) \<longrightarrow>
        (\<exists>new. new \<inter> held = {} \<and> frames_inv (a', m') (held \<union> new) \<and> usable_frames a' = usable_frames a \<and>
           tables m' root = tables m root \<union> new \<and>
           (\<forall>x. page_of x \<notin> tables m root \<union> new \<longrightarrow> m' x = m x) \<and>
           (r = Inr () \<longrightarrow> translate mp m root page = None) \<and>
           (\<forall>p. translate mp m' root p =
              (if r = Inr () \<and> page_of p = page then Some (f, fl) else translate mp m root p))))"

definition page_mapper :: "mapper \<Rightarrow> (pmem \<Rightarrow> u64 \<Rightarrow> u64 set) \<Rightarrow> bool" where
  "page_mapper mp tables \<longleftrightarrow> reads_tables mp tables \<and> by_pages mp \<and> maps_one mp tables"

section \<open>Address spaces\<close>

text \<open>\<open>F\<close> are the frames of the pages the process may access.\<close>

definition user_space :: "mapper \<Rightarrow> (pmem \<Rightarrow> u64 \<Rightarrow> u64 set) \<Rightarrow> frames \<Rightarrow> u64 set \<Rightarrow> u64 \<Rightarrow> u64 set \<Rightarrow> bool" where
  "user_space mp tables s held root F \<longleftrightarrow>
     frames_inv s held \<and> F \<subseteq> held \<and> tables (snd s) root \<subseteq> held \<union> reserved (fst s) \<and> F \<inter> tables (snd s) root = {} \<and>
     pages_inj mp (snd s) root \<and>
     (\<forall>p f fl. translate mp (snd s) root p = Some (f, fl) \<longrightarrow> contains_flag fl USER_ACCESSIBLE \<longrightarrow> f \<in> F)"

lemma mapper_local:
  "page_mapper mp tables \<Longrightarrow> (\<And>x. page_of x \<in> tables m root \<Longrightarrow> m' x = m x) \<Longrightarrow>
   tables m' root = tables m root \<and> translate mp m' root = translate mp m root"
  unfolding page_mapper_def reads_tables_def by blast

lemma mapper_page:
  assumes "page_mapper mp tables"
  shows "translate mp m root p = translate mp m root (page_of p)"
    and "translate mp m root p = Some (f, fl) \<Longrightarrow> page_of f = f"
  using assms unfolding page_mapper_def by_pages_def by blast+

lemma mapper_map:
  assumes "page_mapper mp tables" "frames_inv (a, m) held" "tables m root \<subseteq> held \<union> reserved a"
    "page_of page = page" "page_of f = f" "map_to mp root page f fl (a, m) = (r, (a', m'))"
  obtains new where "new \<inter> held = {}" "frames_inv (a', m') (held \<union> new)" "usable_frames a' = usable_frames a"
    "tables m' root = tables m root \<union> new" "\<forall>x. page_of x \<notin> tables m root \<union> new \<longrightarrow> m' x = m x"
    "r = Inr () \<longrightarrow> translate mp m root page = None"
    "\<forall>p. translate mp m' root p = (if r = Inr () \<and> page_of p = page then Some (f, fl) else translate mp m root p)"
proof -
  have "maps_one mp tables" using assms(1) by (simp add: page_mapper_def)
  from this [unfolded maps_one_def, rule_format, OF assms(2-6)] show thesis using that by blast
qed

lemma user_space_frame:
  assumes "user_space mp tables s held root F" "user_frame mp (snd s) root f"
  shows "f \<in> held" "f \<notin> tables (snd s) root"
proof -
  have "f \<in> F" using assms unfolding user_space_def user_frame_def by blast
  then show "f \<in> held" "f \<notin> tables (snd s) root" using assms(1) unfolding user_space_def by blast+
qed

lemma user_space_sane:
  assumes "page_mapper mp tables" "user_space mp tables s held root F"
  shows "sane_space mp (snd s) root"
  unfolding sane_space_def
proof (intro conjI allI impI)
  fix m' assume k: "same_kernel mp root (snd s) m'"
  have "m' x = snd s x" if "page_of x \<in> tables (snd s) root" for x
  proof -
    have "\<not> user_frame mp (snd s) root (page_of x)"
      using that user_space_frame [OF assms(2)] by blast
    with k show ?thesis unfolding same_kernel_def by blast
  qed
  from mapper_local [OF assms(1) this] show "translate mp m' root = translate mp (snd s) root" by simp
qed (use mapper_page(2) [OF assms(1)] in blast)

text \<open>Writing user pages keeps the address space.\<close>

lemma user_space_write:
  assumes "page_mapper mp tables" "user_space mp tables (a, m) held root F" "same_kernel mp root m m'"
  shows "user_space mp tables (a, m') held root F"
proof -
  have t: "translate mp m' root = translate mp m root" "tables m' root = tables m root"
  proof -
    have "m' x = m x" if "page_of x \<in> tables m root" for x
    proof -
      have "\<not> user_frame mp m root (page_of x)" using that user_space_frame [OF assms(2)] by auto
      with assms(3) show ?thesis unfolding same_kernel_def by blast
    qed
    from mapper_local [OF assms(1) this] show "translate mp m' root = translate mp m root" "tables m' root = tables m root" by simp_all
  qed
  have "frames_inv (a, m') held"
  proof (rule frames_inv_write)
    fix x assume "containing_address x \<notin> held"
    then have "\<not> user_frame mp m root (page_of x)"
      using user_space_frame(1) [OF assms(2)] by (auto simp: containing_page)
    with assms(3) show "m' x = m x" unfolding same_kernel_def by blast
  qed (use assms(2) in \<open>simp add: user_space_def\<close>)
  with assms(2) show ?thesis unfolding user_space_def fst_conv snd_conv t pages_inj_cong [OF t(1)] by blast
qed

lemma allocate_memory [simp]: "allocate_frame (a, m) = (r, (a', m')) \<Longrightarrow> m' = m \<and> usable_frames a' = usable_frames a"
  by (auto simp: allocate_frame_def Let_def split: option.splits if_splits)

lemma allocate_usable: "frames_inv s held \<Longrightarrow> allocate_frame s = (Some f, s') \<Longrightarrow> f \<in> set (usable_frames (fst s'))"
  using frames.alloc_Some [of s held f s'] by (auto simp: frames_inv_def split: prod.splits dest: in_set_takeD)

text \<open>A new user page.\<close>

lemma map_user_page_ok:
  assumes mp: "page_mapper mp tables" and u: "user_space mp tables s held root F"
    and p: "page_of page = page" and r: "map_user_page mp root page s = (Inr (), s')"
  obtains held' f where "user_space mp tables s' held' root (insert f F)" "f \<notin> held" "held \<subseteq> held'"
    "translate mp (snd s) root page = None"
    "\<And>q. translate mp (snd s') root q = (if page_of q = page then Some (f, USER_RW) else translate mp (snd s) root q)"
    "\<And>x. page_of x \<in> F \<Longrightarrow> snd s' x = snd s x"
proof -
  obtain a m where s: "s = (a, m)" by (cases s)
  from r obtain f a1 a2 m2 where al: "allocate_frame (a, m) = (Some f, (a1, m))" and s': "s' = (a2, m2)"
    and mt: "map_to mp root page f USER_RW (a1, m) = (Inr (), (a2, m2))"
    by (auto simp: map_user_page_def s split: prod.splits option.splits sum.splits)
      (metis allocate_memory old.unit.exhaust surj_pair)
  have i: "frames_inv (a, m) held" and F: "F \<subseteq> held" "F \<inter> tables m root = {}" "tables m root \<subseteq> held \<union> reserved a"
    "pages_inj mp m root" "\<And>p f fl. translate mp m root p = Some (f, fl) \<Longrightarrow> contains_flag fl USER_ACCESSIBLE \<Longrightarrow> f \<in> F"
    using u by (auto simp: user_space_def s)
  have f: "f \<notin> held" "frames_inv (a1, m) (insert f held)" using frames.alloc_Some [OF i al] by auto
  have us: "usable_frames a1 = usable_frames a" using al by simp
  have fu: "f \<in> set (usable_frames a1)" using allocate_usable [OF i al] by simp
  then have fa: "page_of f = f" using usable_aligned by (simp add: containing_page [symmetric])
  have tt: "tables m root \<subseteq> insert f held \<union> reserved a1" using F(3) us by (auto simp: reserved_def)
  obtain new where n: "new \<inter> insert f held = {}" "frames_inv (a2, m2) (insert f held \<union> new)" "usable_frames a2 = usable_frames a1"
    "tables m2 root = tables m root \<union> new" "\<forall>x. page_of x \<notin> tables m root \<union> new \<longrightarrow> m2 x = m x"
    and "Inr () = (Inr () :: string + unit) \<longrightarrow> translate mp m root page = None"
      "\<forall>p. translate mp m2 root p = (if Inr () = (Inr () :: string + unit) \<and> page_of p = page then Some (f, USER_RW) else translate mp m root p)"
    by (rule mapper_map [OF mp f(2) tt p fa mt])
  then have pn: "translate mp m root page = None"
    and n6: "\<And>p. translate mp m2 root p = (if page_of p = page then Some (f, USER_RW) else translate mp m root p)" by simp_all
  have ft: "f \<notin> tables m root" using F(3) f(1) fu us by (auto simp: reserved_def)
  have "pages_inj mp m2 root"
    unfolding pages_inj_def
  proof (intro allI impI)
    fix p q g fl gl
    assume t: "translate mp m2 root p = Some (g, fl)" "translate mp m2 root q = Some (g, gl)"
      "contains_flag fl USER_ACCESSIBLE" "contains_flag gl USER_ACCESSIBLE"
    have "g \<noteq> f" if "translate mp m root x = Some (g, l)" "contains_flag l USER_ACCESSIBLE" for x l
      using F(5) [OF that] F(1) f(1) by auto
    moreover have "page_of p = page_of q" if "page_of p \<noteq> page" "page_of q \<noteq> page"
    proof -
      have "translate mp m root p = Some (g, fl)" "translate mp m root q = Some (g, gl)" using t(1,2) that by (simp_all add: n6)
      with t(3,4) F(4) show ?thesis unfolding pages_inj_def by blast
    qed
    ultimately show "page_of p = page_of q" using t unfolding n6 by (cases "page_of p = page"; cases "page_of q = page") auto
  qed
  moreover have "g \<in> insert f F" if "translate mp m2 root p = Some (g, fl)" "contains_flag fl USER_ACCESSIBLE" for p g fl
    using that F(5) by (auto simp: n6 split: if_splits)
  ultimately have "user_space mp tables s' (insert f held \<union> new) root (insert f F)"
    using n(1-4) F(1-3) ft us unfolding user_space_def s' by (auto simp: reserved_def)
  moreover have "snd s' x = snd s x" if "page_of x \<in> F" for x
    using n(5) [rule_format, of x] n(1) that F(1,2) unfolding s s' by auto
  moreover have "translate mp (snd s') root q = (if page_of q = page then Some (f, USER_RW) else translate mp (snd s) root q)" for q
    using n6 by (simp add: s s')
  moreover have "held \<subseteq> insert f held \<union> new" by auto
  moreover have "translate mp (snd s) root page = None" using pn by (simp add: s)
  ultimately show thesis using f(1) by (intro that [of "insert f held \<union> new" f])
qed

section \<open>A one-level table\<close>

text \<open>A mapper that keeps the contract, with a single table that maps the 512 pages from \<open>0x7F8000000000\<close>.\<close>

definition flat_base :: u64 where
  "flat_base = 0x7F8000000000"

definition flat_covers :: "u64 \<Rightarrow> bool" where
  "flat_covers p \<longleftrightarrow> page_of p - flat_base < 0x200000"

definition flat_slot :: "u64 \<Rightarrow> u64 \<Rightarrow> u64" where
  "flat_slot root p = page_of root + 8 * of_nat (unat (page_of p - flat_base) div 4096)"

definition flat_entry :: "pmem \<Rightarrow> u64 \<Rightarrow> u64 \<Rightarrow> (u64 \<times> u64) option" where
  "flat_entry m root p =
     (if flat_covers p \<and> bit (m (flat_slot root p)) 0
      then Some (page_of (m (flat_slot root p)), m (flat_slot root p) AND 0xFFF) else None)"

definition flat_mapper :: mapper where
  "flat_mapper = \<lparr>translate = flat_entry, translate_page = (\<lambda>m root p. map_option fst (flat_entry m root p)),
     map_to = (\<lambda>root page f fl (a, m).
       if flat_covers page \<and> flat_entry m root page = None \<and> bit fl 0 \<and> fl AND 0xFFF = fl then (Inr (), (a, m(flat_slot root page := f OR fl)))
       else (Inl ''no such page'', (a, m))),
     unmap = (\<lambda>root page m. (map_option fst (flat_entry m root page), m(flat_slot root page := 0)))\<rparr>"

definition flat_tables :: "pmem \<Rightarrow> u64 \<Rightarrow> u64 set" where
  "flat_tables m root = {page_of root}"

lemma flat_index: "flat_covers p \<Longrightarrow> unat (page_of p - flat_base) div 4096 < 512"
  by (simp add: flat_covers_def word_less_nat_alt less_mult_imp_div_less)

lemma page_of_slot: "flat_covers p \<Longrightarrow> page_of (flat_slot root p) = page_of root"
  using containing_entry [of "page_of root"] flat_index [of p] by (simp add: flat_slot_def containing_page)

lemma page_diff: "unat (page_of p - flat_base) mod 4096 = 0"
proof -
  have "page_of p = push_bit 12 (drop_bit 12 p)"
    by (rule bit_word_eqI) (auto simp: page_of_def page_mask bit_simps)
  then have "page_of p - flat_base = 4096 * (drop_bit 12 p - 0x7F8000000)"
    by (simp add: push_bit_eq_mult flat_base_def)
  moreover have "unat (4096 * (drop_bit 12 p - 0x7F8000000)) = (4096 * unat (drop_bit 12 p - 0x7F8000000)) mod (4096 * 2 ^ 52)"
    unfolding unat_word_ariths by simp
  ultimately show ?thesis by (simp only: mod_mult_mult1) simp
qed

lemma flat_slot_eq:
  assumes "flat_covers p" "flat_covers q"
  shows "flat_slot root p = flat_slot root q \<longleftrightarrow> page_of p = page_of q"
proof
  assume "flat_slot root p = flat_slot root q"
  then have "unat (page_of p - flat_base) div 4096 = unat (page_of q - flat_base) div 4096"
    using entry_addr_eq [of "page_of root" "page_of root"] flat_index assms by (simp add: flat_slot_def containing_page)
  then have "unat (page_of p - flat_base) = unat (page_of q - flat_base)"
    using page_diff [of p] page_diff [of q] by (metis add_0_right mult_div_mod_eq)
  then have "page_of p - flat_base = page_of q - flat_base" by (simp add: word_unat_eq_iff)
  then show "page_of p = page_of q" by simp
qed (simp add: flat_slot_def)

lemma frames_inv_keep:
  assumes "frames_inv (a, m) held" "\<And>x. containing_address x \<notin> held \<union> reserved a \<Longrightarrow> m' x = m x"
  shows "frames_inv (a, m') held"
proof -
  from assms(1) obtain fs where fs: "free_path m (free_list a) fs" "distinct fs" "set fs \<inter> held = {}"
    "set fs \<union> held \<subseteq> set (take (cursor_next a) (usable_frames a))" and ok: "map_ok a"
    by (auto simp: frames_inv_def)
  have "m' f = m f" if "f \<in> set fs" for f
  proof -
    have "f \<in> set (usable_frames a)" using fs(4) that by (auto dest: in_set_takeD)
    then show ?thesis using assms(2) [of f] fs(3) that by (auto simp: usable_aligned reserved_def)
  qed
  from free_path_cong [OF fs(1) this] fs ok show ?thesis by (auto simp: frames_inv_def)
qed

lemma flat_pack:
  assumes "page_of f = f" "fl AND 0xFFF = fl"
  shows "page_of (f OR fl) = f" "(f OR fl) AND 0xFFF = fl" "bit (f OR fl) 0 = bit fl 0"
proof -
  have f: "bit f i \<Longrightarrow> 12 \<le> i" for i using assms(1) [symmetric] by (auto simp: page_of_def page_mask bit_simps dest!: arg_cong [where f = "\<lambda>w. bit w i"])
  have l: "bit fl i \<Longrightarrow> i < 12" for i using assms(2) [symmetric] by (auto simp: page_mask bit_simps dest!: arg_cong [where f = "\<lambda>w. bit w i"])
  show "page_of (f OR fl) = f" by (rule bit_word_eqI) (auto simp: page_of_def page_mask bit_simps dest: f l)
  show "(f OR fl) AND 0xFFF = fl" by (rule bit_word_eqI) (auto simp: page_mask bit_simps dest: f l)
  show "bit (f OR fl) 0 = bit fl 0" using f [of 0] by (auto simp: bit_simps)
qed

lemma flat_reads_tables: "reads_tables flat_mapper flat_tables"
  unfolding reads_tables_def
proof (intro allI impI)
  fix m m' :: pmem and root assume "\<forall>x. page_of x \<in> flat_tables m root \<longrightarrow> m' x = m x"
  then have "flat_entry m' root p = flat_entry m root p" for p
    using page_of_slot [of p root] by (auto simp: flat_entry_def flat_tables_def)
  then show "flat_tables m' root = flat_tables m root \<and> translate flat_mapper m' root = translate flat_mapper m root"
    by (simp add: flat_tables_def flat_mapper_def fun_eq_iff)
qed

lemma flat_entry_set:
  assumes "flat_covers page" "page_of page = page" "page_of f = f" "bit fl 0" "fl AND 0xFFF = fl"
  shows "flat_entry (m(flat_slot root page := f OR fl)) root q = (if page_of q = page then Some (f, fl) else flat_entry m root q)"
proof (cases "flat_covers q")
  case True
  with flat_slot_eq [OF True assms(1), of root] flat_pack [OF assms(3,5)] assms show ?thesis
    by (auto simp: flat_entry_def)
next
  case False
  moreover have "page_of q \<noteq> page" using False assms(1,2) by (auto simp: flat_covers_def)
  ultimately show ?thesis by (simp add: flat_entry_def)
qed

lemma flat_maps_one: "maps_one flat_mapper flat_tables"
  unfolding maps_one_def
proof (intro allI impI)
  fix a m held root page f fl r a' m'
  assume i: "frames_inv (a, m) held" and t: "flat_tables m root \<subseteq> held \<union> reserved a" and p: "page_of page = page" "page_of f = f"
    and mt: "map_to flat_mapper root page f fl (a, m) = (r, a', m')"
  show "\<exists>new. new \<inter> held = {} \<and> frames_inv (a', m') (held \<union> new) \<and> usable_frames a' = usable_frames a \<and>
     flat_tables m' root = flat_tables m root \<union> new \<and> (\<forall>x. page_of x \<notin> flat_tables m root \<union> new \<longrightarrow> m' x = m x) \<and>
     (r = Inr () \<longrightarrow> translate flat_mapper m root page = None) \<and>
     (\<forall>p. translate flat_mapper m' root p =
        (if r = Inr () \<and> page_of p = page then Some (f, fl) else translate flat_mapper m root p))"
  proof (cases "flat_covers page \<and> flat_entry m root page = None \<and> bit fl 0 \<and> fl AND 0xFFF = fl")
    case False
    then have "r \<noteq> Inr ()" "a' = a" "m' = m" using mt unfolding flat_mapper_def by (auto split: if_splits)
    with i show ?thesis by (intro exI [of _ "{}"]) (simp add: flat_tables_def)
  next
    case True
    with mt have r: "r = Inr ()" "a' = a" "m' = m(flat_slot root page := f OR fl)" by (simp_all add: flat_mapper_def)
    have "frames_inv (a, m') held"
      using page_of_slot True t by (intro frames_inv_keep [OF i]) (auto simp: r(3) flat_tables_def containing_page)
    moreover have "\<forall>x. page_of x \<notin> flat_tables m root \<longrightarrow> m' x = m x"
      using page_of_slot True by (auto simp: r(3) flat_tables_def)
    ultimately show ?thesis
      using r True flat_entry_set p by (intro exI [of _ "{}"]) (simp add: flat_tables_def flat_mapper_def)
  qed
qed

lemma flat_page_mapper: "page_mapper flat_mapper flat_tables"
proof -
  have "by_pages flat_mapper"
    by (auto simp: by_pages_def flat_mapper_def flat_entry_def flat_covers_def flat_slot_def)
  then show ?thesis using flat_reads_tables flat_maps_one by (simp add: page_mapper_def)
qed

end
