(* ===== verification/Elf.thy ===== *)
theory Elf
  imports Page_Map
begin

text \<open>
  The loader of user programs, \<open>src/syscall/elf.rs\<close>: the checks on a static ELF64 image, the mapping of
  its \<open>PT_LOAD\<close> segments and the copy of their bytes. The address space being loaded is active while
  \<open>load\<close> runs; \<open>root\<close> is its root.
\<close>

section \<open>Reading the image\<close>

datatype ElfError = TooSmall | BadMagic | NotElf64 | NotExecutable | NotX86_64 | BadProgramHeaderSize | SegmentOutOfFile
  | FileSizeExceedsMemSize | SegmentNotInUserSpace | SegmentOverlapsExisting

text \<open>\<open>load\<close> returns an \<open>ElfError\<close> or panics.\<close>

datatype load_error = Elf_Error ElfError | Load_Panic string

definition ET_EXEC :: u16 where "ET_EXEC = 2"

definition EM_X86_64 :: u16 where "EM_X86_64 = 0x3E"

definition PT_LOAD :: u32 where "PT_LOAD = 1"

definition PH_ENTRY_SIZE :: nat where "PH_ENTRY_SIZE = 56"

definition read_u16 :: "bytes \<Rightarrow> nat \<Rightarrow> ElfError + u16" where
  "read_u16 bs off = (if off + 2 \<le> length bs then Inr (from_le (slice off 2 bs)) else Inl TooSmall)"

definition read_u32 :: "bytes \<Rightarrow> nat \<Rightarrow> ElfError + u32" where
  "read_u32 bs off = (if off + 4 \<le> length bs then Inr (from_le (slice off 4 bs)) else Inl TooSmall)"

definition read_u64 :: "bytes \<Rightarrow> nat \<Rightarrow> ElfError + u64" where
  "read_u64 bs off = (if off + 8 \<le> length bs then Inr (from_le (slice off 8 bs)) else Inl TooSmall)"

record elf_header =
  entry :: u64
  phoff :: nat
  phentsize :: nat
  phnum :: nat

text \<open>The header of the file; \<open>checked_add\<close> fails from \<open>2^64\<close>.\<close>

definition parse_header :: "bytes \<Rightarrow> ElfError + elf_header" where
  "parse_header bs =
     (if length bs < 64 then Inl TooSmall
      else if slice 0 4 bs \<noteq> [0x7F, 0x45, 0x4C, 0x46] then Inl BadMagic
      else if bs ! 4 \<noteq> 2 then Inl NotElf64
      else
        rbind (read_u16 bs 0x10) (\<lambda>ty. if ty \<noteq> ET_EXEC then Inl NotExecutable else
        rbind (read_u16 bs 0x12) (\<lambda>machine. if machine \<noteq> EM_X86_64 then Inl NotX86_64 else
        rbind (read_u64 bs 0x18) (\<lambda>en.
        rbind (read_u64 bs 0x20) (\<lambda>po.
        rbind (read_u16 bs 0x36) (\<lambda>ps.
        rbind (read_u16 bs 0x38) (\<lambda>pn.
          if unat ps < PH_ENTRY_SIZE then Inl BadProgramHeaderSize
          else if unat po + unat pn * unat ps \<ge> 2 ^ 64 then Inl TooSmall
          else if unat po + unat pn * unat ps > length bs then Inl TooSmall
          else Inr \<lparr>entry = en, phoff = unat po, phentsize = unat ps, phnum = unat pn\<rparr>)))))))"

record segment =
  p_offset :: nat
  p_vaddr :: u64
  p_filesz :: nat
  p_memsz :: u64

text \<open>One program header: \<open>None\<close> if it is not \<open>PT_LOAD\<close> or is empty (\<open>continue\<close>).\<close>

definition parse_segment :: "bytes \<Rightarrow> nat \<Rightarrow> ElfError + segment option" where
  "parse_segment bs ph =
     rbind (read_u32 bs ph) (\<lambda>ty. if ty \<noteq> PT_LOAD then Inr None else
     rbind (read_u64 bs (ph + 0x08)) (\<lambda>off.
     rbind (read_u64 bs (ph + 0x10)) (\<lambda>vaddr.
     rbind (read_u64 bs (ph + 0x20)) (\<lambda>filesz.
     rbind (read_u64 bs (ph + 0x28)) (\<lambda>memsz.
       if unat off + unat filesz \<ge> 2 ^ 64 then Inl SegmentOutOfFile
       else if unat off + unat filesz > length bs then Inl SegmentOutOfFile
       else if filesz > memsz then Inl FileSizeExceedsMemSize
       else if vaddr + memsz < vaddr then Inl SegmentNotInUserSpace
       else if vaddr + memsz > USER_SPACE_END then Inl SegmentNotInUserSpace
       else if memsz = 0 then Inr None
       else Inr (Some \<lparr>p_offset = unat off, p_vaddr = vaddr, p_filesz = unat filesz, p_memsz = memsz\<rparr>))))))"

section \<open>Loading\<close>

text \<open>\<open>Page::range_inclusive\<close>, for page-aligned bounds.\<close>

definition pages_inclusive :: "u64 \<Rightarrow> u64 \<Rightarrow> u64 list" where
  "pages_inclusive f l = (if f \<le> l then map (\<lambda>i. f + 4096 * of_nat i) [0..<unat (l - f) div 4096 + 1] else [])"

definition panic_as :: "('s, string, 'a) eff \<Rightarrow> ('s, load_error, 'a) eff" where
  "panic_as m s = (case m s of (Inl msg, s) \<Rightarrow> (Inl (Load_Panic msg), s) | (Inr x, s) \<Rightarrow> (Inr x, s))"

text \<open>\<open>mapped\<close> are the pages this load has mapped.\<close>

fun map_segment :: "mapper \<Rightarrow> u64 \<Rightarrow> u64 list \<Rightarrow> u64 list \<Rightarrow> (frames, load_error, u64 list) eff" where
  "map_segment mp root mapped [] s = (Inr mapped, s)"
| "map_segment mp root mapped (page # pages) s =
     (if page \<in> set mapped then map_segment mp root mapped pages s
      else if translate_page mp (snd s) root page \<noteq> None then (Inl (Elf_Error SegmentOverlapsExisting), s)
      else ebind (panic_as (map_user_page mp root page)) (\<lambda>_. map_segment mp root (page # mapped) pages) s)"

text \<open>The bytes of the file, then zeroes up to \<open>p_memsz\<close>.\<close>

definition fill_segment :: "mapper \<Rightarrow> u64 \<Rightarrow> bytes \<Rightarrow> segment \<Rightarrow> frames \<Rightarrow> frames" where
  "fill_segment mp root bs sg s =
     (let m = store_bytes mp root (p_vaddr sg) (slice (p_offset sg) (p_filesz sg) bs) (snd s);
          bss = unat (p_memsz sg) - p_filesz sg;
          m = (if bss > 0 then store_bytes mp root (p_vaddr sg + of_nat (p_filesz sg)) (replicate bss 0) m else m)
      in (fst s, m))"

definition load_segment :: "mapper \<Rightarrow> u64 \<Rightarrow> bytes \<Rightarrow> u64 list \<Rightarrow> segment \<Rightarrow> (frames, load_error, u64 list) eff" where
  "load_segment mp root bs mapped sg =
     ebind (map_segment mp root mapped (pages_inclusive (page_of (p_vaddr sg)) (page_of (p_vaddr sg + p_memsz sg - 1))))
       (\<lambda>mapped s. (Inr mapped, fill_segment mp root bs sg s))"

fun load_loop :: "mapper \<Rightarrow> u64 \<Rightarrow> bytes \<Rightarrow> elf_header \<Rightarrow> nat \<Rightarrow> nat \<Rightarrow> u64 list \<Rightarrow> (frames, load_error, unit) eff" where
  "load_loop mp root bs h i 0 mapped s = (Inr (), s)"
| "load_loop mp root bs h i (Suc n) mapped s =
     (case parse_segment bs (phoff h + i * phentsize h) of
        Inl err \<Rightarrow> (Inl (Elf_Error err), s)
      | Inr None \<Rightarrow> load_loop mp root bs h (i + 1) n mapped s
      | Inr (Some sg) \<Rightarrow>
          ebind (load_segment mp root bs mapped sg) (\<lambda>mapped. load_loop mp root bs h (i + 1) n mapped) s)"

definition elf_load :: "mapper \<Rightarrow> u64 \<Rightarrow> bytes \<Rightarrow> (frames, load_error, u64) eff" where
  "elf_load mp root bs s =
     (case parse_header bs of
        Inl err \<Rightarrow> (Inl (Elf_Error err), s)
      | Inr h \<Rightarrow> ebind (load_loop mp root bs h 0 (phnum h) []) (\<lambda>_. ret (entry h)) s)"

section \<open>What the checks establish\<close>

definition segment_ok :: "bytes \<Rightarrow> segment \<Rightarrow> bool" where
  "segment_ok bs sg \<longleftrightarrow> p_offset sg + p_filesz sg \<le> length bs \<and> p_filesz sg \<le> unat (p_memsz sg) \<and> 0 < unat (p_memsz sg) \<and>
     unat (p_vaddr sg) + unat (p_memsz sg) \<le> 2 ^ 47"

lemma parse_segment_ok:
  assumes "parse_segment bs ph = Inr (Some sg)"
  shows "segment_ok bs sg"
proof -
  have v: "unat (p_vaddr sg) + unat (p_memsz sg) \<le> 2 ^ 47"
    using assms validate_Inr [of "p_vaddr sg" "p_memsz sg"]
    by (auto simp: parse_segment_def validate_def res_simps split: if_splits)
  show ?thesis
    using assms v by (auto simp: parse_segment_def segment_ok_def res_simps not_less word_le_nat_alt unat_gt_0 split: if_splits)
qed

text \<open>The bytes of a segment in memory.\<close>

definition segment_bytes :: "bytes \<Rightarrow> segment \<Rightarrow> bytes" where
  "segment_bytes bs sg = slice (p_offset sg) (p_filesz sg) bs @ replicate (unat (p_memsz sg) - p_filesz sg) 0"

lemma length_segment_bytes: "segment_ok bs sg \<Longrightarrow> length (segment_bytes bs sg) = unat (p_memsz sg)"
  by (auto simp: segment_bytes_def segment_ok_def)

lemma store_bytes_append: "store_bytes mp root va (xs @ ys) m = store_bytes mp root (va + of_nat (length xs)) ys (store_bytes mp root va xs m)"
  by (induction xs arbitrary: va m) (simp_all add: ac_simps)

lemma fill_segment_eq: "segment_ok bs sg \<Longrightarrow> fill_segment mp root bs sg s = (fst s, store_bytes mp root (p_vaddr sg) (segment_bytes bs sg) (snd s))"
  by (auto simp: fill_segment_def segment_bytes_def store_bytes_append segment_ok_def slice_def Let_def)

definition covers :: "segment \<Rightarrow> u64 \<Rightarrow> bool" where
  "covers sg a \<longleftrightarrow> p_vaddr sg \<le> a \<and> unat a < unat (p_vaddr sg) + unat (p_memsz sg)"

definition segment_pages :: "segment \<Rightarrow> u64 list" where
  "segment_pages sg = pages_inclusive (page_of (p_vaddr sg)) (page_of (p_vaddr sg + p_memsz sg - 1))"

lemma unat_last:
  assumes "segment_ok bs sg"
  shows "unat (p_vaddr sg + p_memsz sg - 1) = unat (p_vaddr sg) + unat (p_memsz sg) - 1"
proof -
  have "unat (p_vaddr sg + p_memsz sg) = unat (p_vaddr sg) + unat (p_memsz sg)"
    using assms by (simp add: segment_ok_def unat_word_ariths)
  moreover have "1 \<le> p_vaddr sg + p_memsz sg" using assms calculation by (simp add: word_le_nat_alt segment_ok_def)
  ultimately show ?thesis by (simp add: unat_sub)
qed

lemma unat_page_plus:
  assumes "page_of f = f" "page_of l = l" "f \<le> l" "i < unat (l - f) div 4096 + 1"
  shows "unat (f + 4096 * of_nat i) = unat f + 4096 * i" "page_of (f + 4096 * of_nat i) = f + 4096 * of_nat i"
proof -
  have d: "unat (l - f) = unat l - unat f" using assms(3) by (simp add: unat_sub)
  have "4096 * i \<le> unat (l - f)" using assms(4) by (simp add: less_Suc_eq_le less_eq_div_iff_mult_less_eq mult.commute)
  then have le: "unat f + 4096 * i \<le> unat l" using d assms(3) by (simp add: word_le_nat_alt)
  have "of_nat (4096 * i) = (4096 * of_nat i :: u64)" by simp
  then show u: "unat (f + 4096 * of_nat i) = unat f + 4096 * i"
    using unat_add_small [of f "4096 * i"] le unat_u64 [of l] by simp
  have "unat f mod 4096 = 0" using unat_page_of [of f] assms(1) by (metis mod_mult_self2_is_0)
  then have "4096 dvd unat f + 4096 * i" by (simp add: dvd_eq_mod_eq_0 [symmetric])
  then show "page_of (f + 4096 * of_nat i) = f + 4096 * of_nat i"
    unfolding word_unat_eq_iff unat_page_of u by (rule dvd_div_mult_self)
qed

lemma segment_pages_aligned: "p \<in> set (segment_pages sg) \<Longrightarrow> page_of p = p"
  using unat_page_plus(2) [OF page_of_idem page_of_idem]
  by (auto simp: segment_pages_def pages_inclusive_def simp del: upt_Suc split: if_splits)

lemma covers_page:
  assumes "segment_ok bs sg" "covers sg a"
  shows "page_of a \<in> set (segment_pages sg)"
proof -
  let ?f = "page_of (p_vaddr sg)" and ?l = "page_of (p_vaddr sg + p_memsz sg - 1)"
  let ?i = "unat a div 4096 - unat (p_vaddr sg) div 4096"
  have a: "unat (p_vaddr sg) \<le> unat a" "unat a \<le> unat (p_vaddr sg + p_memsz sg - 1)"
    using assms(2) unat_last [OF assms(1)] by (auto simp: covers_def word_le_nat_alt)
  have d: "unat (p_vaddr sg) div 4096 \<le> unat a div 4096" "unat a div 4096 \<le> unat (p_vaddr sg + p_memsz sg - 1) div 4096"
    using a by (simp_all add: div_le_mono)
  then have fl: "?f \<le> ?l" by (simp add: word_le_nat_alt unat_page_of)
  have "unat (?l - ?f) = (unat (p_vaddr sg + p_memsz sg - 1) div 4096 - unat (p_vaddr sg) div 4096) * 4096"
    using fl by (simp add: unat_sub unat_page_of diff_mult_distrib)
  then have "unat (?l - ?f) div 4096 = unat (p_vaddr sg + p_memsz sg - 1) div 4096 - unat (p_vaddr sg) div 4096" by simp
  then have i: "?i < unat (?l - ?f) div 4096 + 1" using d by linarith
  have "unat (?f + 4096 * of_nat ?i) = unat (page_of a)"
    using unat_page_plus(1) [OF _ _ fl i] d by (simp add: unat_page_of algebra_simps)
  then have "page_of a = ?f + 4096 * of_nat ?i" by (simp add: word_unat_eq_iff)
  with fl i show ?thesis by (auto simp: segment_pages_def pages_inclusive_def simp del: upt_Suc)
qed

section \<open>Mapping keeps what is loaded\<close>

text \<open>What the process could access in \<open>s\<close> it can access in \<open>s'\<close>, with the same contents outside \<open>W\<close>.\<close>

definition mem_keeps :: "mapper \<Rightarrow> u64 \<Rightarrow> u64 set \<Rightarrow> frames \<Rightarrow> frames \<Rightarrow> bool" where
  "mem_keeps mp root W s s' \<longleftrightarrow>
     (\<forall>a w. user_byte mp (snd s) root w a \<longrightarrow> user_byte mp (snd s') root w a) \<and>
     (\<forall>a. user_byte mp (snd s) root False a \<longrightarrow> a \<notin> W \<longrightarrow> load_byte mp (snd s') root a = load_byte mp (snd s) root a)"

lemma mem_keeps_refl [simp]: "mem_keeps mp root W s s"
  by (simp add: mem_keeps_def)

lemma mem_keeps_trans: "mem_keeps mp root W s s1 \<Longrightarrow> mem_keeps mp root V s1 s2 \<Longrightarrow> mem_keeps mp root (W \<union> V) s s2"
  by (auto simp: mem_keeps_def)

definition load_inv :: "mapper \<Rightarrow> (pmem \<Rightarrow> u64 \<Rightarrow> u64 set) \<Rightarrow> u64 \<Rightarrow> u64 list \<Rightarrow> frames \<Rightarrow> bool" where
  "load_inv mp tables root mapped s \<longleftrightarrow> (\<exists>held F. user_space mp tables s held root F) \<and>
     (\<forall>p \<in> set mapped. \<exists>f. translate mp (snd s) root p = Some (f, USER_RW))"

lemma phys_byte_same: "(\<And>x. page_of x = page_of pa \<Longrightarrow> m' x = m x) \<Longrightarrow> phys_byte m' pa = phys_byte m pa"
  using page_of_word [of pa] by (simp add: phys_byte_def)

lemma map_user_page_load:
  assumes mp: "page_mapper mp tables" and l: "load_inv mp tables root mapped s"
    and p: "page_of page = page" and r: "map_user_page mp root page s = (Inr (), s')"
  shows "load_inv mp tables root (page # mapped) s'" "mem_keeps mp root {} s s'"
proof -
  from l obtain held F where u: "user_space mp tables s held root F"
    and md: "\<And>q. q \<in> set mapped \<Longrightarrow> \<exists>f. translate mp (snd s) root q = Some (f, USER_RW)"
    unfolding load_inv_def by blast
  obtain held' f where f: "user_space mp tables s' held' root (insert f F)" "translate mp (snd s) root page = None"
    "\<And>q. translate mp (snd s') root q = (if page_of q = page then Some (f, USER_RW) else translate mp (snd s) root q)"
    "\<And>x. page_of x \<in> F \<Longrightarrow> snd s' x = snd s x"
    using map_user_page_ok [OF mp u p r] by metis
  have old: "page_of q \<noteq> page" if "translate mp (snd s) root q \<noteq> None" for q
    using that f(2) mapper_page(1) [OF mp, of "snd s" root q] by auto
  have "\<exists>f. translate mp (snd s') root q = Some (f, USER_RW)" if "q \<in> set (page # mapped)" for q
    using that md [of q] old [of q] f(3) [of q] p by auto
  with f(1) show "load_inv mp tables root (page # mapped) s'" unfolding load_inv_def by blast
  have same: "translate mp (snd s') root (page_of a) = translate mp (snd s) root (page_of a)" if "user_byte mp (snd s) root w a" for a w
  proof -
    have "translate mp (snd s) root (page_of a) \<noteq> None" using that by (auto simp: user_byte_def page_allows_def split: option.splits)
    then show ?thesis using old [of "page_of a"] f(3) [of "page_of a"] by simp
  qed
  have "load_byte mp (snd s') root a = load_byte mp (snd s) root a" if ua: "user_byte mp (snd s) root False a" for a
  proof -
    from ua obtain g gl where g: "translate mp (snd s) root (page_of a) = Some (g, gl)" "contains_flag gl USER_ACCESSIBLE"
      by (auto simp: user_byte_def page_allows_def split: option.splits)
    have "g \<in> F" using u g unfolding user_space_def by blast
    moreover have "page_of g = g" by (rule mapper_page(2) [OF mp g(1)])
    ultimately have "phys_byte (snd s') (g + (a AND 0xFFF)) = phys_byte (snd s) (g + (a AND 0xFFF))"
      using f(4) by (intro phys_byte_same) (simp add: page_of_in_frame)
    then show ?thesis using g(1) same [OF ua] by (simp add: load_byte_def phys_of_def)
  qed
  then show "mem_keeps mp root {} s s'" using same by (auto simp: mem_keeps_def user_byte_def page_allows_def)
qed

lemma map_segment_load:
  assumes mp: "page_mapper mp tables"
  shows "map_segment mp root mapped pages s = (Inr mapped', s') \<Longrightarrow> load_inv mp tables root mapped s \<Longrightarrow>
    (\<And>p. p \<in> set pages \<Longrightarrow> page_of p = p) \<Longrightarrow>
    load_inv mp tables root mapped' s' \<and> mem_keeps mp root {} s s' \<and> set mapped' = set mapped \<union> set pages"
proof (induction pages arbitrary: mapped s)
  case (Cons page pages)
  show ?case
  proof (cases "page \<in> set mapped")
    case False
    with Cons.prems(1) obtain s1 where s1: "map_user_page mp root page s = (Inr (), s1)"
      "map_segment mp root (page # mapped) pages s1 = (Inr mapped', s')"
      by (auto simp: ebind_def panic_as_def split: if_splits prod.splits sum.splits)
    have "page_of page = page" using Cons.prems(3) by simp
    note k = map_user_page_load [OF mp Cons.prems(2) this s1(1)]
    from Cons.IH [OF s1(2) k(1)] Cons.prems(3) show ?thesis
      using mem_keeps_trans [OF k(2), of "{}" s'] by auto
  qed (use Cons in auto)
qed simp

section \<open>Loading the segments\<close>

lemma load_segment_load:
  assumes mp: "page_mapper mp tables" and l: "load_inv mp tables root mapped s" and sg: "segment_ok bs sg"
    and r: "load_segment mp root bs mapped sg s = (Inr mapped', s')"
  shows "load_inv mp tables root mapped' s'" "mem_keeps mp root {a. covers sg a} s s'"
    and "covers sg a \<Longrightarrow> user_byte mp (snd s') root True a \<and> load_byte mp (snd s') root a = segment_bytes bs sg ! unat (a - p_vaddr sg)"
proof -
  let ?bs = "segment_bytes bs sg" and ?v = "p_vaddr sg"
  have n: "length ?bs = unat (p_memsz sg)" "unat ?v + length ?bs \<le> 2 ^ 47"
    using length_segment_bytes [OF sg] sg by (simp_all add: segment_ok_def)
  from r obtain a1 m1 where m: "map_segment mp root mapped (segment_pages sg) s = (Inr mapped', (a1, m1))"
    and s': "s' = (a1, store_bytes mp root ?v ?bs m1)"
    by (auto simp: load_segment_def segment_pages_def ebind_def fill_segment_eq [OF sg] split: prod.splits sum.splits)
  have k: "load_inv mp tables root mapped' (a1, m1)" "mem_keeps mp root {} s (a1, m1)" "set mapped' = set mapped \<union> set (segment_pages sg)"
    using map_segment_load [OF mp m l segment_pages_aligned] by auto
  from k(1) obtain held F where u: "user_space mp tables (a1, m1) held root F" unfolding load_inv_def by blast
  have cov: "covers sg b \<longleftrightarrow> (\<exists>i < length ?bs. b = ?v + of_nat i)" for b
  proof -
    have "b = ?v + of_nat (unat (b - ?v))" by simp
    moreover have "covers sg b \<Longrightarrow> unat (b - ?v) < length ?bs"
      using word_le_nat_alt [of ?v b] by (auto simp: covers_def unat_sub [of ?v b] n(1))
    moreover have "covers sg (?v + of_nat i)" if "i < length ?bs" for i
      using that n unat_add_small [of ?v i] by (simp add: covers_def word_le_nat_alt)
    ultimately show ?thesis by blast
  qed
  have ub: "user_byte mp m1 root True b" if "covers sg b" for b
  proof -
    have "page_of b \<in> set mapped'" using covers_page [OF sg that] k(3) by simp
    then obtain f where "translate mp m1 root (page_of b) = Some (f, USER_RW)" using k(1) unfolding load_inv_def by auto
    moreover have "b < USER_SPACE_END" using that n(2) by (simp add: covers_def n(1) word_less_nat_alt)
    ultimately show ?thesis by (simp add: user_byte_def page_allows_def USER_RW_def contains_flag_def)
  qed
  have sane: "sane_space mp m1 root" using user_space_sane [OF mp u] by simp
  moreover have "pages_inj mp m1 root" using u by (simp add: user_space_def)
  ultimately have w: "writable_at mp m1 root ?v (length ?bs)"
    using ub cov by (auto simp: writable_at_def)
  have sk: "same_kernel mp root m1 (snd s')"
    using store_bytes_ok [OF sane] w by (simp add: s' writable_at_def)
  have t: "translate mp (snd s') root = translate mp m1 root" by (rule sane_translate [OF sane sk])
  have "user_space mp tables s' held root F" using user_space_write [OF mp u sk] by (simp add: s')
  then show "load_inv mp tables root mapped' s'" using k(1) t unfolding load_inv_def by auto
  have "mem_keeps mp root {a. covers sg a} (a1, m1) s'"
    using load_store_outside [OF w] cov by (auto simp: mem_keeps_def user_byte_cong [OF t]) (auto simp: s')
  from mem_keeps_trans [OF k(2) this] show "mem_keeps mp root {a. covers sg a} s s'" by simp
  show "user_byte mp (snd s') root True a \<and> load_byte mp (snd s') root a = ?bs ! unat (a - ?v)" if c: "covers sg a"
  proof -
    from c cov obtain i where i: "i < length ?bs" "a = ?v + of_nat i" by blast
    have "unat (a - ?v) = i" using i n by (simp add: unat_of_nat)
    then show ?thesis using load_store_inside [OF w _ i(1)] n(2) ub [OF c] i(2) by (simp add: user_byte_cong [OF t]) (simp add: s')
  qed
qed

text \<open>The segments of the program headers from number \<open>i\<close>, and the byte of the image at an address: the last segment decides.\<close>

fun segments :: "bytes \<Rightarrow> elf_header \<Rightarrow> nat \<Rightarrow> nat \<Rightarrow> segment list" where
  "segments bs h i 0 = []"
| "segments bs h i (Suc n) =
     (case parse_segment bs (phoff h + i * phentsize h) of Inr (Some sg) \<Rightarrow> [sg] | _ \<Rightarrow> []) @ segments bs h (i + 1) n"

fun image_byte :: "bytes \<Rightarrow> segment list \<Rightarrow> u64 \<Rightarrow> u8 option" where
  "image_byte bs [] a = None"
| "image_byte bs (sg # sgs) a =
     (case image_byte bs sgs a of
        Some b \<Rightarrow> Some b
      | None \<Rightarrow> if covers sg a then Some (segment_bytes bs sg ! unat (a - p_vaddr sg)) else None)"

lemma load_loop_load:
  assumes mp: "page_mapper mp tables"
  shows "load_loop mp root bs h i n mapped s = (Inr (), s') \<Longrightarrow> load_inv mp tables root mapped s \<Longrightarrow>
    load_inv mp tables root [] s' \<and> mem_keeps mp root {a. image_byte bs (segments bs h i n) a \<noteq> None} s s' \<and>
    (\<forall>a b. image_byte bs (segments bs h i n) a = Some b \<longrightarrow> user_byte mp (snd s') root True a \<and> load_byte mp (snd s') root a = b)"
proof (induction n arbitrary: i mapped s)
  case 0
  then show ?case by (auto simp: load_inv_def)
next
  case (Suc n)
  let ?ph = "parse_segment bs (phoff h + i * phentsize h)" and ?rest = "segments bs h (i + 1) n"
  from Suc.prems(1) consider "?ph = Inr None" "load_loop mp root bs h (i + 1) n mapped s = (Inr (), s')"
    | sg mapped1 s1 where "?ph = Inr (Some sg)" "load_segment mp root bs mapped sg s = (Inr mapped1, s1)"
        "load_loop mp root bs h (i + 1) n mapped1 s1 = (Inr (), s')"
    by (auto simp: ebind_def split: sum.splits option.splits prod.splits)
  then show ?case
  proof cases
    case 1
    from Suc.IH [OF 1(2) Suc.prems(2)] 1(1) show ?thesis by simp
  next
    case 2
    have sg: "segment_ok bs sg" by (rule parse_segment_ok [OF 2(1)])
    note ls = load_segment_load [OF mp Suc.prems(2) sg 2(2)]
    note ih = Suc.IH [OF 2(3) ls(1)]
    have seg: "segments bs h i (Suc n) = sg # ?rest" using 2(1) by simp
    have "{a. image_byte bs (sg # ?rest) a \<noteq> None} = {a. covers sg a} \<union> {a. image_byte bs ?rest a \<noteq> None}"
      by (auto split: option.splits if_splits)
    then have "mem_keeps mp root {a. image_byte bs (sg # ?rest) a \<noteq> None} s s'"
      using mem_keeps_trans [OF ls(2)] ih by simp
    moreover have "user_byte mp (snd s') root True a \<and> load_byte mp (snd s') root a = b"
      if "image_byte bs (sg # ?rest) a = Some b" for a b
    proof (cases "image_byte bs ?rest a")
      case None
      with that have c: "covers sg a" "b = segment_bytes bs sg ! unat (a - p_vaddr sg)" by (auto split: if_splits)
      have "user_byte mp (snd s1) root False a" using ls(3) [OF c(1)] by (auto simp: user_byte_def page_allows_def split: option.splits)
      with ih None ls(3) [OF c(1)] c(2) show ?thesis unfolding mem_keeps_def by simp
    qed (use that ih in auto)
    ultimately show ?thesis using ih unfolding seg by blast
  qed
qed

section \<open>Properties\<close>

text \<open>
  C20: Loading a program puts its image in memory. When \<open>load\<close> returns, it returns the entry point of the
  header; the address space is still well formed; every byte of every \<open>PT_LOAD\<close> segment is on a page the
  process may read and write and holds the byte of the file, or zero beyond \<open>p_filesz\<close> (where segments
  overlap, the later one decides); and what the process could read before and no segment covers is unchanged.
\<close>

theorem load_builds_image:
  assumes "page_mapper mp tables" "user_space mp tables s held root F" "elf_load mp root bs s = (Inr en, s')"
  shows "\<exists>h held' F'. parse_header bs = Inr h \<and> en = entry h \<and> user_space mp tables s' held' root F' \<and>
    (\<forall>a. case image_byte bs (segments bs h 0 (phnum h)) a of
       Some b \<Rightarrow> user_byte mp (snd s') root True a \<and> load_byte mp (snd s') root a = b
     | None \<Rightarrow> user_byte mp (snd s) root False a \<longrightarrow> load_byte mp (snd s') root a = load_byte mp (snd s) root a)"
proof -
  from assms(3) obtain h where h: "parse_header bs = Inr h" "en = entry h" "load_loop mp root bs h 0 (phnum h) [] s = (Inr (), s')"
    by (auto simp: elf_load_def ebind_def ret_def split: sum.splits prod.splits)
  have "load_inv mp tables root [] s" using assms(2) by (auto simp: load_inv_def)
  from load_loop_load [OF assms(1) h(3) this] h(1,2) show ?thesis
    unfolding load_inv_def mem_keeps_def by (auto split: option.splits)
qed

definition demo_elf :: bytes where
  "demo_elf = [0x7F, 0x45, 0x4C, 0x46, 2] @ replicate 11 0 @ [2, 0, 0x3E, 0] @ replicate 4 0 @
     le_bytes 8 (0x7F8000000100 :: u64) @ le_bytes 8 (64 :: u64) @ replicate 14 0 @ [56, 0, 1, 0] @ replicate 6 0 @
     [1, 0, 0, 0, 7, 0, 0, 0] @ le_bytes 8 (120 :: u64) @ le_bytes 8 (0x7F8000000100 :: u64) @ le_bytes 8 (0 :: u64) @
     le_bytes 8 (3 :: u64) @ le_bytes 8 (5 :: u64) @ le_bytes 8 (4096 :: u64) @ [11, 22, 33]"

lemma demo_fields:
  "length demo_elf = 123" "slice 0 4 demo_elf = [0x7F, 0x45, 0x4C, 0x46]" "demo_elf ! 4 = 2"
  "read_u16 demo_elf 0x10 = Inr 2" "read_u16 demo_elf 0x12 = Inr 0x3E" "read_u64 demo_elf 0x18 = Inr 0x7F8000000100"
  "read_u64 demo_elf 0x20 = Inr 64" "read_u16 demo_elf 0x36 = Inr 56" "read_u16 demo_elf 0x38 = Inr 1"
  "read_u32 demo_elf 64 = Inr 1" "read_u64 demo_elf 72 = Inr 120" "read_u64 demo_elf 80 = Inr 0x7F8000000100"
  "read_u64 demo_elf 96 = Inr 3" "read_u64 demo_elf 104 = Inr 5" "slice 120 3 demo_elf = [11, 22, 33]"
  by code_simp+

lemma demo_header: "parse_header demo_elf = Inr \<lparr>entry = 0x7F8000000100, phoff = 64, phentsize = 56, phnum = 1\<rparr>"
  by (simp add: parse_header_def demo_fields ET_EXEC_def EM_X86_64_def PH_ENTRY_SIZE_def res_simps)

lemma demo_segment:
  "parse_segment demo_elf 64 = Inr (Some \<lparr>p_offset = 120, p_vaddr = 0x7F8000000100, p_filesz = 3, p_memsz = 5\<rparr>)"
  by (simp add: parse_segment_def demo_fields PT_LOAD_def res_simps)

lemma demo_page:
  "\<exists>s'. map_user_page flat_mapper 0x9000 0x7F8000000000 (frame_init demo_map, \<lambda>_. 0) = (Inr (), s')"
  by (simp add: map_user_page_def allocate_frame_def frame_init_def [of demo_map] demo_usable [unfolded frame_init_def] flat_mapper_def
    flat_covers_def flat_entry_def page_of_def flat_base_def USER_RW_def Let_def)

lemma demo_unmapped: "flat_entry (\<lambda>_. 0) root p = None"
  by (simp add: flat_entry_def)

lemma demo_load: "\<exists>s'. elf_load flat_mapper 0x9000 demo_elf (frame_init demo_map, \<lambda>_. 0) = (Inr 0x7F8000000100, s')"
proof -
  obtain s' where "map_user_page flat_mapper 0x9000 0x7F8000000000 (frame_init demo_map, \<lambda>_. 0) = (Inr (), s')"
    using demo_page by blast
  moreover have "translate_page flat_mapper (\<lambda>_. 0) 0x9000 0x7F8000000000 = None" by (simp add: flat_mapper_def demo_unmapped)
  ultimately show ?thesis
    by (simp add: elf_load_def demo_header demo_segment load_segment_def pages_inclusive_def page_of_def ebind_def ret_def panic_as_def)
qed

lemma demo_space: "user_space flat_mapper flat_tables (frame_init demo_map, \<lambda>_. 0) {} 0x9000 {}"
proof -
  have "frames_inv (frame_init demo_map, \<lambda>_. 0) {}" using demo_map_ok by (rule frames_inv_init)
  moreover have "page_of 0x9000 = 0x9000" by (simp add: page_of_def)
  ultimately show ?thesis
    by (simp add: user_space_def pages_inj_def flat_tables_def reserved_def demo_usable) (simp add: flat_mapper_def demo_unmapped)
qed

theorem load_builds_image_witness:
  "\<exists>s'. elf_load flat_mapper 0x9000 demo_elf (frame_init demo_map, \<lambda>_. 0) = (Inr 0x7F8000000100, s') \<and>
     load_bytes flat_mapper (snd s') 0x9000 0x7F8000000100 5 = [11, 22, 33, 0, 0]"
proof -
  obtain s' where s': "elf_load flat_mapper 0x9000 demo_elf (frame_init demo_map, \<lambda>_. 0) = (Inr 0x7F8000000100, s')"
    using demo_load by blast
  let ?sg = "\<lparr>p_offset = 120, p_vaddr = 0x7F8000000100, p_filesz = 3, p_memsz = 5\<rparr> :: segment"
  have "load_byte flat_mapper (snd s') 0x9000 a = b" if "image_byte demo_elf [?sg] a = Some b" for a b
    using load_builds_image [OF flat_page_mapper demo_space s'] that
    by (auto simp: demo_header demo_segment simp del: image_byte.simps dest!: spec [of _ a])
  from this [of "0x7F8000000100" 11] this [of "0x7F8000000101" 22] this [of "0x7F8000000102" 33]
    this [of "0x7F8000000103" 0] this [of "0x7F8000000104" 0] s'
  show ?thesis by (simp add: covers_def segment_bytes_def demo_fields load_bytes_def upt_rec)
qed

end
