(* ===== verification/User_Stack.thy ===== *)
theory User_Stack
  imports Elf
begin

text \<open>
  The initial stack of a program and the vectors of strings it is built from,
  \<open>src/arch/x86_64/syscall.rs\<close>: \<open>read_user_str_array\<close> copies \<open>argv\<close> and \<open>envp\<close> out of the old image,
  \<open>build_user_stack\<close> lays them out for the new one as the System V ABI prescribes. \<open>root\<close> is the active
  address space.
\<close>

section \<open>Reading a vector of strings\<close>

definition MAX_STR_ARRAY :: nat where
  "MAX_STR_ARRAY = 128"

text \<open>\<open>n\<close> turns are left; the slots before this one were in the user half, so \<open>array_ptr + i * 8\<close> does not wrap.\<close>

fun str_array_loop :: "mapper \<Rightarrow> pmem \<Rightarrow> u64 \<Rightarrow> u64 \<Rightarrow> nat \<Rightarrow> bytes list \<Rightarrow> i64 + bytes list" where
  "str_array_loop mp m root slot 0 out = Inl E2BIG"
| "str_array_loop mp m root slot (Suc n) out =
     rbind (with_user_bytes mp m root slot 8) (\<lambda>b.
       if from_le b = (0 :: u64) then Inr out
       else rbind (read_user_cstr mp m root (from_le b)) (\<lambda>s. str_array_loop mp m root (slot + 8) n (out @ [s])))"

definition read_user_str_array :: "mapper \<Rightarrow> pmem \<Rightarrow> u64 \<Rightarrow> u64 \<Rightarrow> i64 + bytes list" where
  "read_user_str_array mp m root array_ptr =
     (if array_ptr = 0 then Inr [] else str_array_loop mp m root array_ptr MAX_STR_ARRAY [])"

section \<open>Building the stack\<close>

text \<open>The stack pointer and memory; the only error is that the page is full.\<close>

type_synonym 'a stack_op = "(u64 \<times> pmem, unit, 'a) eff"

definition put_str :: "mapper \<Rightarrow> u64 \<Rightarrow> u64 \<Rightarrow> bytes \<Rightarrow> u64 stack_op" where
  "put_str mp root floor s st =
     (case st of (sp, m) \<Rightarrow>
        if unat (sp - floor) < length s + 1 then (Inl (), (sp, m))
        else
          (let sp = sp - of_nat (length s + 1);
               m = store_bytes mp root sp s m;
               m = store_byte mp root (sp + of_nat (length s)) 0 m
           in (Inr sp, (sp, m))))"

definition push_word :: "mapper \<Rightarrow> u64 \<Rightarrow> u64 \<Rightarrow> u64 \<Rightarrow> unit stack_op" where
  "push_word mp root floor v st =
     (case st of (sp, m) \<Rightarrow>
        if sp - floor < 8 then (Inl (), (sp, m))
        else (Inr (), (sp - 8, store_bytes mp root (sp - 8) (le_bytes 8 v) m)))"

fun put_strs :: "mapper \<Rightarrow> u64 \<Rightarrow> u64 \<Rightarrow> bytes list \<Rightarrow> u64 list stack_op" where
  "put_strs mp root floor [] st = (Inr [], st)"
| "put_strs mp root floor (s # ss) st =
     ebind (put_str mp root floor s) (\<lambda>p. ebind (put_strs mp root floor ss) (\<lambda>ps. ret (p # ps))) st"

fun push_words :: "mapper \<Rightarrow> u64 \<Rightarrow> u64 \<Rightarrow> u64 list \<Rightarrow> unit stack_op" where
  "push_words mp root floor [] st = (Inr (), st)"
| "push_words mp root floor (v # vs) st = ebind (push_word mp root floor v) (\<lambda>_. push_words mp root floor vs) st"

definition align_down :: "unit stack_op" where
  "align_down st = (Inr (), (fst st AND NOT 0xF, snd st))"

text \<open>The vectors, downwards; the last word pushed is \<open>argc\<close>.\<close>

definition push_vectors :: "mapper \<Rightarrow> u64 \<Rightarrow> u64 \<Rightarrow> u64 list \<Rightarrow> u64 list \<Rightarrow> unit stack_op" where
  "push_vectors mp root floor arg_ptrs env_ptrs =
     (let slots = 1 + length arg_ptrs + 1 + length env_ptrs + 1 + 2
      in ebind (if slots mod 2 = 1 then push_word mp root floor 0 else ret ()) (\<lambda>_.
         ebind (push_words mp root floor [0, 0, 0]) (\<lambda>_.
         ebind (push_words mp root floor (rev env_ptrs)) (\<lambda>_.
         ebind (push_word mp root floor 0) (\<lambda>_.
         ebind (push_words mp root floor (rev arg_ptrs)) (\<lambda>_.
         push_word mp root floor (of_nat (length arg_ptrs))))))))"

definition build_user_stack :: "mapper \<Rightarrow> u64 \<Rightarrow> u64 \<Rightarrow> u64 \<Rightarrow> bytes list \<Rightarrow> bytes list \<Rightarrow> (pmem, unit, u64) eff" where
  "build_user_stack mp root top_addr floor argv envp m =
     (case ebind (put_strs mp root floor argv) (\<lambda>arg_ptrs.
           ebind (put_strs mp root floor envp) (\<lambda>env_ptrs.
           ebind align_down (\<lambda>_. push_vectors mp root floor arg_ptrs env_ptrs))) (top_addr, m) of
        (Inl _, (sp, m)) \<Rightarrow> (Inl (), m)
      | (Inr _, (sp, m)) \<Rightarrow> (Inr sp, m))"

section \<open>The stack as a list of bytes\<close>

text \<open>\<open>bs\<close> are the bytes from the stack pointer to the top of the page at \<open>floor\<close>.\<close>

definition stack_ptr :: "u64 \<Rightarrow> nat \<Rightarrow> u64" where
  "stack_ptr floor n = floor + of_nat (4096 - n)"

definition stack_is :: "mapper \<Rightarrow> u64 \<Rightarrow> u64 \<Rightarrow> pmem \<Rightarrow> bytes \<Rightarrow> bool" where
  "stack_is mp root floor m bs \<longleftrightarrow> writable_at mp m root floor 4096 \<and> length bs \<le> 4096 \<and>
     load_bytes mp m root (stack_ptr floor (length bs)) (length bs) = bs"

lemma writable_byte: "writable_at mp m root va n \<Longrightarrow> i < n \<Longrightarrow> user_byte mp m root True (va + of_nat i)"
  by (simp add: writable_at_def)

lemma writable_sub:
  assumes "writable_at mp m root floor 4096" "i + n \<le> 4096"
  shows "writable_at mp m root (floor + of_nat i) n"
proof -
  have "user_byte mp m root True (floor + of_nat i + of_nat j)" if "j < n" for j
  proof -
    have "user_byte mp m root True (floor + of_nat (i + j))" by (rule writable_byte [OF assms(1)]) (use assms(2) that in simp)
    then show ?thesis by (simp add: ac_simps)
  qed
  with assms(1) show ?thesis by (simp add: writable_at_def)
qed

lemma writable_store:
  assumes "writable_at mp m root floor 4096" "writable_at mp m root va (length xs)"
  shows "writable_at mp (store_bytes mp root va xs m) root floor 4096"
proof -
  have s: "sane_space mp m root" using assms(1) by (simp add: writable_at_def)
  have "same_kernel mp root m (store_bytes mp root va xs m)"
    using assms(2) by (intro store_bytes_ok [OF s]) (simp add: writable_at_def)
  note st = sane_space_step [OF s this]
  with assms(1) show ?thesis by (simp add: writable_at_def pages_inj_cong [OF st(2)] user_byte_cong [OF st(2)])
qed

lemma of_nat_u64_eq: "i < 2 ^ 64 \<Longrightarrow> j < 2 ^ 64 \<Longrightarrow> (of_nat i :: u64) = of_nat j \<longleftrightarrow> i = j"
  by (simp add: word_unat_eq_iff unat_of_nat)

text \<open>Writing below the stack pointer.\<close>

lemma stack_store:
  assumes "stack_is mp root floor m bs" "length xs + length bs \<le> 4096"
  shows "stack_is mp root floor (store_bytes mp root (stack_ptr floor (length xs + length bs)) xs m) (xs @ bs)"
proof -
  let ?i = "4096 - (length xs + length bs)" and ?va = "stack_ptr floor (length xs + length bs)"
  let ?m = "store_bytes mp root ?va xs m"
  have w: "writable_at mp m root floor 4096" and b: "load_bytes mp m root (stack_ptr floor (length bs)) (length bs) = bs"
    using assms(1) by (auto simp: stack_is_def)
  have wv: "writable_at mp m root ?va (length xs)" unfolding stack_ptr_def by (rule writable_sub [OF w]) (use assms(2) in simp)
  have new: "load_bytes mp ?m root ?va (length xs) = xs"
    using load_store_inside [OF wv] assms(2) by (intro nth_equalityI) (simp_all add: load_bytes_def)
  have keep: "load_byte mp ?m root (?va + of_nat (length xs) + of_nat j) = load_byte mp m root (?va + of_nat (length xs) + of_nat j)"
    if "j < length bs" for j
  proof (rule load_store_outside [OF wv])
    show "\<forall>k < length xs. ?va + of_nat (length xs) + of_nat j \<noteq> ?va + of_nat k"
      using of_nat_u64_eq [of "length xs + j"] that assms(2) by (auto simp: add.assoc)
    have "user_byte mp m root True (floor + of_nat (?i + length xs + j))"
      by (rule writable_byte [OF w]) (use that assms(2) in simp)
    then show "user_byte mp m root False (?va + of_nat (length xs) + of_nat j)"
      by (auto simp: stack_ptr_def user_byte_def page_allows_def ac_simps split: option.splits)
  qed
  have p: "?va + of_nat (length xs) = stack_ptr floor (length bs)"
  proof -
    have "4096 - length bs = ?i + length xs" using assms(2) by simp
    then show ?thesis by (simp add: stack_ptr_def ac_simps)
  qed
  have "load_bytes mp ?m root (stack_ptr floor (length bs)) (length bs) = bs"
    using keep [unfolded p] by (subst (3) b [symmetric]) (simp add: load_bytes_def)
  then have "load_bytes mp ?m root ?va (length xs + length bs) = xs @ bs" using new by (simp add: load_bytes_append p)
  with writable_store [OF w wv] assms(2) show ?thesis by (simp add: stack_is_def)
qed

lemma stack_ptr_room:
  assumes "n \<le> 4096"
  shows "unat (stack_ptr floor n - floor) = 4096 - n"
  by (simp add: stack_ptr_def unat_of_nat)

lemma stack_ptr_sub: "n + k \<le> 4096 \<Longrightarrow> stack_ptr floor n - of_nat k = stack_ptr floor (k + n)"
  by (simp add: stack_ptr_def algebra_simps of_nat_diff)

lemma put_str_stack:
  assumes "stack_is mp root floor m bs"
  shows "put_str mp root floor s (stack_ptr floor (length bs), m) =
      (if 4096 < length s + 1 + length bs then (Inl (), (stack_ptr floor (length bs), m))
       else (Inr (stack_ptr floor (length s + 1 + length bs)),
         (stack_ptr floor (length s + 1 + length bs), store_bytes mp root (stack_ptr floor (length s + 1 + length bs)) (s @ [0]) m)))"
    (is "_ = ?r")
proof -
  have l: "length bs \<le> 4096" using assms by (simp add: stack_is_def)
  show ?thesis
  proof (cases "4096 < length s + 1 + length bs")
    case False
    then have "stack_ptr floor (length bs) - of_nat (length s + 1) = stack_ptr floor (length s + 1 + length bs)"
      by (intro stack_ptr_sub) simp
    with False show ?thesis by (simp add: put_str_def stack_ptr_room [OF l] Let_def store_bytes_append)
  next
    case True
    then have "4096 - length bs < length s + 1" using l by linarith
    with True show ?thesis by (simp add: put_str_def stack_ptr_room [OF l])
  qed
qed

lemma push_word_stack:
  assumes "stack_is mp root floor m bs"
  shows "push_word mp root floor v (stack_ptr floor (length bs), m) =
      (if 4096 < 8 + length bs then (Inl (), (stack_ptr floor (length bs), m))
       else (Inr (), (stack_ptr floor (8 + length bs), store_bytes mp root (stack_ptr floor (8 + length bs)) (le_bytes 8 v) m)))"
proof -
  have l: "length bs \<le> 4096" using assms by (simp add: stack_is_def)
  have "stack_ptr floor (length bs) - floor < 8 \<longleftrightarrow> 4096 < 8 + length bs"
    using l by (auto simp: word_less_nat_alt stack_ptr_room)
  moreover have "stack_ptr floor (length bs) - 8 = stack_ptr floor (8 + length bs)" if "8 + length bs \<le> 4096"
    using stack_ptr_sub [of "length bs" 8 floor] that by simp
  ultimately show ?thesis by (simp add: push_word_def)
qed

text \<open>On a stack that holds \<open>bs\<close>, the operation adds \<open>xs\<close> and returns \<open>x\<close>; it fails if there is no room.\<close>

definition pushes :: "mapper \<Rightarrow> u64 \<Rightarrow> u64 \<Rightarrow> 'a stack_op \<Rightarrow> 'a \<Rightarrow> bytes \<Rightarrow> bytes \<Rightarrow> bool" where
  "pushes mp root floor f x xs bs \<longleftrightarrow>
     (\<forall>m. stack_is mp root floor m bs \<longrightarrow>
        (if length xs + length bs \<le> 4096
         then \<exists>m'. f (stack_ptr floor (length bs), m) = (Inr x, (stack_ptr floor (length xs + length bs), m')) \<and>
           stack_is mp root floor m' (xs @ bs)
         else \<exists>st. f (stack_ptr floor (length bs), m) = (Inl (), st)))"

lemma pushes_ret: "pushes mp root floor (ret x) x [] bs"
  by (auto simp: pushes_def ret_def stack_is_def)

lemma pushes_bind:
  assumes "pushes mp root floor f x xs bs" "pushes mp root floor (g x) y ys (xs @ bs)"
  shows "pushes mp root floor (ebind f g) y (ys @ xs) bs"
  unfolding pushes_def
proof (intro allI impI)
  fix m assume m: "stack_is mp root floor m bs"
  let ?r = "ebind f g (stack_ptr floor (length bs), m)"
  show "if length (ys @ xs) + length bs \<le> 4096
    then \<exists>m'. ?r = (Inr y, (stack_ptr floor (length (ys @ xs) + length bs), m')) \<and> stack_is mp root floor m' ((ys @ xs) @ bs)
    else \<exists>st. ?r = (Inl (), st)"
  proof (cases "length xs + length bs \<le> 4096")
    case True
    with assms(1) m obtain m1 where 1: "f (stack_ptr floor (length bs), m) = (Inr x, (stack_ptr floor (length xs + length bs), m1))"
      "stack_is mp root floor m1 (xs @ bs)" unfolding pushes_def by auto
    with assms(2) show ?thesis unfolding pushes_def by (fastforce simp: ebind_def ac_simps)
  next
    case False
    with assms(1) m obtain st where "f (stack_ptr floor (length bs), m) = (Inl (), st)" unfolding pushes_def by auto
    with False show ?thesis by (simp add: ebind_def)
  qed
qed

lemma pushes_str: "pushes mp root floor (put_str mp root floor s) (stack_ptr floor (length s + 1 + length bs)) (s @ [0]) bs"
  unfolding pushes_def using put_str_stack stack_store [of mp root floor _ bs "s @ [0]"] by auto

lemma pushes_word: "pushes mp root floor (push_word mp root floor v) () (le_bytes 8 v) bs"
  unfolding pushes_def using push_word_stack stack_store [of mp root floor _ bs "le_bytes 8 v"] by auto

definition words_bytes :: "u64 list \<Rightarrow> bytes" where
  "words_bytes ws = concat (map (le_bytes 8) ws)"

lemma words_bytes_simps [simp]:
  "words_bytes [] = []" "words_bytes (w # ws) = le_bytes 8 w @ words_bytes ws" "words_bytes (vs @ ws) = words_bytes vs @ words_bytes ws"
  by (simp_all add: words_bytes_def)

lemma length_words_bytes [simp]: "length (words_bytes ws) = 8 * length ws"
  by (induction ws) simp_all

lemma pushes_words: "pushes mp root floor (push_words mp root floor vs) () (words_bytes (rev vs)) bs"
proof (induction vs arbitrary: bs)
  case Nil
  then show ?case by (auto simp: pushes_def stack_is_def)
next
  case (Cons v vs)
  have e: "push_words mp root floor (v # vs) = ebind (push_word mp root floor v) (\<lambda>_. push_words mp root floor vs)"
    by (simp add: fun_eq_iff)
  show ?case unfolding e using pushes_bind [OF pushes_word Cons.IH] by simp
qed

text \<open>The strings lie on the stack in reverse order, below the \<open>n\<close> bytes before them.\<close>

definition strs_bytes :: "bytes list \<Rightarrow> bytes" where
  "strs_bytes ss = concat (map (\<lambda>s. s @ [0]) (rev ss))"

fun str_ptrs :: "u64 \<Rightarrow> nat \<Rightarrow> bytes list \<Rightarrow> u64 list" where
  "str_ptrs floor n [] = []"
| "str_ptrs floor n (s # ss) = stack_ptr floor (length s + 1 + n) # str_ptrs floor (length s + 1 + n) ss"

lemma strs_bytes_simps [simp]: "strs_bytes [] = []" "strs_bytes (s # ss) = strs_bytes ss @ s @ [0]" "strs_bytes (ss @ ts) = strs_bytes ts @ strs_bytes ss"
  by (simp_all add: strs_bytes_def)

lemma length_str_ptrs [simp]: "length (str_ptrs floor n ss) = length ss"
  by (induction ss arbitrary: n) simp_all

lemma pushes_strs: "pushes mp root floor (put_strs mp root floor ss) (str_ptrs floor (length bs) ss) (strs_bytes ss) bs"
proof (induction ss arbitrary: bs)
  case Nil
  then show ?case by (auto simp: pushes_def stack_is_def)
next
  case (Cons s ss)
  have e: "put_strs mp root floor (s # ss) =
      ebind (put_str mp root floor s) (\<lambda>p. ebind (put_strs mp root floor ss) (\<lambda>ps. ret (p # ps)))"
    by (simp add: fun_eq_iff)
  show ?case unfolding e
    using pushes_bind [OF pushes_str pushes_bind [OF Cons.IH pushes_ret]] by simp
qed

lemma length_strs_bytes [simp]: "length (strs_bytes ss) = sum_list (map (\<lambda>s. length s + 1) ss)"
  by (induction ss) simp_all

section \<open>Properties\<close>

definition string_at :: "mapper \<Rightarrow> pmem \<Rightarrow> u64 \<Rightarrow> u64 \<Rightarrow> bytes \<Rightarrow> bool" where
  "string_at mp m root a s \<longleftrightarrow> load_bytes mp m root a (length s + 1) = s @ [0]"

lemma stack_slice:
  assumes "stack_is mp root floor m (pre @ xs @ post)"
  shows "load_bytes mp m root (stack_ptr floor (length xs + length post)) (length xs) = xs"
proof -
  have l: "length pre + (length xs + length post) \<le> 4096" using assms by (simp add: stack_is_def)
  then have "stack_ptr floor (length xs + length post) = stack_ptr floor (length pre + (length xs + length post)) + of_nat (length pre)"
    using stack_ptr_sub [of "length xs + length post" "length pre" floor] by (metis add.commute diff_add_cancel)
  with assms show ?thesis by (simp add: stack_is_def load_bytes_append)
qed

lemma strs_on_stack:
  "stack_is mp root floor m (pre @ strs_bytes ss @ post) \<Longrightarrow> list_all2 (string_at mp m root) (str_ptrs floor (length post) ss) ss"
proof (induction ss arbitrary: post)
  case (Cons s ss)
  have "stack_is mp root floor m (pre @ strs_bytes ss @ ((s @ [0]) @ post))" using Cons.prems by simp
  from Cons.IH [OF this] stack_slice [of mp root floor m "pre @ strs_bytes ss" "s @ [0]" post] Cons.prems
  show ?case by (simp add: string_at_def)
qed simp

lemma str_ptrs_range:
  "p \<in> set (str_ptrs floor n ss) \<Longrightarrow> n + length (strs_bytes ss) \<le> 4096 \<Longrightarrow> \<exists>k. 0 < k \<and> k \<le> 4096 \<and> p = stack_ptr floor k"
proof (induction ss arbitrary: n)
  case (Cons s ss)
  show ?case
  proof (cases "p = stack_ptr floor (length s + 1 + n)")
    case True
    with Cons.prems(2) show ?thesis by (intro exI [of _ "length s + 1 + n"]) simp
  next
    case False
    with Cons.prems Cons.IH [of "length s + 1 + n"] show ?thesis by simp
  qed
qed simp

lemma nibble_mask: "(0xF :: u64) = mask 4"
  by (simp add: mask_eq_exp_minus_1)

lemma unat_align: "unat (a AND NOT 0xF :: u64) = unat a div 16 * 16"
proof -
  have "a AND NOT 0xF = push_bit 4 (drop_bit 4 a)"
    unfolding nibble_mask by (rule bit_word_eqI) (auto simp: bit_simps)
  moreover have "unat (drop_bit 4 a) = unat a div 16" by (simp add: drop_bit_eq_div unat_div)
  moreover have "unat a div 16 * 16 < 18446744073709551616"
    using unat_u64 [of a] div_times_less_eq_dividend [of "unat a" 16] by linarith
  ultimately show ?thesis by (simp add: push_bit_eq_mult unat_word_ariths mult.commute)
qed

text \<open>Aligning the stack pointer adds the bytes that were there.\<close>

definition aligned_len :: "nat \<Rightarrow> nat" where
  "aligned_len n = 4096 - (4096 - n) div 16 * 16"

lemma align_stack:
  assumes "stack_is mp root floor m bs" "16 dvd unat floor" "unat floor + 4096 \<le> 2 ^ 47"
  obtains pad where "align_down (stack_ptr floor (length bs), m) = (Inr (), (stack_ptr floor (length (pad @ bs)), m))"
    "stack_is mp root floor m (pad @ bs)" "length (pad @ bs) = aligned_len (length bs)"
proof -
  let ?n = "length bs" and ?k = "aligned_len (length bs)"
  have l: "?n \<le> ?k" "?k \<le> 4096" "4096 - ?k = (4096 - ?n) div 16 * 16"
    using assms(1) div_times_less_eq_dividend [of "4096 - ?n" 16] by (auto simp: aligned_len_def stack_is_def)
  define pad where "pad = load_bytes mp m root (stack_ptr floor ?k) (?k - ?n)"
  have pl: "length (pad @ bs) = ?k" using l(1) by (simp add: pad_def)
  have "stack_ptr floor ?k + of_nat (?k - ?n) = stack_ptr floor ?n"
    using stack_ptr_sub [of ?n "?k - ?n" floor] l by (simp add: eq_diff_eq [symmetric])
  with assms(1) l have "load_bytes mp m root (stack_ptr floor ?k) (?k - ?n + ?n) = pad @ bs"
    by (simp only: load_bytes_append) (simp add: stack_is_def pad_def)
  then have "stack_is mp root floor m (pad @ bs)" using assms(1) l pl by (simp add: stack_is_def)
  moreover have "stack_ptr floor ?n AND NOT 0xF = stack_ptr floor ?k"
  proof -
    have u: "unat (stack_ptr floor j) = unat floor + (4096 - j)" for j
      unfolding stack_ptr_def by (rule unat_add_small) (use assms(3) in simp)
    have "unat (stack_ptr floor ?n AND NOT 0xF) = (unat floor + (4096 - ?n)) div 16 * 16" by (simp only: unat_align u)
    also have "\<dots> = unat floor + (4096 - ?n) div 16 * 16" using assms(2) by (auto simp: dvd_def algebra_simps)
    also have "\<dots> = unat (stack_ptr floor ?k)" by (simp only: u l(3))
    finally show ?thesis by (simp add: word_unat_eq_iff)
  qed
  ultimately show thesis using that [of pad] pl by (simp add: align_down_def)
qed

lemma stack_ptr_range:
  assumes "unat floor + 4096 \<le> 2 ^ 47" "0 < k" "k \<le> 4096"
  shows "floor \<le> stack_ptr floor k" "stack_ptr floor k < floor + 4096" "unat (stack_ptr floor k) = unat floor + (4096 - k)"
proof -
  show u: "unat (stack_ptr floor k) = unat floor + (4096 - k)"
    unfolding stack_ptr_def by (rule unat_add_small) (use assms(1) in simp)
  have "unat (floor + 4096) = unat floor + 4096" using unat_add_small [of floor 4096] assms(1) by simp
  with u assms(2,3) show "floor \<le> stack_ptr floor k" "stack_ptr floor k < floor + 4096"
    by (simp_all add: word_le_nat_alt word_less_nat_alt)
qed

lemma pointers_in_page:
  assumes "unat floor + 4096 \<le> 2 ^ 47" "0 < n" "n \<le> 4096" "length (strs_bytes argv) + length (strs_bytes envp) \<le> 4096"
    "p \<in> set (stack_ptr floor n # str_ptrs floor 0 argv @ str_ptrs floor (length (strs_bytes argv)) envp)"
  shows "floor \<le> p \<and> p < floor + 4096"
proof -
  have "\<exists>k. 0 < k \<and> k \<le> 4096 \<and> p = stack_ptr floor k"
    using assms(2-5) str_ptrs_range [of p floor 0 argv] str_ptrs_range [of p floor "length (strs_bytes argv)" envp]
    by (auto simp del: length_strs_bytes)
  then show ?thesis using stack_ptr_range [OF assms(1)] by blast
qed

text \<open>When the strings, the vectors and the padding fit into the page.\<close>

definition stack_fits :: "bytes list \<Rightarrow> bytes list \<Rightarrow> bool" where
  "stack_fits argv envp \<longleftrightarrow>
     (let n = sum_list (map (\<lambda>s. length s + 1) (argv @ envp)); slots = length argv + length envp + 5
      in n \<le> 4096 \<and> aligned_len n + 8 * (slots + slots mod 2) \<le> 4096)"

text \<open>The words below the strings: \<open>argc\<close>, the two vectors, the auxiliary vector and the padding.\<close>

definition vector_words :: "u64 list \<Rightarrow> u64 list \<Rightarrow> u64 list" where
  "vector_words aps eps = of_nat (length aps) # aps @ [0] @ eps @ [0, 0, 0]"

definition pad_words :: "nat \<Rightarrow> u64 list" where
  "pad_words slots = (if slots mod 2 = 1 then [0] else [])"

lemma pushes_vectors:
  "pushes mp root floor (push_vectors mp root floor aps eps) ()
     (words_bytes (vector_words aps eps @ pad_words (length aps + length eps + 5))) bs"
proof -
  let ?pad = "pad_words (length aps + length eps + 5)" and ?odd = "(1 + length aps + 1 + length eps + 1 + 2) mod 2 = 1"
  have "?odd \<longleftrightarrow> (length aps + length eps + 5) mod 2 = 1" by presburger
  then have p: "pushes mp root floor (if ?odd then push_word mp root floor 0 else ret ()) () (words_bytes ?pad) bs"
    using pushes_word [of mp root floor 0 bs] pushes_ret [of mp root floor "()" bs] by (simp add: pad_words_def)
  have w: "words_bytes (vector_words aps eps @ ?pad) =
      ((((le_bytes 8 (of_nat (length aps) :: u64) @ words_bytes (rev (rev aps))) @ le_bytes 8 (0 :: u64)) @ words_bytes (rev (rev eps))) @
        words_bytes (rev [0, 0, 0])) @ words_bytes ?pad"
    by (simp add: vector_words_def)
  show ?thesis unfolding w push_vectors_def Let_def
    by (rule pushes_bind [OF p pushes_bind [OF pushes_words pushes_bind [OF pushes_words pushes_bind [OF pushes_word
      pushes_bind [OF pushes_words pushes_word]]]]])
qed

lemma ebind_pair: "ebind f (\<lambda>a. ebind g (\<lambda>b. h a b)) = ebind (ebind f (\<lambda>a. ebind g (\<lambda>b. ret (a, b)))) (\<lambda>(a, b). h a b)"
  by (auto simp: fun_eq_iff ebind_def ret_def split: prod.splits sum.splits)

lemma ebind_run: "f s = (Inr x, s1) \<Longrightarrow> ebind f g s = g x s1"
  by (simp add: ebind_def)

text \<open>The whole stack: vectors, padding, strings.\<close>

lemma build_stack:
  fixes argv envp :: "bytes list"
  assumes "writable_at mp m root floor 4096" "16 dvd unat floor" "unat floor + 4096 \<le> 2 ^ 47"
  defines "aps \<equiv> str_ptrs floor 0 argv" and "eps \<equiv> str_ptrs floor (length (strs_bytes argv)) envp"
  defines "vec \<equiv> words_bytes (vector_words aps eps @ pad_words (length argv + length envp + 5))"
  shows "if stack_fits argv envp
    then \<exists>m' pad. let bs = vec @ pad @ strs_bytes envp @ strs_bytes argv in
      build_user_stack mp root (floor + 4096) floor argv envp m = (Inr (stack_ptr floor (length bs)), m') \<and>
      stack_is mp root floor m' bs \<and> 16 dvd length (pad @ strs_bytes envp @ strs_bytes argv)
    else \<exists>m'. build_user_stack mp root (floor + 4096) floor argv envp m = (Inl (), m')"
proof -
  let ?S = "strs_bytes envp @ strs_bytes argv" and ?slots = "length argv + length envp + 5"
  let ?ab = "ebind (put_strs mp root floor argv) (\<lambda>aps. ebind (put_strs mp root floor envp) (\<lambda>eps. ret (aps, eps)))"
  have m: "stack_is mp root floor m []" using assms(1) by (simp add: stack_is_def load_bytes_def)
  have ab: "pushes mp root floor ?ab (aps, eps) ?S []"
    using pushes_bind [OF pushes_strs [of mp root floor argv "[]"] pushes_bind [OF pushes_strs pushes_ret]] by (simp add: aps_def eps_def)
  have b: "build_user_stack mp root (floor + 4096) floor argv envp m =
      (case ebind ?ab (\<lambda>(aps, eps). ebind align_down (\<lambda>_. push_vectors mp root floor aps eps)) (stack_ptr floor (length ([] :: bytes)), m) of
         (Inl _, (sp, m)) \<Rightarrow> (Inl (), m) | (Inr _, (sp, m)) \<Rightarrow> (Inr sp, m))"
    by (simp add: build_user_stack_def ebind_pair [symmetric] stack_ptr_def)
  have S: "length ?S = sum_list (map (\<lambda>s. length s + 1) (argv @ envp))" by simp
  have lv: "length vec = 8 * (?slots + ?slots mod 2)"
    by (auto simp: vec_def vector_words_def pad_words_def aps_def eps_def)
  show ?thesis
  proof (cases "length ?S \<le> 4096")
    case False
    with ab m obtain st where "?ab (stack_ptr floor (length ([] :: bytes)), m) = (Inl (), st)" unfolding pushes_def by fastforce
    moreover have "\<not> stack_fits argv envp" using False unfolding stack_fits_def Let_def S by simp
    ultimately show ?thesis by (cases st) (simp add: b ebind_def)
  next
    case True
    with ab m obtain m1 where 1: "?ab (stack_ptr floor (length ([] :: bytes)), m) = (Inr (aps, eps), (stack_ptr floor (length ?S), m1))"
      "stack_is mp root floor m1 ?S" unfolding pushes_def by fastforce
    obtain pad where pad: "align_down (stack_ptr floor (length ?S), m1) = (Inr (), (stack_ptr floor (length (pad @ ?S)), m1))"
      "stack_is mp root floor m1 (pad @ ?S)" "length (pad @ ?S) = aligned_len (length ?S)"
      by (rule align_stack [OF 1(2) assms(2,3)])
    have b1: "build_user_stack mp root (floor + 4096) floor argv envp m =
      (case push_vectors mp root floor aps eps (stack_ptr floor (length (pad @ ?S)), m1) of
         (Inl _, (sp, m)) \<Rightarrow> (Inl (), m) | (Inr _, (sp, m)) \<Rightarrow> (Inr sp, m))"
      unfolding b ebind_run [where f = ?ab, OF 1(1)] prod.case ebind_run [where f = align_down, OF pad(1)] ..
    have fits: "stack_fits argv envp \<longleftrightarrow> length vec + length (pad @ ?S) \<le> 4096"
      using True lv unfolding stack_fits_def Let_def pad(3) S by auto
    have al: "16 dvd length (pad @ ?S)" unfolding pad(3) aligned_len_def by (simp add: dvd_diff_nat)
    have "pushes mp root floor (push_vectors mp root floor aps eps) () vec (pad @ ?S)"
      using pushes_vectors [of mp root floor aps eps "pad @ ?S"] by (simp add: vec_def aps_def eps_def)
    note v = this [unfolded pushes_def, rule_format, OF pad(2)]
    show ?thesis
    proof (cases "length vec + length (pad @ ?S) \<le> 4096")
      case f: True
      with v obtain m' where "push_vectors mp root floor aps eps (stack_ptr floor (length (pad @ ?S)), m1) =
          (Inr (), (stack_ptr floor (length (vec @ pad @ ?S)), m'))" "stack_is mp root floor m' (vec @ pad @ ?S)"
        unfolding length_append [of vec] by auto
      with al f show ?thesis unfolding fits b1 Let_def by (auto simp del: length_append)
    next
      case f: False
      with v obtain st where "push_vectors mp root floor aps eps (stack_ptr floor (length (pad @ ?S)), m1) = (Inl (), st)" by auto
      with f show ?thesis unfolding fits b1 by (cases st) simp
    qed
  qed
qed

text \<open>
  C21: A new program finds its arguments on its stack as the System V ABI prescribes. For a stack page at
  \<open>floor\<close>, \<open>build_user_stack\<close> fails exactly when the strings and vectors do not fit into the page;
  otherwise the stack pointer is 16-aligned and points to \<open>argc\<close>, followed by \<open>argv\<close> and its NULL, \<open>envp\<close>
  and its NULL and the null entry of the auxiliary vector; and every pointer is to its string, with the
  terminating NUL, inside the page.
\<close>

theorem user_stack_layout:
  assumes "writable_at mp m root floor 4096" "16 dvd unat floor" "unat floor + 4096 \<le> 2 ^ 47"
  shows "case build_user_stack mp root (floor + 4096) floor argv envp m of
      (Inl _, _) \<Rightarrow> \<not> stack_fits argv envp
    | (Inr sp, m') \<Rightarrow> stack_fits argv envp \<and> 16 dvd unat sp \<and>
        (\<exists>aps eps. load_bytes mp m' root sp (8 * (length argv + length envp + 5)) =
             words_bytes (of_nat (length argv) # aps @ [0] @ eps @ [0, 0, 0]) \<and>
           list_all2 (string_at mp m' root) aps argv \<and> list_all2 (string_at mp m' root) eps envp \<and>
           (\<forall>p \<in> set (sp # aps @ eps). floor \<le> p \<and> p < floor + 4096))"
proof -
  let ?aps = "str_ptrs floor 0 argv" and ?eps = "str_ptrs floor (length (strs_bytes argv)) envp"
  let ?slots = "length argv + length envp + 5"
  note b = build_stack [OF assms, of argv envp]
  show ?thesis
  proof (cases "stack_fits argv envp")
    case False
    with b show ?thesis by auto
  next
    case True
    let ?v = "words_bytes (vector_words ?aps ?eps)" and ?z = "words_bytes (pad_words ?slots)"
    from b True obtain m' pad where m': "build_user_stack mp root (floor + 4096) floor argv envp m =
        (Inr (stack_ptr floor (length (?v @ ?z @ pad @ strs_bytes envp @ strs_bytes argv))), m')"
      "stack_is mp root floor m' (?v @ ?z @ pad @ strs_bytes envp @ strs_bytes argv)"
      "16 dvd length (pad @ strs_bytes envp @ strs_bytes argv)"
      unfolding Let_def by auto
    let ?bs = "?v @ ?z @ pad @ strs_bytes envp @ strs_bytes argv"
    have l: "length ?bs \<le> 4096" "length ?v = 8 * ?slots" "length ?z = 8 * (?slots mod 2)"
      using m'(2) by (auto simp: stack_is_def vector_words_def pad_words_def simp del: length_strs_bytes)
    define n where "n = length ?bs"
    have n: "0 < n" "n \<le> 4096" using l(1,2) unfolding n_def by simp_all
    have "16 dvd 8 * (?slots + ?slots mod 2)" by presburger
    then have "16 dvd n" using m'(3) l(2,3) unfolding n_def by (metis append_assoc dvd_add length_append distrib_left)
    then have al: "16 dvd unat (stack_ptr floor n)"
      using assms(2) unfolding stack_ptr_range(3) [OF assms(3) n] by (simp add: dvd_diff_nat)
    have v: "load_bytes mp m' root (stack_ptr floor n) (8 * ?slots) = ?v"
      unfolding n_def l(2) [symmetric] length_append [of ?v] by (rule stack_slice [where pre = "[]"]) (use m'(2) in \<open>simp only: append_Nil\<close>)
    have sa: "list_all2 (string_at mp m' root) ?aps argv"
      using strs_on_stack [of mp root floor m' "?v @ ?z @ pad @ strs_bytes envp" argv "[]"] m'(2) by simp
    have se: "list_all2 (string_at mp m' root) ?eps envp"
      using strs_on_stack [of mp root floor m' "?v @ ?z @ pad" envp "strs_bytes argv"] m'(2) by (simp del: length_strs_bytes)
    have "length (strs_bytes argv) + length (strs_bytes envp) \<le> 4096" using l(1) by (simp del: length_strs_bytes)
    then have "\<forall>p \<in> set (stack_ptr floor n # ?aps @ ?eps). floor \<le> p \<and> p < floor + 4096"
      using pointers_in_page [OF assms(3) n] by blast
    moreover have "build_user_stack mp root (floor + 4096) floor argv envp m = (Inr (stack_ptr floor n), m')"
      using m'(1) by (simp only: n_def)
    ultimately show ?thesis
      using True al sa se v [unfolded vector_words_def length_str_ptrs] by (simp only: prod.case sum.case) blast
  qed
qed

lemma mapped_page_writable:
  assumes "page_mapper mp tables" "user_space mp tables s held root F" "translate mp (snd s) root page = Some (f, USER_RW)"
    "page_of page = page" "unat page + 4096 \<le> 2 ^ 47"
  shows "writable_at mp (snd s) root page 4096"
proof -
  have "user_byte mp (snd s) root True (page + of_nat i)" if "i < 4096" for i
  proof -
    have u: "unat (page + of_nat i) = unat page + i" by (rule unat_add_small) (use that assms(5) in simp)
    then have "page_of (page + of_nat i) = page" using that assms(4) by (auto simp: page_of_eq)
    with u assms(3,5) that show ?thesis by (simp add: user_byte_def page_allows_def word_less_nat_alt USER_RW_def contains_flag_def)
  qed
  with assms(2) user_space_sane [OF assms(1,2)] show ?thesis by (simp add: writable_at_def user_space_def)
qed

theorem user_stack_layout_witness:
  "\<exists>m sp m'. build_user_stack flat_mapper 0x9000 0x7F8000001000 0x7F8000000000 [str ''ls'', str ''-l''] [] m = (Inr sp, m') \<and> 16 dvd unat sp"
proof -
  have pg: "page_of 0x7F8000000000 = 0x7F8000000000" by (simp add: page_of_def)
  obtain s' where s': "map_user_page flat_mapper 0x9000 0x7F8000000000 (frame_init demo_map, \<lambda>_. 0) = (Inr (), s')"
    using demo_page by blast
  obtain held' f where "user_space flat_mapper flat_tables s' held' 0x9000 (insert f {})"
    "translate flat_mapper (snd s') 0x9000 0x7F8000000000 = Some (f, USER_RW)"
    using map_user_page_ok [OF flat_page_mapper demo_space pg s'] pg by metis
  then have w: "writable_at flat_mapper (snd s') 0x9000 0x7F8000000000 4096"
    using mapped_page_writable [OF flat_page_mapper _ _ pg] by simp
  have "stack_fits [str ''ls'', str ''-l''] []" by (simp add: stack_fits_def aligned_len_def str_def)
  with user_stack_layout [OF w, of "[str ''ls'', str ''-l'']" "[]"] show ?thesis
    by (auto split: prod.splits sum.splits)
qed

end
