(* ===== verification/Sys_Entry.thy ===== *)
theory Sys_Entry
  imports Dispatch User_Stack
begin

text \<open>
  The way into the kernel and back, and what replaces or copies a whole process,
  \<open>src/arch/x86_64/syscall.rs\<close>: the trampolines around \<open>syscall\<close> and \<open>sysretq\<close>, the glue to the system
  call table, \<open>arch_prctl\<close>, \<open>execve\<close>, \<open>fork\<close> and the first process. Parameters: the page table crate
  (\<open>pt\<close>, \<open>pgt\<close> or \<open>mp e\<close>), the segment selectors, the addresses of the trampolines and of freshly boxed stacks.
\<close>

section \<open>Registers\<close>

text \<open>The field at the lowest address is the last one pushed.\<close>

record SyscallRegs =
  sr_r15 :: u64
  sr_r14 :: u64
  sr_r13 :: u64
  sr_r12 :: u64
  sr_rbp :: u64
  sr_rbx :: u64
  sr_r9 :: u64
  sr_r8 :: u64
  sr_r10 :: u64
  sr_rdx :: u64
  sr_rsi :: u64
  sr_rdi :: u64
  sr_rflags :: u64
  sr_rip :: u64
  sr_rax :: u64
  sr_user_rsp :: u64

text \<open>The processor with the registers a process sees.\<close>

record user_cpu = cpu +
  rax :: u64
  rcx :: u64
  rdx :: u64
  rsi :: u64
  rdi :: u64
  r8 :: u64
  r9 :: u64
  r10 :: u64
  r11 :: u64

text \<open>\<open>*regs\<close> at an address of kernel memory.\<close>

definition regs_at :: "kmem \<Rightarrow> u64 \<Rightarrow> SyscallRegs" where
  "regs_at m a = \<lparr>sr_r15 = m a, sr_r14 = m (a + 8), sr_r13 = m (a + 16), sr_r12 = m (a + 24), sr_rbp = m (a + 32),
     sr_rbx = m (a + 40), sr_r9 = m (a + 48), sr_r8 = m (a + 56), sr_r10 = m (a + 64), sr_rdx = m (a + 72),
     sr_rsi = m (a + 80), sr_rdi = m (a + 88), sr_rflags = m (a + 96), sr_rip = m (a + 104), sr_rax = m (a + 112),
     sr_user_rsp = m (a + 120)\<rparr>"

section \<open>The trampolines\<close>

text \<open>
  The two instructions. \<open>syscall\<close> keeps the return address and the flags in registers and clears the
  flags in \<open>SFMASK\<close>, here the interrupt flag; \<open>sysretq\<close> faults in ring 0 on a return address that is
  not canonical.
\<close>

definition syscall_insn :: "u64 \<Rightarrow> u64 \<Rightarrow> u64 \<Rightarrow> user_cpu \<Rightarrow> user_cpu" where
  "syscall_insn lstar kernel_cs kernel_ss c =
     c\<lparr>rcx := rip c, r11 := rflags c, rip := lstar, rflags := rflags c AND NOT 0x200, reg_cs := kernel_cs, reg_ss := kernel_ss\<rparr>"

definition canonical :: "u64 \<Rightarrow> bool" where
  "canonical a \<longleftrightarrow> a < 0x800000000000 \<or> 0xFFFF800000000000 \<le> a"

definition sysretq :: "u64 \<Rightarrow> u64 \<Rightarrow> user_cpu \<times> kmem \<Rightarrow> (user_cpu \<times> kmem) option" where
  "sysretq user_cs user_ss s =
     (case s of (c, m) \<Rightarrow>
        if canonical (rcx c)
        then Some (c\<lparr>rip := rcx c, rflags := (r11 c AND 0x3C7FD7) OR 2, reg_cs := user_cs, reg_ss := user_ss\<rparr>, m)
        else None)"

text \<open>\<open>ferros_syscall_entry\<close> up to the call of the dispatcher, whose argument is in \<open>rdi\<close>.\<close>

definition ferros_syscall_entry :: "user_cpu \<times> kmem \<Rightarrow> user_cpu \<times> kmem" where
  "ferros_syscall_entry s =
     (case s of (c, m) \<Rightarrow>
        (let scratch = rsp c;
             (c', m') = push64 (r15 c) (push64 (r14 c) (push64 (r13 c) (push64 (r12 c) (push64 (rbp c) (push64 (rbx c)
               (push64 (r9 c) (push64 (r8 c) (push64 (r10 c) (push64 (rdx c) (push64 (rsi c) (push64 (rdi c)
               (push64 (r11 c) (push64 (rcx c) (push64 (rax c) (push64 scratch (c\<lparr>rsp := syscall_stack c\<rparr>, m))))))))))))))))
         in (c'\<lparr>rdi := rsp c'\<rparr>, m')))"

definition ferros_syscall_return :: "u64 \<Rightarrow> u64 \<Rightarrow> user_cpu \<times> kmem \<Rightarrow> (user_cpu \<times> kmem) option" where
  "ferros_syscall_return user_cs user_ss s =
     sysretq user_cs user_ss
       (pop64 (\<lambda>v c. c\<lparr>rsp := v\<rparr>) (pop64 (\<lambda>v c. c\<lparr>rax := v\<rparr>) (pop64 (\<lambda>v c. c\<lparr>rcx := v\<rparr>) (pop64 (\<lambda>v c. c\<lparr>r11 := v\<rparr>)
       (pop64 (\<lambda>v c. c\<lparr>rdi := v\<rparr>) (pop64 (\<lambda>v c. c\<lparr>rsi := v\<rparr>) (pop64 (\<lambda>v c. c\<lparr>rdx := v\<rparr>) (pop64 (\<lambda>v c. c\<lparr>r10 := v\<rparr>)
       (pop64 (\<lambda>v c. c\<lparr>r8 := v\<rparr>) (pop64 (\<lambda>v c. c\<lparr>r9 := v\<rparr>) (pop64 (\<lambda>v c. c\<lparr>rbx := v\<rparr>) (pop64 (\<lambda>v c. c\<lparr>rbp := v\<rparr>)
       (pop64 (\<lambda>v c. c\<lparr>r12 := v\<rparr>) (pop64 (\<lambda>v c. c\<lparr>r13 := v\<rparr>) (pop64 (\<lambda>v c. c\<lparr>r14 := v\<rparr>) (pop64 (\<lambda>v c. c\<lparr>r15 := v\<rparr>) s))))))))))))))))"

section \<open>The kernel stack of a forked child\<close>

definition init_fork_child_stack :: "u64 \<Rightarrow> u64 \<Rightarrow> SyscallRegs \<Rightarrow> kmem \<Rightarrow> u64 \<times> kmem" where
  "init_fork_child_stack syscall_return kstack_top par m =
     write_down [sr_user_rsp par, 0, sr_rip par, sr_rflags par, sr_rdi par, sr_rsi par, sr_rdx par, sr_r10 par, sr_r8 par,
       sr_r9 par, sr_rbx par, sr_rbp par, sr_r12 par, sr_r13 par, sr_r14 par, sr_r15 par, syscall_return, 0, 0, 0, 0, 0, 0]
       kstack_top m"

section \<open>arch_prctl\<close>

definition set_live_fs_base :: "u64 \<Rightarrow> 'n kernel \<Rightarrow> 'n kernel" where
  "set_live_fs_base addr k = k\<lparr>kmach := (kmach k)\<lparr>mcpu := (mcpu (kmach k))\<lparr>msr_fs_base := addr\<rparr>\<rparr>\<rparr>"

definition sys_arch_prctl :: "'n env \<Rightarrow> u64 \<Rightarrow> u64 \<Rightarrow> 'n call" where
  "sys_arch_prctl e code addr k =
     (if code = ARCH_SET_FS then
        (if addr \<ge> USER_SPACE_END then (- EINVAL, k)
         else (0, set_live_fs_base addr (snd (on_mach (set_current_fs_base addr) k))))
      else if code = ARCH_GET_FS then
        negating (ebind (user_write e addr (le_bytes 8 (current_fs_base (kmach k)))) (\<lambda>_. ret 0)) k
      else (- EINVAL, k))"

section \<open>execve\<close>

definition USER_STACK_VA :: u64 where
  "USER_STACK_VA = 0x7F8010000000"

definition USER_KERNEL_STACK_SIZE :: u64 where
  "USER_KERNEL_STACK_SIZE = 4096 * 5"

text \<open>An operation on the frames of the global allocator: a panic in it is a panic here; \<open>None\<close> if there is no allocator.\<close>

definition on_frames :: "(frames, string, 'a) eff \<Rightarrow> ('n kernel, string, 'a option) eff" where
  "on_frames f k =
     (case with_global f (kframes k) of
        (None, g) \<Rightarrow> (Inr None, k\<lparr>kframes := g\<rparr>)
      | (Some (Inl msg), g) \<Rightarrow> (Inl msg, k\<lparr>kframes := g\<rparr>)
      | (Some (Inr x), g) \<Rightarrow> (Inr (Some x), k\<lparr>kframes := g\<rparr>))"

text \<open>
  The new image in the address space \<open>root\<close>, which is active meanwhile: the program, the page of the
  stack and the stack. The result is an errno or the entry point and the stack pointer.
\<close>

definition build_stack_page :: "mapper \<Rightarrow> u64 \<Rightarrow> bytes list \<Rightarrow> bytes list \<Rightarrow> (frames, string, i64 + u64) eff" where
  "build_stack_page pgt root argv envp =
     ebind (map_user_page pgt root (page_of USER_STACK_VA)) (\<lambda>_ s.
       case build_user_stack pgt root (USER_STACK_VA + 4096) USER_STACK_VA argv envp (snd s) of
         (Inr sp, m) \<Rightarrow> (Inr (Inr sp), (fst s, m))
       | (Inl _, m) \<Rightarrow> (Inr (Inl E2BIG), (fst s, m)))"

definition load_image :: "mapper \<Rightarrow> u64 \<Rightarrow> bytes \<Rightarrow> bytes list \<Rightarrow> bytes list \<Rightarrow> (frames, string, i64 + u64 \<times> u64) eff" where
  "load_image pgt root bs argv envp s =
     (case elf_load pgt root bs s of
        (Inl (Load_Panic msg), s) \<Rightarrow> (Inl msg, s)
      | (Inl (Elf_Error _), s) \<Rightarrow> (Inr (Inl ENOEXEC), s)
      | (Inr en, s) \<Rightarrow> ebind (build_stack_page pgt root argv envp) (\<lambda>r. ret (rbind r (\<lambda>sp. Inr (en, sp)))) s)"

text \<open>The old space is active again when a failed one is destroyed.\<close>

definition build_image :: "ptes \<Rightarrow> mapper \<Rightarrow> u64 \<Rightarrow> u64 \<Rightarrow> bytes \<Rightarrow> bytes list \<Rightarrow> bytes list \<Rightarrow>
    (frames, string, i64 + u64 \<times> u64 \<times> u64) eff" where
  "build_image pt pgt kernel_pml4 old_pml4 bs argv envp =
     ebind (new_sharing_kernel kernel_pml4) (\<lambda>root.
     ebind (load_image pgt root bs argv envp) (\<lambda>loaded.
       case loaded of
         Inr (en, sp) \<Rightarrow> ret (Inr (root, en, sp))
       | Inl errno \<Rightarrow> ebind (destroy pt old_pml4 root) (\<lambda>_. ret (Inl errno))))"

text \<open>Steps 1 and 2: the path, the file and the vectors, read from the old image.\<close>

definition exec_args :: "'n env \<Rightarrow> SyscallRegs \<Rightarrow> u64 \<Rightarrow> ('n kernel, i64, bytes \<times> bytes list \<times> bytes list) eff" where
  "exec_args e regs path_ptr k =
     (case read_user_cstr (mp e) (umem k) (current_key k) path_ptr of
        Inl errno \<Rightarrow> (Inl errno, k)
      | Inr path \<Rightarrow>
          if \<not> utf8_valid path then (Inl ENOENT, k)
          else
            (case resolve_path path k of (path, k) \<Rightarrow>
              (case fs_open (kdisk k) path of
                 Inl _ \<Rightarrow> (Inl ENOENT, k)
               | Inr bs \<Rightarrow>
                   (rbind (read_user_str_array (mp e) (umem k) (current_key k) (sr_rsi regs)) (\<lambda>argv.
                    rbind (read_user_str_array (mp e) (umem k) (current_key k) (sr_rdx regs)) (\<lambda>envp.
                      Inr (bs, argv, envp))), k))))"

text \<open>Step 4: the thread gets the new space, the old one is released, the descriptors move.\<close>

definition activate :: "u64 \<Rightarrow> 'n kernel \<Rightarrow> 'n kernel" where
  "activate root k = k\<lparr>kmach := (kmach k)\<lparr>mcpu := (mcpu (kmach k))\<lparr>active_cr3 := root\<rparr>\<rparr>\<rparr>"

definition exec_commit :: "ptes \<Rightarrow> 'n env \<Rightarrow> u64 \<Rightarrow> ('n kernel, string, unit) eff" where
  "exec_commit pt e new_pml4 =
     ebind (on_mach (exec_replace_cr3 new_pml4)) (\<lambda>old_pml4 k.
       ebind (on_frames (destroy pt new_pml4 old_pml4)) (\<lambda>_ k.
         (Inr (), set_live_fs_base 0 (rekey_process e old_pml4 new_pml4 k))) (activate new_pml4 k))"

text \<open>Step 5: a clean start.\<close>

definition start_regs :: "u64 \<Rightarrow> u64 \<Rightarrow> SyscallRegs" where
  "start_regs en sp = \<lparr>sr_r15 = 0, sr_r14 = 0, sr_r13 = 0, sr_r12 = 0, sr_rbp = 0, sr_rbx = 0, sr_r9 = 0, sr_r8 = 0,
     sr_r10 = 0, sr_rdx = 0, sr_rsi = 0, sr_rdi = 0, sr_rflags = 0x202, sr_rip = en, sr_rax = 0, sr_user_rsp = sp\<rparr>"

text \<open>\<open>(-errno) as u64\<close>.\<close>

definition set_errno :: "i64 \<Rightarrow> SyscallRegs \<Rightarrow> SyscallRegs" where
  "set_errno errno regs = regs\<lparr>sr_rax := word_of_int (- errno)\<rparr>"

definition exec :: "ptes \<Rightarrow> 'n env \<Rightarrow> SyscallRegs \<Rightarrow> u64 \<Rightarrow> ('n kernel, string, SyscallRegs) eff" where
  "exec pt e regs path_ptr k =
     (case exec_args e regs path_ptr k of
        (Inl errno, k) \<Rightarrow> (Inr (set_errno errno regs), k)
      | (Inr (bs, argv, envp), k) \<Rightarrow>
          (let old_pml4 = current_key k
           in ebind (on_mach get_kernel_cr3) (\<lambda>kernel_pml4.
              ebind (on_frames (build_image pt (mp e) kernel_pml4 old_pml4 bs argv envp)) (\<lambda>built.
                case built of
                  None \<Rightarrow> ret (set_errno ENOMEM regs)
                | Some (Inl errno) \<Rightarrow> ret (set_errno errno regs)
                | Some (Inr (new_pml4, en, sp)) \<Rightarrow>
                    ebind (exec_commit pt e new_pml4) (\<lambda>_. ret (start_regs en sp)))) k))"

section \<open>fork\<close>

text \<open>\<open>base\<close> is the address of the boxed kernel stack.\<close>

definition kstack_top :: "u64 \<Rightarrow> u64" where
  "kstack_top base = (base + USER_KERNEL_STACK_SIZE) AND NOT 0xF"

definition child_stack :: "u64 \<Rightarrow> u64 \<Rightarrow> SyscallRegs \<Rightarrow> u64 kern" where
  "child_stack syscall_return ktop regs s =
     (case init_fork_child_stack syscall_return ktop regs (mmem s) of (sp, m) \<Rightarrow> (Inr sp, s\<lparr>mmem := m\<rparr>))"

definition fork :: "ptes \<Rightarrow> 'n env \<Rightarrow> u64 \<Rightarrow> u64 \<Rightarrow> SyscallRegs \<Rightarrow> ('n kernel, string, SyscallRegs) eff" where
  "fork pt e syscall_return base regs k =
     (let parent_pml4 = current_key k
      in ebind (on_mach get_kernel_cr3) (\<lambda>kernel_pml4.
         ebind (on_frames (fork_from pt (mp e) parent_pml4 kernel_pml4)) (\<lambda>child.
           case child of
             None \<Rightarrow> ret (set_errno ENOMEM regs)
           | Some child_pml4 \<Rightarrow> (\<lambda>k.
               ebind (on_mach (child_stack syscall_return (kstack_top base) regs)) (\<lambda>sp k.
               ebind (on_mach (add_user_task sp child_pml4 (kstack_top base) base (current_fs_base (kmach k)))) (\<lambda>child_pid.
                 ret (regs\<lparr>sr_rax := ucast child_pid\<rparr>)) k) (fork_fds e parent_pml4 child_pml4 k)))) k)"

section \<open>The dispatcher\<close>

datatype sys_outcome = Back SyscallRegs | Waiting resume | Never_Back

definition ferros_syscall_dispatch :: "ptes \<Rightarrow> 'n env \<Rightarrow> u64 \<Rightarrow> u64 \<Rightarrow> SyscallRegs \<Rightarrow> resume \<Rightarrow> ('n kernel, string, sys_outcome) eff" where
  "ferros_syscall_dispatch pt e syscall_return base regs at k =
     (if sr_rax regs = SYS_EXECVE then ebind (exec pt e regs (sr_rdi regs)) (\<lambda>r. ret (Back r)) k
      else if sr_rax regs = SYS_FORK then ebind (fork pt e syscall_return base regs) (\<lambda>r. ret (Back r)) k
      else if sr_rax regs = SYS_ARCH_PRCTL then
        (case sys_arch_prctl e (sr_rdi regs) (sr_rsi regs) k of (r, k) \<Rightarrow> (Inr (Back (regs\<lparr>sr_rax := word_of_int r\<rparr>)), k))
      else
        ebind (dispatch e (sr_rax regs) [sr_rdi regs, sr_rsi regs, sr_rdx regs, sr_r10 regs, sr_r8 regs, sr_r9 regs] (sr_user_rsp regs) at)
          (\<lambda>r. ret (case r of Ret v \<Rightarrow> Back (regs\<lparr>sr_rax := word_of_int v\<rparr>) | Wait p \<Rightarrow> Waiting p | Gone \<Rightarrow> Never_Back)) k)"

section \<open>The first process\<close>

text \<open>\<open>tramp\<close> is the address of the trampoline of user threads; the allocator is the caller's.\<close>

definition spawn_user :: "mapper \<Rightarrow> u64 \<Rightarrow> u64 \<Rightarrow> u64 \<Rightarrow> u64 \<Rightarrow> bytes \<Rightarrow> (frames \<times> mach, string, unit) eff" where
  "spawn_user pgt tramp user_cs user_ss base elf_bytes s =
     (case s of (fa, mc) \<Rightarrow>
        (case ebind (new_sharing_kernel (current_address_space (mcpu mc))) (\<lambda>root.
              ebind (load_image pgt root elf_bytes [] []) (\<lambda>r. ret (root, r))) fa of
           (Inl msg, fa) \<Rightarrow> (Inl msg, (fa, mc))
         | (Inr (root, Inl errno), fa) \<Rightarrow>
             (Inl (if errno = ENOEXEC then ''failed to load user ELF'' else ''initial user stack does not fit''), (fa, mc))
         | (Inr (root, Inr (en, sp)), fa) \<Rightarrow>
             (case init_user_thread_stack tramp (kstack_top base) en sp user_cs user_ss (mmem mc) of (ksp, m) \<Rightarrow>
               (case add_user_task ksp root (kstack_top base) base 0 (mc\<lparr>mmem := m\<rparr>) of
                  (Inl msg, mc) \<Rightarrow> (Inl msg, (fa, mc))
                | (Inr _, mc) \<Rightarrow> (Inr (), (fa, mc))))))"

section \<open>Into the kernel and back\<close>

text \<open>The registers of a process, as the dispatcher sees them.\<close>

definition user_regs :: "user_cpu \<Rightarrow> SyscallRegs" where
  "user_regs c = \<lparr>sr_r15 = r15 c, sr_r14 = r14 c, sr_r13 = r13 c, sr_r12 = r12 c, sr_rbp = rbp c, sr_rbx = rbx c,
     sr_r9 = r9 c, sr_r8 = r8 c, sr_r10 = r10 c, sr_rdx = rdx c, sr_rsi = rsi c, sr_rdi = rdi c, sr_rflags = rflags c,
     sr_rip = rip c, sr_rax = rax c, sr_user_rsp = rsp c\<rparr>"

lemma entry_builds_regs:
  assumes "ferros_syscall_entry (syscall_insn lstar kcs kss c, m) = (c1, m1)"
  shows "rsp c1 = syscall_stack c - 128" "rdi c1 = rsp c1" "regs_at m1 (rsp c1) = user_regs c"
proof -
  show "rsp c1 = syscall_stack c - 128" "rdi c1 = rsp c1"
    using assms by (auto simp: ferros_syscall_entry_def syscall_insn_def push64_def)
  show "regs_at m1 (rsp c1) = user_regs c"
    using assms by (auto simp: ferros_syscall_entry_def syscall_insn_def push64_def regs_at_def user_regs_def)
qed

lemma return_restores:
  "ferros_syscall_return ucs uss (c, m) =
     (let r = regs_at m (rsp c)
      in if canonical (sr_rip r)
         then Some (c\<lparr>r15 := sr_r15 r, r14 := sr_r14 r, r13 := sr_r13 r, r12 := sr_r12 r, rbp := sr_rbp r, rbx := sr_rbx r,
           r9 := sr_r9 r, r8 := sr_r8 r, r10 := sr_r10 r, rdx := sr_rdx r, rsi := sr_rsi r, rdi := sr_rdi r,
           r11 := sr_rflags r, rcx := sr_rip r, rax := sr_rax r, rsp := sr_user_rsp r, rip := sr_rip r,
           rflags := (sr_rflags r AND 0x3C7FD7) OR 2, reg_cs := ucs, reg_ss := uss\<rparr>, m)
         else None)"
  by (simp add: ferros_syscall_return_def sysretq_def pop64_def regs_at_def add.assoc Let_def)

text \<open>
  C18: A system call returns to the instruction after \<open>syscall\<close> with every register of the process but \<open>rax\<close>
  (the result), \<open>rcx\<close> and \<open>r11\<close> as it was. Whatever the kernel does in between -- blocking and running
  other processes included -- it is enough that the saved frame on the kernel stack of the process is left
  alone except for \<open>rax\<close>. The dispatcher gets the address of a frame that holds exactly the registers of
  the process.
\<close>

theorem syscall_preserves_registers:
  assumes "ferros_syscall_entry (syscall_insn lstar kcs kss c, m) = (c1, m1)"
    and "regs_at m2 (rdi c1) = (regs_at m1 (rdi c1))\<lparr>sr_rax := v\<rparr>" and "rsp c2 = rdi c1" and "canonical (rip c)"
  shows "regs_at m1 (rdi c1) = user_regs c \<and>
    (\<exists>c3. ferros_syscall_return ucs uss (c2, m2) = Some (c3, m2) \<and>
       user_regs c3 = (user_regs c)\<lparr>sr_rax := v, sr_rflags := (rflags c AND 0x3C7FD7) OR 2\<rparr> \<and>
       rcx c3 = rip c \<and> r11 c3 = rflags c \<and> reg_cs c3 = ucs \<and> reg_ss c3 = uss)"
proof -
  note en = entry_builds_regs [OF assms(1)]
  have r: "regs_at m2 (rsp c2) = (user_regs c)\<lparr>sr_rax := v\<rparr>" using assms(2,3) en by simp
  have "canonical (sr_rip (regs_at m2 (rsp c2)))" using assms(4) by (simp add: r) (simp add: user_regs_def)
  with en show ?thesis by (simp add: return_restores Let_def r) (simp add: user_regs_def)
qed

definition demo_user :: user_cpu where
  "demo_user = \<lparr>rsp = 0x7F8010000FF0, rbp = 1, rbx = 2, r12 = 3, r13 = 4, r14 = 5, r15 = 6, rip = 0x7F8000000102,
     reg_cs = 0x23, reg_ss = 0x1B, rflags = 0x202, fpu_regs = [], msr_fs_base = 0, tss_rsp0 = 0, syscall_stack = 0xFFFF800000005000,
     active_cr3 = 0x1000, rax = 39, rcx = 7, rdx = 8, rsi = 9, rdi = 10, r8 = 11, r9 = 12, r10 = 13, r11 = 14\<rparr>"

theorem syscall_preserves_registers_witness:
  "\<exists>c1 m1 c3. ferros_syscall_entry (syscall_insn 0x99 8 16 demo_user, \<lambda>_. 0) = (c1, m1) \<and>
     ferros_syscall_return 0x23 0x1B (c1, m1(rdi c1 + 112 := 5)) = Some (c3, m1(rdi c1 + 112 := 5)) \<and>
     user_regs c3 = (user_regs demo_user)\<lparr>sr_rax := 5\<rparr>"
proof -
  obtain c1 m1 where e: "ferros_syscall_entry (syscall_insn 0x99 8 16 demo_user, \<lambda>_. 0) = (c1, m1)" by (metis prod.collapse)
  have "regs_at (m1(rdi c1 + 112 := 5)) (rdi c1) = (regs_at m1 (rdi c1))\<lparr>sr_rax := 5\<rparr>" by (simp add: regs_at_def)
  moreover have "rsp c1 = rdi c1" "canonical (rip demo_user)" using entry_builds_regs [OF e] by (simp_all add: canonical_def demo_user_def)
  ultimately obtain c3 where "ferros_syscall_return 0x23 0x1B (c1, m1(rdi c1 + 112 := 5)) = Some (c3, m1(rdi c1 + 112 := 5))"
    "user_regs c3 = (user_regs demo_user)\<lparr>sr_rax := 5, sr_rflags := (rflags demo_user AND 0x3C7FD7) OR 2\<rparr>"
    using syscall_preserves_registers [OF e, where ucs = "0x23" and uss = "0x1B"] by metis
  with e show ?thesis by (auto simp: user_regs_def demo_user_def)
qed

section \<open>The child of fork\<close>

lemma write_down_append: "write_down (xs @ ys) sp m = (case write_down xs sp m of (sp, m) \<Rightarrow> write_down ys sp m)"
  by (induction xs arbitrary: sp m) simp_all

text \<open>
  C17: The child of \<open>fork\<close> returns from the same system call as its parent. The first switch to the stack
  that \<open>init_fork_child_stack\<close> prepares ends in the epilogue of the trampoline, which enters ring 3 at the
  parent's return address, on the parent's user stack, with all the parent's registers and with \<open>rax = 0\<close>.
\<close>

theorem fork_child_resumes:
  assumes "init_fork_child_stack ret_addr ktop regs m0 = (sp, m1)" and "switch_context sp (c, m1) = (old, (c', m'))"
    and "(\<lambda>k. ktop - 8 * k) ` {1..23} \<inter> (\<lambda>k. rsp c - 8 * k) ` {1, 2, 3, 4, 5, 6} = {}" and "canonical (sr_rip regs)"
  shows "rip c' = ret_addr \<and>
    (\<exists>c3. ferros_syscall_return ucs uss (c', m') = Some (c3, m') \<and>
       user_regs c3 = regs\<lparr>sr_rax := 0, sr_rflags := (sr_rflags regs AND 0x3C7FD7) OR 2\<rparr> \<and> reg_cs c3 = ucs \<and> reg_ss c3 = uss)"
proof -
  have sp: "sp = ktop - 184" and m1: "regs_at m1 (ktop - 128) = regs\<lparr>sr_rax := 0\<rparr>" "m1 (ktop - 136) = ret_addr"
    using assms(1) by (auto simp: init_fork_child_stack_def regs_at_def)
  have apart: "ktop - 8 * j \<noteq> rsp c - 8 * k" if "j \<in> {1..23}" "k \<in> {1, 2, 3, 4, 5, 6}" for j k
    using assms(3) that by blast
  have keep: "m' (ktop - 8 * j) = m1 (ktop - 8 * j)" if "j \<in> {1..23}" for j
    using assms(2) apart [OF that, of 1] apart [OF that, of 2] apart [OF that, of 3] apart [OF that, of 4] apart [OF that, of 5]
      apart [OF that, of 6]
    by (auto simp: switch_context_def switch_save_eq switch_restore_eq)
  have c': "rsp c' = ktop - 128" "rip c' = m' (ktop - 8 * 17)"
    using assms(2) by (auto simp: switch_context_def switch_save_eq switch_restore_eq sp)
  have "regs_at m' (ktop - 128) = regs_at m1 (ktop - 128)"
    using keep [of 1] keep [of 2] keep [of 3] keep [of 4] keep [of 5] keep [of 6] keep [of 7] keep [of 8] keep [of 9]
      keep [of 10] keep [of 11] keep [of 12] keep [of 13] keep [of 14] keep [of 15] keep [of 16]
    by (simp add: regs_at_def)
  then have r: "regs_at m' (rsp c') = regs\<lparr>sr_rax := 0\<rparr>" using m1(1) c'(1) by simp
  have "rip c' = ret_addr" using c'(2) keep [of 17] m1(2) by simp
  with assms(4) show ?thesis by (simp add: return_restores r Let_def) (simp add: user_regs_def)
qed

definition demo_switched :: "user_cpu \<times> kmem" where
  "demo_switched = snd (switch_context (0xFFFF800000009000 - 184) (demo_user\<lparr>rsp := 0xFFFF800000005000\<rparr>,
     snd (init_fork_child_stack 0x77 0xFFFF800000009000 (user_regs demo_user) (\<lambda>_. 0))))"

lemma stacks_apart: "k \<in> {1..23} \<Longrightarrow> (0xFFFF800000009000 - 8 * k :: u64) \<notin> (\<lambda>j. 0xFFFF800000005000 - 8 * j) ` {1, 2, 3, 4, 5, 6}"
proof
  assume k: "k \<in> {1..23}" and i: "(0xFFFF800000009000 - 8 * k :: u64) \<in> (\<lambda>j. 0xFFFF800000005000 - 8 * j) ` {1, 2, 3, 4, 5, 6}"
  from k have "unat k \<le> 23" by (simp add: word_le_nat_alt)
  then have "unat (8 * k) \<le> 184" by (simp add: unat_word_ariths)
  then have le: "8 * k \<le> 184" by (simp add: word_le_nat_alt)
  from i have "8 * k \<in> (\<lambda>j. 0x4000 + 8 * j) ` {1, 2, 3, 4, 5, 6}" by (auto simp: diff_eq_eq)
  with le show False by auto
qed

theorem fork_child_resumes_witness:
  "\<exists>c3. ferros_syscall_return 0x23 0x1B demo_switched = Some (c3, snd demo_switched) \<and> user_regs c3 = (user_regs demo_user)\<lparr>sr_rax := 0\<rparr>"
proof -
  let ?m1 = "snd (init_fork_child_stack 0x77 0xFFFF800000009000 (user_regs demo_user) (\<lambda>_. 0))" and ?c = "demo_user\<lparr>rsp := 0xFFFF800000005000\<rparr>"
  have i: "init_fork_child_stack 0x77 0xFFFF800000009000 (user_regs demo_user) (\<lambda>_. 0) = (0xFFFF800000009000 - 184, ?m1)"
    by (simp add: init_fork_child_stack_def)
  obtain old c' m' where s: "switch_context (0xFFFF800000009000 - 184) (?c, ?m1) = (old, (c', m'))" by (metis prod.collapse)
  have a: "(\<lambda>k :: u64. 0xFFFF800000009000 - 8 * k) ` {1..23} \<inter> (\<lambda>k. rsp ?c - 8 * k) ` {1, 2, 3, 4, 5, 6} = {}"
  proof -
    have "rsp ?c = 0xFFFF800000005000" by simp
    then show ?thesis using stacks_apart by (simp only:) blast
  qed
  have d: "demo_switched = (c', m')" unfolding demo_switched_def s by simp
  have "canonical (sr_rip (user_regs demo_user))" by (simp add: canonical_def user_regs_def demo_user_def)
  from fork_child_resumes [OF i s a this, where ucs = "0x23" and uss = "0x1B"] show ?thesis
    unfolding d by (auto simp: user_regs_def demo_user_def)
qed

end
