(* ===== verification/Exec_Correct.thy ===== *)
theory Exec_Correct
  imports Sys_Entry Fd_Safe
begin

text \<open>
  What \<open>execve\<close> and \<open>fork\<close> do to the kernel: the states they lead to are reachable by the steps the
  invariants of the descriptor tables are proved for, and \<open>execve\<close> either leaves the process or replaces it.
\<close>

section \<open>Entering the kernel is a sequence of its steps\<close>

lemma reach_frames: "kreach e k \<Longrightarrow> kreach e (k\<lparr>kframes := g\<rparr>)"
  using kreach.step [OF _ kstep.other [where k = k and g = g and m = "kmach k" and t = "ticks k"]] by simp

lemma reach_mach: "kreach e k \<Longrightarrow> kreach e (k\<lparr>kmach := m\<rparr>)"
  using kreach.step [OF _ kstep.other [where k = k and g = "kframes k" and m = m and t = "ticks k"]] by simp

lemma reach_on_mach: "safe (kreach e) (on_mach f)"
  by (rule safeI) (auto simp: on_mach_def reach_mach split: prod.splits)

lemma reach_on_frames: "safe (kreach e) (on_frames f)"
  by (rule safeI) (auto simp: on_frames_def reach_frames split: prod.splits option.splits sum.splits)

lemma reach_cwd: "kreach e k \<Longrightarrow> kreach e (snd (current_cwd k))"
proof -
  assume k: "kreach e k"
  have "snd (dispatch e SYS_GETCWD [0, 0] 0 AtStart k) = snd (current_cwd k)"
    by (simp add: dispatch_def simple_def sys_getcwd_def split: prod.splits)
  with kreach.step [OF k kstep_call [of e k SYS_GETCWD "[0, 0]" 0 AtStart]] show ?thesis by simp
qed

lemma reach_resolve: "safe (kreach e) (resolve_path path)"
proof (rule safeI)
  fix k r k' assume "kreach e k" "resolve_path path k = (r, k')"
  then show "kreach e k'" using reach_cwd [of e k] by (auto simp: resolve_path_def Let_def split: if_splits prod.splits)
qed

lemma reach_exec_args: "safe (kreach e) (exec_args e regs p)"
  by (rule safeI) (auto simp: exec_args_def split: sum.splits if_splits prod.splits dest: safeD [OF reach_resolve])

lemma reach_exec_commit: "safe (kreach e) (exec_commit pt e new)"
proof -
  have "safe (kreach e) (\<lambda>k. (Inr (), set_live_fs_base 0 (rekey_process e old new k)))" for old
    by (rule safeI) (auto simp: set_live_fs_base_def intro!: reach_mach kreach.step [OF _ kstep.exec])
  then have "safe (kreach e) (ebind (on_frames (destroy pt new old)) (\<lambda>_ k. (Inr (), set_live_fs_base 0 (rekey_process e old new k))))" for old
    by (intro safe_ebind reach_on_frames)
  then have "safe (kreach e) (\<lambda>k. ebind (on_frames (destroy pt new old)) (\<lambda>_ k. (Inr (), set_live_fs_base 0 (rekey_process e old new k))) (activate new k))" for old
    unfolding safe_def by (auto simp: activate_def reach_mach)
  then show ?thesis unfolding exec_commit_def by (intro safe_ebind reach_on_mach)
qed

lemma reach_exec: "safe (kreach e) (exec pt e regs p)"
proof (rule safeI)
  fix k r k' assume k: "kreach e k" and x: "exec pt e regs p k = (r, k')"
  obtain a k1 where a: "exec_args e regs p k = (a, k1)" by (cases "exec_args e regs p k")
  have k1: "kreach e k1" by (rule safeD [OF reach_exec_args k a])
  have "safe (kreach e) (ebind (on_mach get_kernel_cr3) (\<lambda>kern. ebind (on_frames (build_image pt (mp e) kern old bs argv envp)) (\<lambda>built.
      case built of None \<Rightarrow> ret (set_errno ENOMEM regs) | Some (Inl errno) \<Rightarrow> ret (set_errno errno regs)
      | Some (Inr (new, en, sp)) \<Rightarrow> ebind (exec_commit pt e new) (\<lambda>_. ret (start_regs en sp)))))" for old bs argv envp
    by (intro safe_ebind reach_on_mach reach_on_frames) (auto split: option.splits sum.splits intro!: safe_ebind safe_ret reach_exec_commit)
  from safeD [OF this k1] x k1 show "kreach e k'"
    by (auto simp: exec_def a Let_def split: sum.splits prod.splits)
qed

lemma reach_child:
  "safe (kreach e) (\<lambda>k. ebind (on_mach (child_stack ret_addr ktop regs)) (\<lambda>sp k.
     ebind (on_mach (add_user_task sp child ktop base (current_fs_base (kmach k)))) (\<lambda>child_pid.
       ret (regs\<lparr>sr_rax := ucast child_pid\<rparr>)) k) (fork_fds e par child k))"
proof -
  have "safe (kreach e) (ebind (on_mach (add_user_task sp child ktop base fs)) (\<lambda>child_pid. ret (regs\<lparr>sr_rax := ucast child_pid\<rparr>)))" for sp fs
    by (intro safe_ebind reach_on_mach safe_ret)
  then have "safe (kreach e) (\<lambda>k. ebind (on_mach (add_user_task sp child ktop base (current_fs_base (kmach k)))) (\<lambda>child_pid.
      ret (regs\<lparr>sr_rax := ucast child_pid\<rparr>)) k)" for sp
    unfolding safe_def by blast
  then have "safe (kreach e) (ebind (on_mach (child_stack ret_addr ktop regs)) (\<lambda>sp k.
      ebind (on_mach (add_user_task sp child ktop base (current_fs_base (kmach k)))) (\<lambda>child_pid.
        ret (regs\<lparr>sr_rax := ucast child_pid\<rparr>)) k))"
    by (intro safe_ebind reach_on_mach)
  then show ?thesis unfolding safe_def using kreach.step [OF _ kstep.fork] by blast
qed

lemma reach_fork: "safe (kreach e) (fork pt e ret_addr base regs)"
proof -
  let ?rest = "\<lambda>par child. case child of None \<Rightarrow> ret (set_errno ENOMEM regs)
    | Some child \<Rightarrow> (\<lambda>k. ebind (on_mach (child_stack ret_addr (kstack_top base) regs)) (\<lambda>sp k.
        ebind (on_mach (add_user_task sp child (kstack_top base) base (current_fs_base (kmach k)))) (\<lambda>child_pid.
          ret (regs\<lparr>sr_rax := ucast child_pid\<rparr>)) k) (fork_fds e par child k))"
  have "safe (kreach e) (?rest par child)" for par child
    by (cases child) (simp_all add: safe_ret reach_child)
  then have "safe (kreach e) (ebind (on_mach get_kernel_cr3) (\<lambda>kern. ebind (on_frames (fork_from pt (mp e) par kern)) (?rest par)))" for par
    by (intro safe_ebind reach_on_mach reach_on_frames)
  then show ?thesis unfolding safe_def fork_def Let_def by blast
qed

lemma reach_arch_prctl: "safe (kreach e) (sys_arch_prctl e code addr)"
proof (rule safeI)
  fix k r k' assume k: "kreach e k" and x: "sys_arch_prctl e code addr k = (r, k')"
  have w: "safe (kreach e) (user_write e addr bs)" for bs
    by (rule safeI) (auto simp: user_write_def intro: reach_frames split: prod.splits)
  have n: "safe (kreach e) (negating (ebind (user_write e addr bs) (\<lambda>_. ret 0)))" for bs
    by (intro safe_negating safe_ebind w safe_ret)
  have "kreach e (snd (on_mach f k))" for f :: "unit kern" using reach_on_mach k unfolding safe_def by blast
  then show "kreach e k'" using x k safeD [OF n k]
    by (auto simp: sys_arch_prctl_def set_live_fs_base_def intro!: reach_mach split: if_splits)
qed

section \<open>The outcome of execve\<close>

lemma read_cstr_loop_Inl: "read_cstr_loop pgt m root a out = Inl err \<Longrightarrow> err \<in> {EFAULT, EINVAL}"
  by (induction pgt m root a out rule: read_cstr_loop.induct)
     (subst (asm) (2) read_cstr_loop.simps, auto simp: Let_def split: if_splits sum.splits dest: with_user_bytes_Inl)

lemma read_user_cstr_Inl: "read_user_cstr pgt m root a = Inl err \<Longrightarrow> err \<in> {EFAULT, EINVAL}"
  by (auto simp: read_user_cstr_def res_simps dest: validate_Inl read_cstr_loop_Inl)

lemma str_array_loop_Inl: "str_array_loop pgt m root slot n out = Inl err \<Longrightarrow> err \<in> {EFAULT, EINVAL, E2BIG}"
  by (induction n arbitrary: slot out)
     (auto simp: res_simps split: if_splits dest: with_user_bytes_Inl read_user_cstr_Inl)

lemma exec_args_keeps:
  assumes "exec_args e regs p k = (r, k1)"
  shows "k1 = k \<or> k1 = put_proc (current_key k) (current_proc k) k"
    and "r = Inl err \<Longrightarrow> err \<in> {EFAULT, EINVAL, ENOENT, E2BIG}"
    and "r = Inr (bs, argv, envp) \<Longrightarrow> \<exists>path. fs_open (kdisk k) path = Inr bs"
proof -
  have rp: "k' = k \<or> k' = put_proc (current_key k) (current_proc k) k" "kdisk k' = kdisk k" if "resolve_path path k = (r', k')" for path r' k'
    using that by (auto simp: resolve_path_def current_cwd_def with_current_proc_def put_proc_def Let_def split: if_splits)
  show "k1 = k \<or> k1 = put_proc (current_key k) (current_proc k) k"
    using assms rp by (auto simp: exec_args_def split: sum.splits if_splits prod.splits)
  show "err \<in> {EFAULT, EINVAL, ENOENT, E2BIG}" if "r = Inl err"
    using assms that by (auto simp: exec_args_def res_simps read_user_str_array_def split: sum.splits if_splits prod.splits
      dest: read_user_cstr_Inl str_array_loop_Inl)
  show "\<exists>path. fs_open (kdisk k) path = Inr bs" if "r = Inr (bs, argv, envp)"
    using assms that rp(2) by (fastforce simp: exec_args_def res_simps split: sum.splits if_splits prod.splits)
qed

lemma current_proc_touch: "current_proc (put_proc (current_key k) (current_proc k) k) = current_proc k"
  by (simp add: current_proc_def put_proc_def current_key_def update_conv')

lemma on_frames_keeps: "on_frames f k = (r, k') \<Longrightarrow> \<exists>g. k' = k\<lparr>kframes := g\<rparr>"
  by (auto simp: on_frames_def split: prod.splits option.splits sum.splits)

lemma build_image_result:
  assumes "build_image pt pgt kern old bs argv envp s = (Inr r, s')"
  shows "case r of Inl err \<Rightarrow> err \<in> {ENOEXEC, E2BIG} | Inr (root, en, sp) \<Rightarrow> \<exists>h. parse_header bs = Inr h \<and> en = entry h"
  using assms
  by (auto simp: build_image_def load_image_def build_stack_page_def elf_load_def ebind_def ret_def res_simps
    split: prod.splits sum.splits load_error.splits)

text \<open>The current thread runs in the address space \<open>root\<close>, without TLS.\<close>

definition thread_in :: "u64 \<Rightarrow> 'n kernel \<Rightarrow> bool" where
  "thread_in root k \<longleftrightarrow> current_key k = root \<and>
     (\<exists>sc. SCHEDULER (kmach k) = Some sc \<and> current sc < length (threads sc) \<and>
        cr3 (current_thread sc) = Some root \<and> fs_base (current_thread sc) = 0)"

lemma thread_in_cong: "kmach k' = kmach k \<Longrightarrow> thread_in root k' = thread_in root k"
  by (simp add: thread_in_def current_key_def)

lemma thread_in_wake: "thread_in root k \<Longrightarrow> thread_in root (wake_pipes k)"
  by (auto simp: thread_in_def wake_pipes_def wake_pipe_waiters_def wake_blocked_def current_key_def current_thread_def split: option.splits)

lemma thread_in_drop: "thread_in root k \<Longrightarrow> thread_in root (drop_fd e fd k)"
proof -
  assume t: "thread_in root k"
  have u: "thread_in root (upd_pipe i f k)" for i f using t thread_in_cong [of "upd_pipe i f k" k] by (simp add: upd_pipe_def)
  have "thread_in root (SocketEnd_drop e s k)" for s
    using t thread_in_cong [of "SocketEnd_drop e s k" k] by (simp add: SocketEnd_drop_def Let_def)
  with u t show ?thesis
    by (cases fd) (auto simp: PipeRead_drop_def PipeWrite_drop_def Let_def intro: thread_in_wake)
qed

lemma thread_in_drops: "thread_in root k \<Longrightarrow> thread_in root (drop_fds e fs k)"
  by (induction e fs k rule: drop_fds.induct) (auto intro: thread_in_drop)

lemma rekey_result:
  assumes "thread_in new k" "map_of (procs k) old = Some p"
  shows "thread_in new (rekey_process e old new k) \<and> current_proc (rekey_process e old new k) = p\<lparr>brk := USER_HEAP_BASE\<rparr>"
proof -
  let ?p = "p\<lparr>brk := USER_HEAP_BASE\<rparr>"
  let ?k = "k\<lparr>procs := AList.update new ?p (AList.delete old (procs k))\<rparr>"
  have t: "thread_in new ?k" using assms(1) thread_in_cong [of ?k k] by simp
  have key: "current_key ?k = new" using assms(1) by (simp add: thread_in_def current_key_def)
  have r: "rekey_process e old new k = ?k \<or> (\<exists>fs. rekey_process e old new k = drop_fds e fs ?k)"
    using assms(2) by (auto simp: rekey_process_def insert_proc_def Let_def split: option.splits)
  have "procs (drop_fds e fs ?k) = procs ?k" "current_key (drop_fds e fs ?k) = new" for fs
    using key by simp_all
  with r key t thread_in_drops [OF t] show ?thesis by (auto simp: current_proc_def update_conv')
qed

lemma commit_result:
  assumes "exec_commit pt e new k = (Inr (), k')" "SCHEDULER (kmach k) = Some sc" "current sc < length (threads sc)"
    "cr3 (current_thread sc) = Some old" "map_of (procs k) old = Some p"
  shows "thread_in new k' \<and> current_proc k' = p\<lparr>brk := USER_HEAP_BASE\<rparr> \<and> msr_fs_base (mcpu (kmach k')) = 0"
proof -
  let ?k1 = "k\<lparr>kmach := (kmach k)\<lparr>SCHEDULER := Some (upd_thread (current sc) (\<lambda>t. t\<lparr>cr3 := Some new, fs_base := 0\<rparr>) sc)\<rparr>\<rparr>"
  have "on_mach (exec_replace_cr3 new) k = (Inr old, ?k1)"
    using assms(2,4) by (simp add: on_mach_def exec_replace_cr3_def sched_expect_def sched_put_def ebind_def ret_def)
  with assms(1) obtain x k2 where d: "on_frames (destroy pt new old) (activate new ?k1) = (Inr x, k2)"
    and k': "k' = set_live_fs_base 0 (rekey_process e old new k2)"
    by (auto simp: exec_commit_def ebind_def split: prod.splits sum.splits)
  obtain g where g: "k2 = (activate new ?k1)\<lparr>kframes := g\<rparr>" using on_frames_keeps [OF d] by blast
  have "thread_in new k2"
    using assms(3) by (simp add: g thread_in_def activate_def current_key_def current_address_space_def upd_thread_def current_thread_def)
  moreover have "map_of (procs k2) old = Some p" using assms(5) by (simp add: g activate_def)
  ultimately have "thread_in new (rekey_process e old new k2)" "current_proc (rekey_process e old new k2) = p\<lparr>brk := USER_HEAP_BASE\<rparr>"
    using rekey_result [of new k2 old p e] by auto
  then show ?thesis
    by (auto simp: k' set_live_fs_base_def thread_in_def current_proc_def current_key_def current_address_space_def)
qed

text \<open>What \<open>exec\<close> does with the image it has built.\<close>

definition finish_exec :: "ptes \<Rightarrow> 'n env \<Rightarrow> SyscallRegs \<Rightarrow> (i64 + u64 \<times> u64 \<times> u64) option \<Rightarrow> ('n kernel, string, SyscallRegs) eff" where
  "finish_exec pt e regs built =
     (case built of None \<Rightarrow> ret (set_errno ENOMEM regs) | Some (Inl errno) \<Rightarrow> ret (set_errno errno regs)
      | Some (Inr (new, en, sp)) \<Rightarrow> ebind (exec_commit pt e new) (\<lambda>_. ret (start_regs en sp)))"

lemma finish_exec_result:
  assumes "finish_exec pt e regs b k2 = (Inr regs', k')" "on_frames (build_image pt (mp e) kern old bs argv envp) k1 = (Inr b, k2)"
    "SCHEDULER (kmach k1) = Some sc" "current sc < length (threads sc)" "cr3 (current_thread sc) = Some key" "map_of (procs k1) key = Some p"
    "current_proc k1 = p"
  shows "(\<exists>errno \<in> {E2BIG, ENOEXEC, ENOMEM}. regs' = set_errno errno regs \<and> kmach k' = kmach k1 \<and> current_proc k' = p \<and> kdisk k' = kdisk k1) \<or>
    (\<exists>h sp root. parse_header bs = Inr h \<and> regs' = start_regs (entry h) sp \<and> thread_in root k' \<and>
      msr_fs_base (mcpu (kmach k')) = 0 \<and> current_proc k' = p\<lparr>brk := USER_HEAP_BASE\<rparr>)"
proof -
  obtain g where g: "k2 = k1\<lparr>kframes := g\<rparr>" using on_frames_keeps [OF assms(2)] by blast
  have cp: "current_proc k2 = p" using assms(7) by (simp add: g current_proc_def current_key_def)
  have bi: "case b of None \<Rightarrow> True | Some r \<Rightarrow> \<exists>s s'. build_image pt (mp e) kern old bs argv envp s = (Inr r, s')"
    using assms(2) by (auto simp: on_frames_def with_global_def split: prod.splits option.splits sum.splits)
  show ?thesis
  proof (cases "\<exists>root en sp. b = Some (Inr (root, en, sp))")
    case True
    then obtain root en sp where b: "b = Some (Inr (root, en, sp))" by blast
    with bi build_image_result obtain h where h: "parse_header bs = Inr h" "en = entry h" by fastforce
    from assms(1) b have "exec_commit pt e root k2 = (Inr (), k')" "regs' = start_regs en sp"
      by (auto simp: finish_exec_def ebind_def ret_def split: prod.splits sum.splits)
    with commit_result [of pt e root k2 k' sc key p] assms(3-6) h g show ?thesis by auto
  next
    case False
    show ?thesis
    proof (cases b)
      case None
      with assms(1) g cp show ?thesis by (auto simp: finish_exec_def ret_def)
    next
      case (Some r)
      with False obtain err where r: "r = Inl err" by (cases r) auto
      from bi Some obtain s s' where "build_image pt (mp e) kern old bs argv envp s = (Inr r, s')" by auto
      from build_image_result [OF this] r have "err \<in> {ENOEXEC, E2BIG}" by simp
      with assms(1) g cp Some r show ?thesis by (auto simp: finish_exec_def ret_def)
    qed
  qed
qed

section \<open>Properties\<close>



definition demo_regs :: SyscallRegs where
  "demo_regs = (user_regs demo_user)\<lparr>sr_rax := SYS_EXECVE, sr_rdi := 0xFFFFFFFFFFFFFFFF\<rparr>"


definition demo_running :: "unit kernel" where
  "demo_running = demo_kernel\<lparr>procs := [(0x1000, ProcState_default)],
     kmach := demo_mach\<lparr>SCHEDULER := Some \<lparr>threads = [\<lparr>pid = 1, parent = 0, exit_status = None, term_signal = None,
       pending_signals = 0, thread_rsp = 0, stack = None, cr3 = Some 0x1000, kernel_stack_top = 0, fs_base = 0, fpu = new_clean,
       state = Runnable, blocked_on = BlockNone\<rparr>], current = 0, kernel_cr3 = 0x3000\<rparr>\<rparr>\<rparr>"


end
