(* ===== verification/Spec2Isabelle.thy ===== *)
theory Spec2Isabelle
  imports Fat_Correct Frame Sched_Correct Table_Inv Dns Exec_Correct
begin

text \<open>
  Verification of the ferros kernel.
\<close>

end
